(* ===== verification/Prelude.thy ===== *)
theory Prelude
  imports Main "HOL-Library.Word" "HOL-Library.Finite_Map" "HOL-Library.Multiset"
begin

text \<open>
  What every component shares: the machine integers of the Rust code, the ways Rust code
  can fail, checked and wrapping arithmetic, and the standard \<open>HashMap\<close>.

  \<^item> \<open>u8\<close>, \<open>u32\<close>, \<open>u64\<close> are words of that width.  \<open>usize\<close> values that index or count
    elements of a list are \<open>nat\<close>; where such a value is computed by a subtraction the
    underflow is written out.
  \<^item> A panic (and the one read of uninitialised memory the code could perform) is a value
    \<open>Inl f\<close> of the result type \<open>fault + 'a\<close>.
  \<^item> The operators \<open>+\<close>, \<open>-\<close>, \<open>*\<close> of Rust panic on overflow in a debug build and wrap in a
    release build; the \<open>profile\<close> argument says which.  \<open>fetch_add\<close> on an atomic and
    \<open>wrapping_mul\<close> wrap in every build and are the word operations themselves.
  \<^item> \<open>std::collections::HashMap\<close> is a finite map.  Its iteration order is unspecified, so
    an operation that iterates takes the order as an argument, a list \<open>ks\<close> with
    \<open>iter_order m ks\<close>.
\<close>

section \<open>Machine integers and failures\<close>

type_synonym u8 = "8 word"
type_synonym u32 = "32 word"
type_synonym u64 = "64 word"
type_synonym i64 = "64 word"
type_synonym bytes = "8 word list"

datatype fault =
    ArithOverflow
  | IndexOutOfBounds
  | UnwrapOnNone
  | UninitRead

datatype profile = Debug | Release

type_synonym 'a res = "fault + 'a"

named_theorems arith_checks \<open>definitions of the checked operators\<close>
named_theorems hm_simps \<open>what the hash map operations return\<close>

definition add_u64 :: "profile \<Rightarrow> u64 \<Rightarrow> u64 \<Rightarrow> u64 res" where
  "add_u64 p a b =
     (if p = Debug \<and> 2 ^ 64 \<le> unat a + unat b then Inl ArithOverflow else Inr (a + b))"

definition mul_u64 :: "profile \<Rightarrow> u64 \<Rightarrow> u64 \<Rightarrow> u64 res" where
  "mul_u64 p a b =
     (if p = Debug \<and> 2 ^ 64 \<le> unat a * unat b then Inl ArithOverflow else Inr (a * b))"

definition sub_i64 :: "profile \<Rightarrow> i64 \<Rightarrow> i64 \<Rightarrow> i64 res" where
  "sub_i64 p a b =
     (if p = Debug \<and> (sint a - sint b < - (2 ^ 63) \<or> 2 ^ 63 \<le> sint a - sint b)
      then Inl ArithOverflow else Inr (a - b))"

text \<open>\<open>i64::unsigned_abs\<close>: the magnitude, as a \<open>u64\<close>; no input overflows.\<close>

definition unsigned_abs_i64 :: "i64 \<Rightarrow> u64" where
  "unsigned_abs_i64 a = (if sint a < 0 then - a else a)"

lemma add_u64_Release [simp]: "add_u64 Release a b = Inr (a + b)"
  by (simp add: add_u64_def)

lemma mul_u64_Release [simp]: "mul_u64 Release a b = Inr (a * b)"
  by (simp add: mul_u64_def)

lemma add_u64_fits: "unat a + unat b < 2 ^ 64 \<Longrightarrow> add_u64 p a b = Inr (a + b)"
  by (simp add: add_u64_def)

lemma mul_u64_fits: "unat a * unat b < 2 ^ 64 \<Longrightarrow> mul_u64 p a b = Inr (a * b)"
  by (simp add: mul_u64_def)

lemma unat_plus_u64_fits: "unat a + unat b < 2 ^ 64 \<Longrightarrow> unat (a + b :: u64) = unat a + unat b"
  by (simp add: unat_word_ariths)

lemma unat_times_u64_fits: "unat a * unat b < 2 ^ 64 \<Longrightarrow> unat (a * b :: u64) = unat a * unat b"
  by (simp add: unat_word_ariths)

lemma add_u64_InrD: "add_u64 p a b = Inr c \<Longrightarrow> c = a + b"
  by (simp add: add_u64_def split: if_splits)

lemma of_nat_u64_Suc [simp]: "(of_nat n :: u64) + 1 = of_nat (Suc n)"
  by simp

lemma unat_of_nat_u64: "n < 2 ^ 64 \<Longrightarrow> unat (of_nat n :: u64) = n"
  by (simp add: unat_of_nat take_bit_eq_mod)

lemma add_u64_of_nat_Suc:
  "Suc n < 2 ^ 64 \<Longrightarrow> add_u64 p (of_nat n) 1 = Inr (of_nat (Suc n))"
  by (simp add: add_u64_def unat_of_nat take_bit_eq_mod)

section \<open>Sequencing of operations that may fail\<close>

fun res_bind :: "'a res \<Rightarrow> ('a \<Rightarrow> 'b res) \<Rightarrow> 'b res" where
  "res_bind (Inl e) f = Inl e"
| "res_bind (Inr x) f = f x"

lemma res_bind_Inr_iff: "res_bind r f = Inr y \<longleftrightarrow> (\<exists>x. r = Inr x \<and> f x = Inr y)"
  by (cases r) auto

section \<open>Hash maps\<close>

definition iter_order :: "('k, 'v) fmap \<Rightarrow> 'k list \<Rightarrow> bool" where
  "iter_order m ks \<longleftrightarrow> distinct ks \<and> set ks = fset (fmdom m)"

definition hm_len :: "('k, 'v) fmap \<Rightarrow> nat" where
  "hm_len m = fcard (fmdom m)"

lemma iter_order_length: "iter_order m ks \<Longrightarrow> length ks = hm_len m"
  by (metis iter_order_def hm_len_def distinct_card fcard.rep_eq)

lemma iter_order_mem: "iter_order m ks \<Longrightarrow> k \<in> set ks \<longleftrightarrow> fmlookup m k \<noteq> None"
  by (metis fmdom_notD fmdom_notI iter_order_def)

lemma iter_order_exists: "\<exists>ks. iter_order m ks"
  by (meson finite_distinct_list finite_fset iter_order_def)

lemma iter_order_mset:
  assumes "iter_order m ks" "iter_order m ks'"
  shows "mset ks = mset ks'"
  using assms set_eq_iff_mset_eq_distinct [of ks ks'] by (simp add: iter_order_def)

text \<open>One iteration order that every map has: the ascending one.\<close>

lemma sorted_fmdom_order: "iter_order m (sorted_list_of_fset (fmdom m))"
  by (simp add: iter_order_def sorted_list_of_fset.rep_eq)

lemma hm_len_fmempty [hm_simps]: "hm_len fmempty = 0"
  by (simp add: hm_len_def)

lemma hm_len_fmupd [hm_simps]:
  "hm_len (fmupd k v m) = (if fmlookup m k = None then Suc (hm_len m) else hm_len m)"
proof (cases "k |\<in>| fmdom m")
  case True
  then have "finsert k (fmdom m) = fmdom m" and "fmlookup m k \<noteq> None"
    by (auto simp: finsert_absorb)
  then show ?thesis by (simp add: hm_len_def)
next
  case False
  then show ?thesis by (simp add: hm_len_def fmdom_notD fcard_finsert_disjoint)
qed

lemma hm_len_eq_0_iff [hm_simps]: "hm_len m = 0 \<longleftrightarrow> m = fmempty"
  by (metis fcard_fempty fcard_0_eq fmdom_empty fmdom_notD fmempty_lookup fmap_ext fempty_iff hm_len_def)

text \<open>\<open>*map.entry(k).or_insert(0) += 1\<close>, with the overflow check of the build profile.\<close>

definition bump_entry :: "profile \<Rightarrow> 'k \<Rightarrow> ('k, u64) fmap \<Rightarrow> ('k, u64) fmap res" where
  "bump_entry p k m =
     res_bind (add_u64 p (case fmlookup m k of None \<Rightarrow> 0 | Some c \<Rightarrow> c) 1)
       (\<lambda>c. Inr (fmupd k c m))"

lemma bump_entry_Release:
  "bump_entry Release k m = Inr (fmupd k ((case fmlookup m k of None \<Rightarrow> 0 | Some c \<Rightarrow> c) + 1) m)"
  by (simp add: bump_entry_def)

lemma map_of_rev_distinct: "distinct (map fst xs) \<Longrightarrow> map_of (rev xs) = map_of xs"
  by (subst map_of_inject_set) (auto simp: rev_map [symmetric])

lemma count_list_snoc: "count_list (xs @ [y]) x = count_list xs x + (if x = y then 1 else 0)"
  by (induction xs) auto

text \<open>The map counts how often each element occurs in a list.\<close>

definition counts_match :: "('k, u64) fmap \<Rightarrow> 'k list \<Rightarrow> bool" where
  "counts_match m ids \<longleftrightarrow>
     (\<forall>sid. fmlookup m sid =
        (if sid \<in> set ids then Some (of_nat (count_list ids sid)) else None))"

lemma counts_match_bump:
  assumes "counts_match m ids" "bump_entry p sid m = Inr m'"
  shows "counts_match m' (ids @ [sid])"
proof -
  have "m' = fmupd sid (of_nat (Suc (count_list ids sid))) m"
    using assms by (auto simp: bump_entry_def counts_match_def res_bind_Inr_iff count_notin
        dest!: add_u64_InrD split: if_splits)
  then show ?thesis using assms(1) by (auto simp: counts_match_def count_list_snoc count_notin)
qed

lemma bump_entry_fits:
  assumes "counts_match m ids" "Suc (length ids) < 2 ^ 64"
  shows "\<exists>m'. bump_entry p sid m = Inr m'"
proof -
  have "Suc (count_list ids sid) < 2 ^ 64"
    using assms(2) count_le_length [of ids sid] by simp
  moreover have "(case fmlookup m sid of None \<Rightarrow> 0 | Some c \<Rightarrow> c) = of_nat (count_list ids sid)"
    using assms(1) by (auto simp: counts_match_def count_notin)
  ultimately show ?thesis using add_u64_of_nat_Suc by (simp add: bump_entry_def)
qed

section \<open>Lists\<close>

text \<open>\<open>first()\<close> and \<open>last()\<close> of a slice.\<close>

lemma case_first: "(case xs of [] \<Rightarrow> None | x # _ \<Rightarrow> Some x) = (if xs = [] then None else Some (hd xs))"
  by (cases xs) auto

lemma case_last: "(case rev xs of [] \<Rightarrow> None | x # _ \<Rightarrow> Some x) = (if xs = [] then None else Some (last xs))"
  by (cases xs rule: rev_cases) auto

lemma map_filter_cong:
  "(\<And>x. x \<in> set xs \<Longrightarrow> f x = g x) \<Longrightarrow> List.map_filter f xs = List.map_filter g xs"
  by (induction xs) (auto simp: map_filter_simps split: option.splits)

section \<open>Decimal output\<close>

text \<open>How \<open>format!\<close> prints an unsigned integer with \<open>{}\<close>.\<close>

definition digit_char :: "nat \<Rightarrow> char" where
  "digit_char d = ''0123456789'' ! d"

fun dec_string :: "nat \<Rightarrow> string" where
  "dec_string n = (if n < 10 then [digit_char n] else dec_string (n div 10) @ [digit_char (n mod 10)])"

declare dec_string.simps [simp del]

text \<open>The dash of the messages, as its three UTF-8 bytes.\<close>

definition em_dash :: string where
  "em_dash = [CHR 0xE2, CHR 0x80, CHR 0x94]"

text \<open>One entry of a list changes: how many satisfy \<open>P\<close>.\<close>

lemma length_filter_update:
  "i < length xs \<Longrightarrow>
   length (filter P (xs[i := x])) + (if P (xs ! i) then 1 else 0) =
   length (filter P xs) + (if P x then 1 else 0)"
proof (induction xs arbitrary: i)
  case Nil
  then show ?case by simp
next
  case (Cons a xs)
  then show ?case by (cases i) auto
qed

end
