(* ===== verification/Common.thy ===== *)
theory Common
  imports Prelude
begin

text \<open>
  The crate \<open>common\<close> (\<open>src/common/src/lib.rs\<close>): trace events, the two enumerations of
  syscall classes, cache keys, the syscall numbers and the FNV-1a hash of syscall arguments.
  A 32-byte key (\<open>Pubkey\<close>, \<open>TransactionId\<close>) is the list of its bytes.
\<close>

unbundle bit_operations_syntax

section \<open>Identifiers, events, classes\<close>

type_synonym pubkey = "bytes"
type_synonym syscall_id = "u32"
type_synonym transaction_id = "bytes"
type_synonym args_hash = "u64"

record trace_event =
  ev_program_id :: pubkey
  ev_syscall_id :: syscall_id
  ev_args_hash :: args_hash
  ev_timestamp_ns :: u64
  ev_slot :: u64
  ev_transaction_id :: transaction_id
  ev_depth :: u8

datatype syscall_class =
    SysvarRead
  | AccountRead
  | Crypto
  | StateChange
  | CPI
  | Abort
  | Unknown

datatype safety_class =
    ReadOnly
  | Idempotent
  | StateChanging
  | OrderSensitive

fun syscall_class_fmt :: "syscall_class \<Rightarrow> string" where
  "syscall_class_fmt SysvarRead = ''SysvarRead''"
| "syscall_class_fmt AccountRead = ''AccountRead''"
| "syscall_class_fmt Crypto = ''Crypto''"
| "syscall_class_fmt StateChange = ''StateChange''"
| "syscall_class_fmt CPI = ''CPI''"
| "syscall_class_fmt Abort = ''Abort''"
| "syscall_class_fmt Unknown = ''Unknown''"

fun safety_class_fmt :: "safety_class \<Rightarrow> string" where
  "safety_class_fmt ReadOnly = ''ReadOnly''"
| "safety_class_fmt Idempotent = ''Idempotent''"
| "safety_class_fmt StateChanging = ''StateChanging''"
| "safety_class_fmt OrderSensitive = ''OrderSensitive''"

record cache_key =
  ck_syscall_id :: syscall_id
  ck_args_hash :: args_hash

section \<open>Syscall numbers\<close>

named_theorems syscall_ids \<open>the numbers of the module \<open>syscall_ids\<close>\<close>

definition SOL_GET_CLOCK_SYSVAR :: u32 where [syscall_ids]: "SOL_GET_CLOCK_SYSVAR = 1"
definition SOL_GET_RENT_SYSVAR :: u32 where [syscall_ids]: "SOL_GET_RENT_SYSVAR = 2"
definition SOL_GET_EPOCH_SCHEDULE_SYSVAR :: u32 where [syscall_ids]: "SOL_GET_EPOCH_SCHEDULE_SYSVAR = 3"
definition SOL_GET_FEES_SYSVAR :: u32 where [syscall_ids]: "SOL_GET_FEES_SYSVAR = 4"
definition SOL_GET_SLOT_HASHES_SYSVAR :: u32 where [syscall_ids]: "SOL_GET_SLOT_HASHES_SYSVAR = 5"
definition SOL_GET_STAKE_HISTORY_SYSVAR :: u32 where [syscall_ids]: "SOL_GET_STAKE_HISTORY_SYSVAR = 6"
definition SOL_LOG :: u32 where [syscall_ids]: "SOL_LOG = 10"
definition SOL_LOG_64 :: u32 where [syscall_ids]: "SOL_LOG_64 = 11"
definition SOL_LOG_PUBKEY :: u32 where [syscall_ids]: "SOL_LOG_PUBKEY = 12"
definition SOL_LOG_COMPUTE_UNITS :: u32 where [syscall_ids]: "SOL_LOG_COMPUTE_UNITS = 13"
definition SOL_SHA256 :: u32 where [syscall_ids]: "SOL_SHA256 = 20"
definition SOL_KECCAK256 :: u32 where [syscall_ids]: "SOL_KECCAK256 = 21"
definition SOL_SECP256K1_RECOVER :: u32 where [syscall_ids]: "SOL_SECP256K1_RECOVER = 22"
definition SOL_ED25519_VERIFY :: u32 where [syscall_ids]: "SOL_ED25519_VERIFY = 23"
definition SOL_INVOKE_SIGNED :: u32 where [syscall_ids]: "SOL_INVOKE_SIGNED = 30"
definition SOL_SET_RETURN_DATA :: u32 where [syscall_ids]: "SOL_SET_RETURN_DATA = 40"
definition SOL_GET_RETURN_DATA :: u32 where [syscall_ids]: "SOL_GET_RETURN_DATA = 41"
definition SOL_ALLOC_FREE :: u32 where [syscall_ids]: "SOL_ALLOC_FREE = 50"
definition SOL_MEMCPY :: u32 where [syscall_ids]: "SOL_MEMCPY = 51"
definition SOL_MEMMOVE :: u32 where [syscall_ids]: "SOL_MEMMOVE = 52"
definition SOL_MEMSET :: u32 where [syscall_ids]: "SOL_MEMSET = 53"
definition SOL_MEMCMP :: u32 where [syscall_ids]: "SOL_MEMCMP = 54"
definition SOL_PANIC :: u32 where [syscall_ids]: "SOL_PANIC = 60"
definition SOL_ABORT :: u32 where [syscall_ids]: "SOL_ABORT = 61"

section \<open>Time stamps\<close>

text \<open>
  The nanoseconds since the epoch as a \<open>u64\<close>, as several crates compute them: the clock is an
  argument, \<open>Some n\<close> when it is \<open>n\<close> nanoseconds after the epoch, \<open>None\<close> when it is before.
\<close>

definition clock_ns :: "nat option \<Rightarrow> u64" where
  "clock_ns clock = (case clock of Some nanos \<Rightarrow> of_nat nanos | None \<Rightarrow> 0)"

section \<open>FNV-1a\<close>

definition FNV_OFFSET_BASIS :: u64 where
  "FNV_OFFSET_BASIS = 14695981039346656037"

definition FNV_PRIME :: u64 where
  "FNV_PRIME = 1099511628211"

definition fnv_step :: "u64 \<Rightarrow> u8 \<Rightarrow> u64" where
  "fnv_step hash byte = (hash XOR ucast byte) * FNV_PRIME"

definition fnv_hash :: "bytes \<Rightarrow> args_hash" where
  "fnv_hash data = foldl fnv_step FNV_OFFSET_BASIS data"

definition zero_pubkey :: pubkey where
  "zero_pubkey = replicate 32 0"

definition zero_tx_id :: transaction_id where
  "zero_tx_id = replicate 32 0"

lemma zero_tx_id_unfold: "zero_tx_id = 0 # replicate 31 0"
  by (simp add: zero_tx_id_def numeral_eq_Suc)

section \<open>Properties of the hash\<close>

text \<open>The prime is odd, so multiplication by it is undone by its inverse modulo \<open>2 ^ 64\<close>.\<close>

lemma FNV_PRIME_inverse: "FNV_PRIME * 14886173955864302971 = 1"
  by (simp add: FNV_PRIME_def)

lemma times_FNV_PRIME_eq_iff: "a * FNV_PRIME = b * FNV_PRIME \<longleftrightarrow> a = b"
proof
  assume "a * FNV_PRIME = b * FNV_PRIME"
  then have "a * (FNV_PRIME * 14886173955864302971) = b * (FNV_PRIME * 14886173955864302971)"
    by (simp only: mult.assoc [symmetric])
  then show "a = b" by (simp only: FNV_PRIME_inverse mult_1_right)
qed simp

lemma xor_cancel_right: "a XOR c = b XOR c \<longleftrightarrow> a = (b :: u64)"
proof
  assume "a XOR c = b XOR c"
  then have "(a XOR c) XOR c = (b XOR c) XOR c" by simp
  then show "a = b" by (simp add: xor.assoc)
qed simp

lemma xor_cancel_left: "c XOR a = c XOR b \<longleftrightarrow> a = (b :: u64)"
  using xor_cancel_right [of a c b] by (simp only: xor.commute)

lemma ucast_u8_eq_iff: "(ucast (a :: u8) :: u64) = ucast b \<longleftrightarrow> a = b"
proof
  assume "(ucast a :: u64) = ucast b"
  then have "(ucast (ucast a :: u64) :: u8) = ucast (ucast b :: u64)" by simp
  moreover have "(ucast (ucast c :: u64) :: u8) = c" for c
    by (rule bit_word_eqI) (simp add: bit_simps)
  ultimately show "a = b" by simp
qed simp

lemma foldl_fnv_step_eq_iff: "foldl fnv_step h ys = foldl fnv_step h' ys \<longleftrightarrow> h = h'"
  by (induction ys arbitrary: h h')
    (simp_all add: fnv_step_def times_FNV_PRIME_eq_iff xor_cancel_right)

text \<open>
  C8.  Argument hashes: two argument strings of one length that differ in a single byte never have the
  same hash, wherever the byte is and whatever surrounds it; and the hash is FNV-1a as published,
  on its test vectors for the empty string, \<open>a\<close> and \<open>foobar\<close>.
\<close>

theorem fnv_hash_correct:
  "(fnv_hash (xs @ a # ys) = fnv_hash (xs @ b # ys) \<longleftrightarrow> a = b) \<and>
   fnv_hash [] = 0xcbf29ce484222325 \<and> fnv_hash [0x61] = 0xaf63dc4c8601ec8c \<and>
   fnv_hash [0x66, 0x6f, 0x6f, 0x62, 0x61, 0x72] = 0x85944171f73967e8"
proof (intro conjI)
  show "fnv_hash (xs @ a # ys) = fnv_hash (xs @ b # ys) \<longleftrightarrow> a = b"
    unfolding fnv_hash_def foldl_append foldl_Cons foldl_fnv_step_eq_iff
    by (simp add: fnv_step_def times_FNV_PRIME_eq_iff xor_cancel_left ucast_u8_eq_iff)
qed (simp_all add: fnv_hash_def fnv_step_def FNV_OFFSET_BASIS_def FNV_PRIME_def)

end
