(* ===== verification/RingBuffer.thy ===== *)
theory RingBuffer
  imports Common
begin

text \<open>
  The single-producer single-consumer ring buffer of \<open>src/pipeline/src/ring_buffer.rs\<close>,
  with each operation run to its end.  \<open>head\<close> and \<open>tail\<close> hold the contents of the two atomic
  indices; a slot is \<open>None\<close> as long as its memory is uninitialised.  An index outside the
  slots is the panic of the bounds check, a read of an uninitialised slot is \<open>UninitRead\<close>.
  The interleaving of a producer and a consumer thread is the theory \<open>RingConcurrent\<close>.
\<close>

section \<open>The buffer\<close>

definition RING_BUFFER_SIZE :: nat where
  "RING_BUFFER_SIZE = 1024"

record ring_buffer =
  rb_slots :: "trace_event option list"
  rb_head :: nat
  rb_tail :: nat

definition rb_new :: ring_buffer where
  "rb_new = \<lparr>rb_slots = replicate RING_BUFFER_SIZE None, rb_head = 0, rb_tail = 0\<rparr>"

definition rb_default :: ring_buffer where
  "rb_default = rb_new"

definition rb_push :: "ring_buffer \<Rightarrow> trace_event \<Rightarrow> (bool \<times> ring_buffer) res" where
  "rb_push rb event =
     (let tail = rb_tail rb;
          next_tail = (tail + 1) mod RING_BUFFER_SIZE
      in if next_tail = rb_head rb then Inr (False, rb)
         else if length (rb_slots rb) \<le> tail then Inl IndexOutOfBounds
         else Inr (True, rb\<lparr>rb_slots := (rb_slots rb)[tail := Some event], rb_tail := next_tail\<rparr>))"

definition rb_pop :: "ring_buffer \<Rightarrow> (trace_event option \<times> ring_buffer) res" where
  "rb_pop rb =
     (let head = rb_head rb
      in if head = rb_tail rb then Inr (None, rb)
         else if length (rb_slots rb) \<le> head then Inl IndexOutOfBounds
         else (case rb_slots rb ! head of
                 None \<Rightarrow> Inl UninitRead
               | Some event \<Rightarrow>
                   Inr (Some event, rb\<lparr>rb_head := (head + 1) mod RING_BUFFER_SIZE\<rparr>)))"

definition rb_len :: "ring_buffer \<Rightarrow> nat res" where
  "rb_len rb =
     (if rb_tail rb + RING_BUFFER_SIZE < rb_head rb then Inl ArithOverflow
      else Inr ((rb_tail rb + RING_BUFFER_SIZE - rb_head rb) mod RING_BUFFER_SIZE))"

definition rb_is_empty :: "ring_buffer \<Rightarrow> bool res" where
  "rb_is_empty rb = res_bind (rb_len rb) (\<lambda>n. Inr (n = 0))"

definition rb_capacity :: "ring_buffer \<Rightarrow> nat" where
  "rb_capacity rb = RING_BUFFER_SIZE - 1"

section \<open>Contents and invariant\<close>

text \<open>How many slots are in use, and the events they hold, oldest first.\<close>

definition rb_used :: "ring_buffer \<Rightarrow> nat" where
  "rb_used rb = (rb_tail rb + RING_BUFFER_SIZE - rb_head rb) mod RING_BUFFER_SIZE"

definition rb_slot_at :: "ring_buffer \<Rightarrow> nat \<Rightarrow> trace_event option" where
  "rb_slot_at rb i = rb_slots rb ! ((rb_head rb + i) mod RING_BUFFER_SIZE)"

definition rb_contents :: "ring_buffer \<Rightarrow> trace_event list" where
  "rb_contents rb = map (\<lambda>i. the (rb_slot_at rb i)) [0..<rb_used rb]"

definition rb_inv :: "ring_buffer \<Rightarrow> bool" where
  "rb_inv rb \<longleftrightarrow>
     length (rb_slots rb) = RING_BUFFER_SIZE \<and>
     rb_head rb < RING_BUFFER_SIZE \<and> rb_tail rb < RING_BUFFER_SIZE \<and>
     (\<forall>i < rb_used rb. rb_slot_at rb i \<noteq> None)"

lemma ring_size_gt_1 [simp]: "1 < RING_BUFFER_SIZE" "0 < RING_BUFFER_SIZE"
  by (simp_all add: RING_BUFFER_SIZE_def)

lemma length_rb_contents [simp]: "length (rb_contents rb) = rb_used rb"
  by (simp add: rb_contents_def)

text \<open>Index arithmetic modulo the size, used by both ring theories.\<close>

lemma mod_eq_imp_eq:
  assumes "(i::nat) mod n = j mod n" "i \<le> j" "j < i + n"
  shows "i = j"
proof -
  have "n dvd j - i" using assms(1,2) mod_eq_dvd_iff_nat[of i j n] by auto
  moreover have "j - i < n" using assms by simp
  ultimately have "j - i = 0" using dvd_imp_le by fastforce
  then show ?thesis using assms(2) by simp
qed

lemma rb_used_lt: "rb_used rb < RING_BUFFER_SIZE"
  by (simp add: rb_used_def)

lemma rb_tail_eq:
  assumes "rb_inv rb"
  shows "rb_tail rb = (rb_head rb + rb_used rb) mod RING_BUFFER_SIZE"
proof -
  have "(rb_head rb + rb_used rb) mod RING_BUFFER_SIZE
      = (rb_head rb + (rb_tail rb + RING_BUFFER_SIZE - rb_head rb)) mod RING_BUFFER_SIZE"
    by (simp add: rb_used_def mod_simps)
  also have "\<dots> = rb_tail rb" using assms by (simp add: rb_inv_def)
  finally show ?thesis by simp
qed

lemma rb_used_unique:
  assumes "h < RING_BUFFER_SIZE" "n < RING_BUFFER_SIZE" "t = (h + n) mod RING_BUFFER_SIZE"
  shows "(t + RING_BUFFER_SIZE - h) mod RING_BUFFER_SIZE = n"
proof (cases "h + n < RING_BUFFER_SIZE")
  case True
  then show ?thesis using assms by (simp add: mod_if)
next
  case False
  then have "(h + n) mod RING_BUFFER_SIZE = h + n - RING_BUFFER_SIZE"
    using assms by (simp add: mod_if)
  then show ?thesis using assms False by (simp add: mod_if)
qed

lemma rb_full_iff:
  assumes "rb_inv rb"
  shows "(rb_tail rb + 1) mod RING_BUFFER_SIZE = rb_head rb \<longleftrightarrow> rb_used rb = RING_BUFFER_SIZE - 1"
proof -
  have h: "rb_head rb < RING_BUFFER_SIZE" using assms by (simp add: rb_inv_def)
  have eq: "(rb_tail rb + 1) mod RING_BUFFER_SIZE = (rb_head rb + (rb_used rb + 1)) mod RING_BUFFER_SIZE"
    by (subst rb_tail_eq [OF assms]) (simp add: mod_simps)
  show ?thesis
  proof
    assume "(rb_tail rb + 1) mod RING_BUFFER_SIZE = rb_head rb"
    then have m: "(rb_head rb + (rb_used rb + 1)) mod RING_BUFFER_SIZE = rb_head rb mod RING_BUFFER_SIZE"
      using h eq by simp
    show "rb_used rb = RING_BUFFER_SIZE - 1"
    proof (rule ccontr)
      assume "rb_used rb \<noteq> RING_BUFFER_SIZE - 1"
      then have "rb_used rb + 1 < RING_BUFFER_SIZE" using rb_used_lt [of rb] by simp
      then show False
        using mod_eq_imp_eq [OF m [symmetric]] by simp
    qed
  next
    assume "rb_used rb = RING_BUFFER_SIZE - 1"
    then show "(rb_tail rb + 1) mod RING_BUFFER_SIZE = rb_head rb" using h eq by simp
  qed
qed

lemma rb_empty_iff:
  assumes "rb_inv rb"
  shows "rb_head rb = rb_tail rb \<longleftrightarrow> rb_used rb = 0"
proof
  assume "rb_head rb = rb_tail rb"
  then show "rb_used rb = 0" by (simp add: rb_used_def)
next
  assume "rb_used rb = 0"
  then show "rb_head rb = rb_tail rb"
    using rb_tail_eq [OF assms] assms by (simp add: rb_inv_def)
qed

section \<open>Every operation against the bounded queue\<close>

lemma rb_new_inv: "rb_inv rb_new" and rb_new_contents: "rb_contents rb_new = []"
  by (simp_all add: rb_inv_def rb_new_def rb_used_def rb_contents_def)

lemma rb_push_full:
  assumes "rb_inv rb" "rb_used rb = RING_BUFFER_SIZE - 1"
  shows "rb_push rb e = Inr (False, rb)"
  using assms rb_full_iff [OF assms(1)] by (simp add: rb_push_def)

lemma rb_push_room:
  assumes inv: "rb_inv rb" and room: "rb_used rb < RING_BUFFER_SIZE - 1"
  obtains rb' where "rb_push rb e = Inr (True, rb')" "rb_inv rb'"
    "rb_contents rb' = rb_contents rb @ [e]"
proof -
  let ?N = RING_BUFFER_SIZE
  let ?rb' = "rb\<lparr>rb_slots := (rb_slots rb)[rb_tail rb := Some e], rb_tail := Suc (rb_tail rb) mod ?N\<rparr>"
  have b: "length (rb_slots rb) = ?N" "rb_head rb < ?N" "rb_tail rb < ?N"
    using inv by (simp_all add: rb_inv_def)
  have push: "rb_push rb e = Inr (True, ?rb')"
    using rb_full_iff [OF inv] room b by (simp add: rb_push_def Let_def)
  have used: "rb_used ?rb' = Suc (rb_used rb)"
  proof -
    have "(rb_tail rb + 1) mod ?N = (rb_head rb + Suc (rb_used rb)) mod ?N"
      by (subst rb_tail_eq [OF inv]) (simp add: mod_simps)
    then show ?thesis
      using rb_used_unique [of "rb_head rb" "Suc (rb_used rb)"] b room by (simp add: rb_used_def)
  qed
  have slot: "rb_slot_at ?rb' i = (if i = rb_used rb then Some e else rb_slot_at rb i)"
    if "i \<le> rb_used rb" for i
  proof (cases "i = rb_used rb")
    case True
    then show ?thesis using b rb_tail_eq [OF inv] by (simp add: rb_slot_at_def)
  next
    case False
    have "(rb_head rb + i) mod ?N \<noteq> rb_tail rb"
    proof
      assume "(rb_head rb + i) mod ?N = rb_tail rb"
      then have "(rb_head rb + i) mod ?N = (rb_head rb + rb_used rb) mod ?N"
        using rb_tail_eq [OF inv] by simp
      then show False
        using mod_eq_imp_eq [of "rb_head rb + i" ?N "rb_head rb + rb_used rb"] that False
          rb_used_lt [of rb] by simp
    qed
    then show ?thesis using False by (simp add: rb_slot_at_def)
  qed
  have "rb_inv ?rb'"
    using inv b used slot by (auto simp: rb_inv_def less_Suc_eq_le)
  moreover have "rb_contents ?rb' = rb_contents rb @ [e]"
    unfolding rb_contents_def used using slot by (simp del: One_nat_def)
  ultimately show thesis using push that by blast
qed

lemma rb_pop_empty:
  assumes "rb_inv rb" "rb_used rb = 0"
  shows "rb_pop rb = Inr (None, rb)"
  using assms rb_empty_iff [OF assms(1)] by (simp add: rb_pop_def)

lemma rb_pop_some:
  assumes inv: "rb_inv rb" and ne: "0 < rb_used rb"
  obtains rb' where "rb_pop rb = Inr (Some (hd (rb_contents rb)), rb')" "rb_inv rb'"
    "rb_contents rb' = tl (rb_contents rb)"
proof -
  let ?N = RING_BUFFER_SIZE
  let ?rb' = "rb\<lparr>rb_head := Suc (rb_head rb) mod ?N\<rparr>"
  have b: "length (rb_slots rb) = ?N" "rb_head rb < ?N" "rb_tail rb < ?N"
    using inv by (simp_all add: rb_inv_def)
  have head: "rb_slots rb ! rb_head rb = rb_slot_at rb 0" using b by (simp add: rb_slot_at_def)
  then obtain e where e: "rb_slot_at rb 0 = Some e" using inv ne by (auto simp: rb_inv_def)
  have e_hd: "e = hd (rb_contents rb)"
    using ne e by (simp add: rb_contents_def hd_map)
  have pop: "rb_pop rb = Inr (Some (hd (rb_contents rb)), ?rb')"
    using rb_empty_iff [OF inv] ne b head e e_hd by (simp add: rb_pop_def)
  have used: "rb_used ?rb' = rb_used rb - 1"
  proof -
    have "rb_tail rb = ((rb_head rb + 1) mod ?N + (rb_used rb - 1)) mod ?N"
    proof -
      have "((rb_head rb + 1) mod ?N + (rb_used rb - 1)) mod ?N
          = (rb_head rb + 1 + (rb_used rb - 1)) mod ?N"
        by (rule mod_add_left_eq)
      then show ?thesis using ne rb_tail_eq [OF inv] by simp
    qed
    then have "(rb_tail rb + ?N - (rb_head rb + 1) mod ?N) mod ?N = rb_used rb - 1"
      by (intro rb_used_unique) (use rb_used_lt [of rb] in simp_all)
    then show ?thesis by (simp add: rb_used_def)
  qed
  have slot: "rb_slot_at ?rb' i = rb_slot_at rb (Suc i)" for i
    by (simp add: rb_slot_at_def mod_simps)
  have "rb_inv ?rb'"
    using inv b by (auto simp: rb_inv_def used slot)
  moreover have "rb_contents ?rb' = tl (rb_contents rb)"
    by (rule nth_equalityI) (auto simp: rb_contents_def used slot nth_tl)
  ultimately show thesis using pop that by blast
qed

lemma rb_len_used: "rb_inv rb \<Longrightarrow> rb_len rb = Inr (rb_used rb)"
  by (simp add: rb_len_def rb_inv_def rb_used_def)

section \<open>The bounded queue contract\<close>

text \<open>
  What a client of a bounded first-in first-out buffer relies on.  The operations may fail
  (\<open>res\<close>); the contract says that under the invariant they do not.
\<close>

locale bounded_fifo =
  fixes invar :: "'s \<Rightarrow> bool"
    and contents :: "'s \<Rightarrow> 'a list"
    and cap :: nat
    and push :: "'s \<Rightarrow> 'a \<Rightarrow> (bool \<times> 's) res"
    and pop :: "'s \<Rightarrow> ('a option \<times> 's) res"
  assumes bounded: "invar s \<Longrightarrow> length (contents s) \<le> cap"
    and push_law: "invar s \<Longrightarrow> \<exists>s'. push s x = Inr (length (contents s) < cap, s') \<and> invar s' \<and>
           contents s' = (if length (contents s) < cap then contents s @ [x] else contents s)"
    and pop_law: "invar s \<Longrightarrow> \<exists>s'. invar s' \<and>
           pop s = Inr (case contents s of [] \<Rightarrow> None | x # _ \<Rightarrow> Some x, s') \<and>
           contents s' = tl (contents s)"

text \<open>
  A client's use of the queue: a list of operations, and what running it returns: the events
  accepted by a push (it returned true) and the events popped, in order.
\<close>

datatype 'a fifo_op = Push 'a | Pop

fun fifo_run ::
  "('s \<Rightarrow> 'a \<Rightarrow> (bool \<times> 's) res) \<Rightarrow> ('s \<Rightarrow> ('a option \<times> 's) res) \<Rightarrow>
   'a fifo_op list \<Rightarrow> 's \<Rightarrow> ('a list \<times> 'a list \<times> 's) res" where
  "fifo_run push pop [] s = Inr ([], [], s)"
| "fifo_run push pop (Push x # os) s =
     res_bind (push s x) (\<lambda>(ok, s').
       res_bind (fifo_run push pop os s') (\<lambda>(acc, out, s'').
         Inr (if ok then x # acc else acc, out, s'')))"
| "fifo_run push pop (Pop # os) s =
     res_bind (pop s) (\<lambda>(r, s').
       res_bind (fifo_run push pop os s') (\<lambda>(acc, out, s'').
         Inr (acc, case r of None \<Rightarrow> out | Some x \<Rightarrow> x # out, s'')))"

context bounded_fifo
begin

lemma run_fifo:
  "invar s \<Longrightarrow> \<exists>acc out s'. fifo_run push pop os s = Inr (acc, out, s') \<and> invar s' \<and>
     contents s @ acc = out @ contents s'"
proof (induction os arbitrary: s)
  case Nil
  then show ?case by simp
next
  case (Cons a os)
  show ?case
  proof (cases a)
    case (Push x)
    obtain s1 where s1: "push s x = Inr (length (contents s) < cap, s1)" "invar s1"
      "contents s1 = (if length (contents s) < cap then contents s @ [x] else contents s)"
      using push_law [OF Cons.prems] by blast
    obtain acc out s2 where "fifo_run push pop os s1 = Inr (acc, out, s2)" "invar s2"
      "contents s1 @ acc = out @ contents s2"
      using Cons.IH [OF s1(2)] by blast
    with s1 Push show ?thesis by auto
  next
    case Pop
    obtain s1 where s1: "pop s = Inr (case contents s of [] \<Rightarrow> None | x # _ \<Rightarrow> Some x, s1)"
      "invar s1" "contents s1 = tl (contents s)"
      using pop_law [OF Cons.prems] by blast
    obtain acc out s2 where "fifo_run push pop os s1 = Inr (acc, out, s2)" "invar s2"
      "contents s1 @ acc = out @ contents s2"
      using Cons.IH [OF s1(2)] by blast
    with s1 Pop show ?thesis by (cases "contents s") auto
  qed
qed

end

interpretation ring: bounded_fifo rb_inv rb_contents "RING_BUFFER_SIZE - 1" rb_push rb_pop
proof unfold_locales
  fix s assume "rb_inv s"
  show "length (rb_contents s) \<le> RING_BUFFER_SIZE - 1"
    using rb_used_lt [of s] by simp
next
  fix s x assume inv: "rb_inv s"
  show "\<exists>s'. rb_push s x = Inr (length (rb_contents s) < RING_BUFFER_SIZE - 1, s') \<and> rb_inv s' \<and>
      rb_contents s' = (if length (rb_contents s) < RING_BUFFER_SIZE - 1
                        then rb_contents s @ [x] else rb_contents s)"
  proof (cases "rb_used s < RING_BUFFER_SIZE - 1")
    case True
    then show ?thesis using rb_push_room [OF inv, of x] by (metis length_rb_contents)
  next
    case False
    then have "rb_used s = RING_BUFFER_SIZE - 1" using rb_used_lt [of s] by simp
    then show ?thesis using rb_push_full [OF inv] inv by simp
  qed
next
  fix s assume inv: "rb_inv s"
  show "\<exists>s'. rb_inv s' \<and>
      rb_pop s = Inr (case rb_contents s of [] \<Rightarrow> None | x # _ \<Rightarrow> Some x, s') \<and>
      rb_contents s' = tl (rb_contents s)"
  proof (cases "rb_used s = 0")
    case True
    then have "rb_contents s = []" by (simp add: rb_contents_def)
    then show ?thesis using rb_pop_empty [OF inv True] inv by simp
  next
    case False
    then have "rb_contents s \<noteq> []" by (simp add: rb_contents_def)
    then have "(case rb_contents s of [] \<Rightarrow> None | x # _ \<Rightarrow> Some x) = Some (hd (rb_contents s))"
      by (cases "rb_contents s") auto
    then show ?thesis using rb_pop_some [OF inv] False by (metis gr0I)
  qed
qed

section \<open>Equivalence with a bounded list\<close>

text \<open>
  All the operations of the buffer, with their answers, on the ring and on a list of at most
  \<open>RING_BUFFER_SIZE - 1\<close> events.
\<close>

datatype ring_op = DoPush trace_event | DoPop | DoLen | DoIsEmpty

datatype ring_answer = Pushed bool | Popped "trace_event option" | Len nat | IsEmpty bool

fun ring_run :: "ring_op list \<Rightarrow> ring_buffer \<Rightarrow> ring_answer list res" where
  "ring_run [] rb = Inr []"
| "ring_run (DoPush e # os) rb =
     res_bind (rb_push rb e) (\<lambda>(ok, rb'). res_bind (ring_run os rb') (\<lambda>as. Inr (Pushed ok # as)))"
| "ring_run (DoPop # os) rb =
     res_bind (rb_pop rb) (\<lambda>(r, rb'). res_bind (ring_run os rb') (\<lambda>as. Inr (Popped r # as)))"
| "ring_run (DoLen # os) rb =
     res_bind (rb_len rb) (\<lambda>n. res_bind (ring_run os rb) (\<lambda>as. Inr (Len n # as)))"
| "ring_run (DoIsEmpty # os) rb =
     res_bind (rb_is_empty rb) (\<lambda>b. res_bind (ring_run os rb) (\<lambda>as. Inr (IsEmpty b # as)))"

fun queue_run :: "nat \<Rightarrow> ring_op list \<Rightarrow> trace_event list \<Rightarrow> ring_answer list" where
  "queue_run n [] q = []"
| "queue_run n (DoPush e # os) q =
     (if length q < n then Pushed True # queue_run n os (q @ [e]) else Pushed False # queue_run n os q)"
| "queue_run n (DoPop # os) q =
     (case q of [] \<Rightarrow> Popped None # queue_run n os [] | e # q' \<Rightarrow> Popped (Some e) # queue_run n os q')"
| "queue_run n (DoLen # os) q = Len (length q) # queue_run n os q"
| "queue_run n (DoIsEmpty # os) q = IsEmpty (q = []) # queue_run n os q"

lemma ring_run_queue:
  "rb_inv rb \<Longrightarrow> ring_run os rb = Inr (queue_run (rb_capacity rb) os (rb_contents rb))"
proof (induction os arbitrary: rb)
  case Nil
  then show ?case by simp
next
  case (Cons a os)
  have cap: "rb_capacity rb' = RING_BUFFER_SIZE - 1" for rb' by (simp add: rb_capacity_def)
  have len: "rb_len rb = Inr (length (rb_contents rb))" using rb_len_used [OF Cons.prems] by simp
  show ?case
  proof (cases a)
    case (DoPush e)
    then show ?thesis
      using ring.push_law [OF Cons.prems, of e] Cons.IH by (auto simp: cap)
  next
    case DoPop
    then show ?thesis
      using ring.pop_law [OF Cons.prems] Cons.IH by (auto simp: cap split: list.splits)
  next
    case DoLen
    then show ?thesis using len Cons by simp
  next
    case DoIsEmpty
    then show ?thesis using len Cons.IH [OF Cons.prems] by (simp add: rb_is_empty_def) (simp add: rb_contents_def)
  qed
qed

text \<open>
  C1.  Used by one thread, the ring buffer is a first-in first-out queue of at most
  \<open>RING_BUFFER_SIZE - 1\<close> events: for every sequence of \<open>push\<close>, \<open>pop\<close>, \<open>len\<close> and \<open>is_empty\<close>
  from the new buffer every answer is the one of the bounded list, and no operation fails (no
  index out of bounds, no read of an uninitialised slot), however often the indices wrap.
\<close>

theorem ring_refines_queue:
  "ring_run os rb_new = Inr (queue_run (RING_BUFFER_SIZE - 1) os [])"
  using ring_run_queue [OF rb_new_inv] by (simp add: rb_capacity_def rb_new_contents)

end
