(* ===== verification/RingConcurrent.thy ===== *)
theory RingConcurrent
  imports RingBuffer
begin

text \<open>
  The ring buffer of \<open>src/pipeline/src/ring_buffer.rs\<close> used as its comment says: one thread
  calls \<open>push\<close>, another calls \<open>pop\<close>, and their memory accesses interleave.  A step of the
  relation \<open>ring_step\<close> is one access of \<open>push\<close> or \<open>pop\<close>.

  Memory.  An atomic index is its modification order, the list of the values stored to it.  A
  thread that loads the index it alone stores to reads the last entry.  A thread that loads the
  other thread's index may read any entry not older than one it has read before; this is the
  coherence that \<open>Acquire\<close> and \<open>Release\<close> guarantee, and it allows stale reads.  The slots are
  plain memory: \<open>no_slot_race\<close> shows that every two conflicting accesses of a slot are ordered by a
  store and a load of an index, so no finer model of them is needed.

  \<open>pushed\<close> and \<open>popped\<close> are ghost fields: the events whose push has returned true, and the events
  that pop has returned, in order.
\<close>

section \<open>Threads and state\<close>

text \<open>Where the producer is inside \<open>push\<close>, with the local variables alive there.\<close>

datatype producer_pc =
    PIdle
  | PLoaded trace_event nat        \<comment> \<open>\<open>tail\<close> loaded\<close>
  | PChecked trace_event nat nat   \<comment> \<open>not full: about to write slot \<open>tail\<close>, then store \<open>next_tail\<close>\<close>
  | PWritten trace_event nat       \<comment> \<open>slot written: about to store \<open>next_tail\<close>\<close>

text \<open>Where the consumer is inside \<open>pop\<close>.\<close>

datatype consumer_pc =
    CIdle
  | CLoaded nat                    \<comment> \<open>\<open>head\<close> loaded\<close>
  | CChecked nat                   \<comment> \<open>not empty: about to read slot \<open>head\<close>\<close>
  | CRead nat trace_event          \<comment> \<open>slot read: about to store the next head\<close>

record ring_sys =
  rs_slots :: "trace_event option list"
  rs_head :: "nat list"
  rs_tail :: "nat list"
  rs_head_seen :: nat
  rs_tail_seen :: nat
  rs_producer :: producer_pc
  rs_consumer :: consumer_pc
  rs_pushed :: "trace_event list"
  rs_popped :: "trace_event list"
  rs_fault :: "fault option"

definition ring_init :: ring_sys where
  "ring_init = \<lparr>rs_slots = replicate RING_BUFFER_SIZE None, rs_head = [0], rs_tail = [0],
     rs_head_seen = 0, rs_tail_seen = 0, rs_producer = PIdle, rs_consumer = CIdle,
     rs_pushed = [], rs_popped = [], rs_fault = None\<rparr>"

inductive ring_step :: "ring_sys \<Rightarrow> ring_sys \<Rightarrow> bool" where
  push_load_tail:
    "rs_producer s = PIdle \<Longrightarrow>
     ring_step s (s\<lparr>rs_producer := PLoaded e (last (rs_tail s))\<rparr>)"
| push_full:
    "rs_producer s = PLoaded e ti \<Longrightarrow> rs_head_seen s \<le> k \<Longrightarrow> k < length (rs_head s) \<Longrightarrow>
     (ti + 1) mod RING_BUFFER_SIZE = rs_head s ! k \<Longrightarrow>
     ring_step s (s\<lparr>rs_producer := PIdle, rs_head_seen := k\<rparr>)"
| push_room:
    "rs_producer s = PLoaded e ti \<Longrightarrow> rs_head_seen s \<le> k \<Longrightarrow> k < length (rs_head s) \<Longrightarrow>
     (ti + 1) mod RING_BUFFER_SIZE \<noteq> rs_head s ! k \<Longrightarrow>
     ring_step s (s\<lparr>rs_producer := PChecked e ti ((ti + 1) mod RING_BUFFER_SIZE),
                    rs_head_seen := k\<rparr>)"
| push_write:
    "rs_producer s = PChecked e ti nt \<Longrightarrow> ti < length (rs_slots s) \<Longrightarrow>
     ring_step s (s\<lparr>rs_slots := (rs_slots s)[ti := Some e], rs_producer := PWritten e nt\<rparr>)"
| push_write_oob:
    "rs_producer s = PChecked e ti nt \<Longrightarrow> \<not> ti < length (rs_slots s) \<Longrightarrow>
     ring_step s (s\<lparr>rs_fault := Some IndexOutOfBounds\<rparr>)"
| push_store_tail:
    "rs_producer s = PWritten e nt \<Longrightarrow>
     ring_step s (s\<lparr>rs_tail := rs_tail s @ [nt], rs_producer := PIdle,
                    rs_pushed := rs_pushed s @ [e]\<rparr>)"
| pop_load_head:
    "rs_consumer s = CIdle \<Longrightarrow>
     ring_step s (s\<lparr>rs_consumer := CLoaded (last (rs_head s))\<rparr>)"
| pop_empty:
    "rs_consumer s = CLoaded hi \<Longrightarrow> rs_tail_seen s \<le> k \<Longrightarrow> k < length (rs_tail s) \<Longrightarrow>
     hi = rs_tail s ! k \<Longrightarrow>
     ring_step s (s\<lparr>rs_consumer := CIdle, rs_tail_seen := k\<rparr>)"
| pop_some:
    "rs_consumer s = CLoaded hi \<Longrightarrow> rs_tail_seen s \<le> k \<Longrightarrow> k < length (rs_tail s) \<Longrightarrow>
     hi \<noteq> rs_tail s ! k \<Longrightarrow>
     ring_step s (s\<lparr>rs_consumer := CChecked hi, rs_tail_seen := k\<rparr>)"
| pop_read:
    "rs_consumer s = CChecked hi \<Longrightarrow> hi < length (rs_slots s) \<Longrightarrow> rs_slots s ! hi = Some e \<Longrightarrow>
     ring_step s (s\<lparr>rs_consumer := CRead hi e\<rparr>)"
| pop_read_uninit:
    "rs_consumer s = CChecked hi \<Longrightarrow> hi < length (rs_slots s) \<Longrightarrow> rs_slots s ! hi = None \<Longrightarrow>
     ring_step s (s\<lparr>rs_fault := Some UninitRead\<rparr>)"
| pop_read_oob:
    "rs_consumer s = CChecked hi \<Longrightarrow> \<not> hi < length (rs_slots s) \<Longrightarrow>
     ring_step s (s\<lparr>rs_fault := Some IndexOutOfBounds\<rparr>)"
| pop_store_head:
    "rs_consumer s = CRead hi e \<Longrightarrow>
     ring_step s (s\<lparr>rs_head := rs_head s @ [(hi + 1) mod RING_BUFFER_SIZE], rs_consumer := CIdle,
                    rs_popped := rs_popped s @ [e]\<rparr>)"

inductive ring_reachable :: "ring_sys \<Rightarrow> bool" where
  ring_start: "ring_reachable ring_init"
| ring_move: "ring_reachable s \<Longrightarrow> ring_step s t \<Longrightarrow> ring_reachable t"

section \<open>The invariant\<close>

text \<open>
  With \<open>h\<close> pops and \<open>t\<close> pushes completed: the modification orders are the counters modulo the
  size; what each thread has seen of the other's index bounds how far apart they can be; and the
  slots of the events still in the buffer hold exactly these events.
\<close>

definition index_history :: "nat \<Rightarrow> nat list" where
  "index_history n = map (\<lambda>k. k mod RING_BUFFER_SIZE) [0..<Suc n]"

definition producer_ok :: "ring_sys \<Rightarrow> nat \<Rightarrow> bool" where
  "producer_ok s t =
     (let i = t mod RING_BUFFER_SIZE; j = Suc t mod RING_BUFFER_SIZE in
      case rs_producer s of
        PIdle \<Rightarrow> True
      | PLoaded e ti \<Rightarrow> ti = i
      | PChecked e ti nt \<Rightarrow> ti = i \<and> nt = j \<and> Suc t - rs_head_seen s < RING_BUFFER_SIZE
      | PWritten e nt \<Rightarrow> nt = j \<and> Suc t - rs_head_seen s < RING_BUFFER_SIZE \<and>
                         rs_slots s ! i = Some e)"

definition consumer_ok :: "ring_sys \<Rightarrow> nat \<Rightarrow> bool" where
  "consumer_ok s h =
     (let i = h mod RING_BUFFER_SIZE in
      case rs_consumer s of
        CIdle \<Rightarrow> True
      | CLoaded hi \<Rightarrow> hi = i
      | CChecked hi \<Rightarrow> hi = i \<and> h < rs_tail_seen s
      | CRead hi e \<Rightarrow> hi = i \<and> h < rs_tail_seen s \<and> e = rs_pushed s ! h)"

definition ring_inv :: "ring_sys \<Rightarrow> bool" where
  "ring_inv s \<longleftrightarrow>
     (let h = length (rs_popped s); t = length (rs_pushed s) in
      rs_fault s = None \<and>
      length (rs_slots s) = RING_BUFFER_SIZE \<and>
      rs_head s = index_history h \<and> rs_tail s = index_history t \<and>
      rs_head_seen s \<le> h \<and> h \<le> rs_tail_seen s \<and> rs_tail_seen s \<le> t \<and>
      t - rs_head_seen s < RING_BUFFER_SIZE \<and>
      producer_ok s t \<and> consumer_ok s h \<and>
      rs_popped s = take h (rs_pushed s) \<and>
      (\<forall>j. h \<le> j \<and> j < t \<longrightarrow> rs_slots s ! (j mod RING_BUFFER_SIZE) = Some (rs_pushed s ! j)))"

lemma index_history_simps [simp]:
  "length (index_history n) = Suc n"
  "k \<le> n \<Longrightarrow> index_history n ! k = k mod RING_BUFFER_SIZE"
  "last (index_history n) = n mod RING_BUFFER_SIZE"
  "index_history n @ [Suc n mod RING_BUFFER_SIZE] = index_history (Suc n)"
  by (simp_all add: index_history_def nth_append)

lemma ring_init_inv: "ring_inv ring_init"
  by (simp add: ring_inv_def ring_init_def producer_ok_def consumer_ok_def index_history_def)

lemmas ring_inv_unfold = ring_inv_def producer_ok_def consumer_ok_def Let_def

lemma room_after_check:
  assumes "Suc t mod n \<noteq> k mod n" "k \<le> t" "t - k < n"
  shows "Suc t - k < (n::nat)"
proof (rule ccontr)
  assume "\<not> Suc t - k < n"
  then have "Suc t = k + n" using assms(2,3) by simp
  then show False using assms(1) by simp
qed

lemmas pc_congs = producer_pc.case_cong consumer_pc.case_cong

lemma ring_step_inv: "ring_step s s' \<Longrightarrow> ring_inv s \<Longrightarrow> ring_inv s'"
proof (induction rule: ring_step.induct)
  case (push_load_tail s e)
  then show ?case by (simp add: ring_inv_unfold cong: pc_congs)
next
  case (push_full s e ti k)
  have "length (rs_pushed s) - k \<le> length (rs_pushed s) - rs_head_seen s"
    using push_full by simp
  then show ?case using push_full by (auto simp: ring_inv_unfold cong: pc_congs)
next
  case (push_room s e ti k)
  then show ?case
    using room_after_check [of "length (rs_pushed s)" RING_BUFFER_SIZE k]
    by (auto simp: ring_inv_unfold mod_Suc_eq cong: pc_congs)
next
  case (push_write s e ti nt)
  let ?h = "length (rs_popped s)" and ?t = "length (rs_pushed s)"
  have "?t mod RING_BUFFER_SIZE \<noteq> j mod RING_BUFFER_SIZE" if "?h \<le> j" "j < ?t" for j
  proof
    assume "?t mod RING_BUFFER_SIZE = j mod RING_BUFFER_SIZE"
    moreover have "?t < j + RING_BUFFER_SIZE"
      using push_write that by (auto simp: ring_inv_unfold)
    ultimately show False using mod_eq_imp_eq [of j RING_BUFFER_SIZE ?t] that by simp
  qed
  then show ?case using push_write by (auto simp: ring_inv_unfold split: consumer_pc.splits cong: pc_congs)
next
  case (push_write_oob s e ti nt)
  then show ?case by (simp add: ring_inv_unfold cong: pc_congs)
next
  case (push_store_tail s e nt)
  then show ?case
    by (auto simp: ring_inv_unfold nth_append less_Suc_eq split: consumer_pc.splits cong: pc_congs)
next
  case (pop_load_head s)
  then show ?case by (simp add: ring_inv_unfold cong: pc_congs)
next
  case (pop_empty s hi k)
  then show ?case by (simp add: ring_inv_unfold cong: pc_congs)
next
  case (pop_some s hi k)
  then show ?case by (auto simp: ring_inv_unfold le_less cong: pc_congs)
next
  case (pop_read s hi e)
  then show ?case by (auto simp: ring_inv_unfold cong: pc_congs)
next
  case (pop_read_uninit s hi)
  then show ?case by (auto simp: ring_inv_unfold cong: pc_congs)
next
  case (pop_read_oob s hi)
  then show ?case by (simp add: ring_inv_unfold cong: pc_congs)
next
  case (pop_store_head s hi e)
  then show ?case
    by (auto simp: ring_inv_unfold mod_Suc_eq take_Suc_conv_app_nth split: producer_pc.splits cong: pc_congs)
qed

lemma ring_reachable_inv: "ring_reachable s \<Longrightarrow> ring_inv s"
  by (induction rule: ring_reachable.induct) (auto intro: ring_init_inv ring_step_inv)


section \<open>What the threads observe\<close>

text \<open>A load of the other thread's index decides full and empty exactly for the value it read.\<close>

lemma full_check_iff:
  assumes "ring_inv s" "rs_producer s = PLoaded e ti" "rs_head_seen s \<le> k" "k < length (rs_head s)"
  shows "(ti + 1) mod RING_BUFFER_SIZE = rs_head s ! k \<longleftrightarrow>
    length (rs_pushed s) - k = RING_BUFFER_SIZE - 1"
proof -
  let ?t = "length (rs_pushed s)"
  have b: "k \<le> ?t" "?t - k < RING_BUFFER_SIZE" "ti = ?t mod RING_BUFFER_SIZE"
    "rs_head s ! k = k mod RING_BUFFER_SIZE"
    using assms by (auto simp: ring_inv_unfold)
  show ?thesis
  proof
    assume "(ti + 1) mod RING_BUFFER_SIZE = rs_head s ! k"
    then have eq: "k mod RING_BUFFER_SIZE = Suc ?t mod RING_BUFFER_SIZE"
      using b by (simp add: mod_Suc_eq)
    have "\<not> Suc ?t < k + RING_BUFFER_SIZE"
      using mod_eq_imp_eq [OF eq] b(1) by auto
    then show "?t - k = RING_BUFFER_SIZE - 1" using b by simp
  next
    assume "?t - k = RING_BUFFER_SIZE - 1"
    then have "Suc ?t = k + RING_BUFFER_SIZE" using b(1) ring_size_gt_1 by linarith
    then show "(ti + 1) mod RING_BUFFER_SIZE = rs_head s ! k"
      using b by (simp add: mod_Suc_eq)
  qed
qed

lemma empty_check_iff:
  assumes "ring_inv s" "rs_consumer s = CLoaded hi" "rs_tail_seen s \<le> k" "k < length (rs_tail s)"
  shows "hi = rs_tail s ! k \<longleftrightarrow> k = length (rs_popped s)"
proof -
  let ?h = "length (rs_popped s)"
  have b: "?h \<le> k" "k < ?h + RING_BUFFER_SIZE" "hi = ?h mod RING_BUFFER_SIZE"
    "rs_tail s ! k = k mod RING_BUFFER_SIZE"
    using assms by (auto simp: ring_inv_unfold)
  then show ?thesis using mod_eq_imp_eq [of ?h RING_BUFFER_SIZE k] by auto
qed

section \<open>The sequential operations as runs\<close>

definition ring_view :: "ring_sys \<Rightarrow> ring_buffer" where
  "ring_view s = \<lparr>rb_slots = rs_slots s, rb_head = last (rs_head s), rb_tail = last (rs_tail s)\<rparr>"

lemma push_is_run:
  assumes "ring_inv s" "rs_producer s = PIdle" "rb_push (ring_view s) e = Inr (ok, rb')"
  shows "\<exists>s'. ring_step\<^sup>*\<^sup>* s s' \<and> ring_view s' = rb' \<and> rs_producer s' = PIdle \<and>
    rs_pushed s' = rs_pushed s @ (if ok then [e] else [])"
proof -
  let ?k = "length (rs_popped s)"
  let ?s1 = "s\<lparr>rs_producer := PLoaded e (last (rs_tail s))\<rparr>"
  have k: "rs_head_seen s \<le> ?k" "?k < length (rs_head s)" "rs_head s ! ?k = last (rs_head s)"
    "length (rs_slots s) = RING_BUFFER_SIZE"
    using assms(1) by (auto simp: ring_inv_unfold)
  have s1: "ring_step s ?s1" using assms(2) by (rule ring_step.push_load_tail)
  show ?thesis
  proof (cases "(last (rs_tail s) + 1) mod RING_BUFFER_SIZE = last (rs_head s)")
    case True
    let ?s2 = "?s1\<lparr>rs_producer := PIdle, rs_head_seen := ?k\<rparr>"
    have "ring_step ?s1 ?s2"
      by (rule ring_step.push_full [where e = e and ti = "last (rs_tail s)"]) (use True k in simp_all)
    moreover have "\<not> ok" "rb' = ring_view s"
      using assms(3) True by (simp_all add: rb_push_def ring_view_def)
    ultimately show ?thesis
      using s1 by (intro exI [of _ ?s2]) (auto simp: ring_view_def intro: rtranclp.intros)
  next
    case False
    let ?n = "(last (rs_tail s) + 1) mod RING_BUFFER_SIZE" and ?t = "last (rs_tail s)"
    let ?s2 = "?s1\<lparr>rs_producer := PChecked e ?t ?n, rs_head_seen := ?k\<rparr>"
    let ?s3 = "?s2\<lparr>rs_slots := (rs_slots ?s2)[?t := Some e], rs_producer := PWritten e ?n\<rparr>"
    let ?s4 = "?s3\<lparr>rs_tail := rs_tail ?s3 @ [?n], rs_producer := PIdle,
                   rs_pushed := rs_pushed ?s3 @ [e]\<rparr>"
    have t: "?t < length (rs_slots s)" using assms(1) k by (auto simp: ring_inv_unfold)
    have "ring_step ?s1 ?s2"
      by (rule ring_step.push_room [where e = e and ti = ?t]) (use False k in simp_all)
    moreover have "ring_step ?s2 ?s3"
      by (rule ring_step.push_write [where e = e and nt = ?n]) (use t in simp_all)
    moreover have "ring_step ?s3 ?s4"
      by (rule ring_step.push_store_tail) simp
    moreover have "ok" "rb' = ring_view ?s4"
      using assms(3) False t by (auto simp: rb_push_def ring_view_def Let_def)
    ultimately show ?thesis
      using s1 by (intro exI [of _ ?s4]) (auto intro: rtranclp.intros)
  qed
qed

lemma pop_is_run:
  assumes "ring_inv s" "rs_consumer s = CIdle" "rb_pop (ring_view s) = Inr (r, rb')"
  shows "\<exists>s'. ring_step\<^sup>*\<^sup>* s s' \<and> ring_view s' = rb' \<and> rs_consumer s' = CIdle \<and>
    rs_popped s' = rs_popped s @ (case r of None \<Rightarrow> [] | Some e \<Rightarrow> [e])"
proof -
  let ?k = "length (rs_pushed s)" and ?h = "last (rs_head s)"
  let ?s1 = "s\<lparr>rs_consumer := CLoaded ?h\<rparr>"
  have k: "rs_tail_seen s \<le> ?k" "?k < length (rs_tail s)" "rs_tail s ! ?k = last (rs_tail s)"
    using assms(1) by (auto simp: ring_inv_unfold)
  have s1: "ring_step s ?s1" using assms(2) by (rule ring_step.pop_load_head)
  show ?thesis
  proof (cases "?h = last (rs_tail s)")
    case True
    let ?s2 = "?s1\<lparr>rs_consumer := CIdle, rs_tail_seen := ?k\<rparr>"
    have "ring_step ?s1 ?s2"
      by (rule ring_step.pop_empty [where hi = ?h]) (use True k in simp_all)
    moreover have "r = None" "rb' = ring_view s"
      using assms(3) True by (simp_all add: rb_pop_def ring_view_def Let_def)
    ultimately show ?thesis
      using s1 by (intro exI [of _ ?s2]) (auto simp: ring_view_def intro: rtranclp.intros)
  next
    case False
    then obtain e where e: "?h < length (rs_slots s)" "rs_slots s ! ?h = Some e" "r = Some e"
      "rb' = (ring_view s)\<lparr>rb_head := (?h + 1) mod RING_BUFFER_SIZE\<rparr>"
      using assms(3) by (auto simp: rb_pop_def ring_view_def Let_def split: if_splits option.splits)
    let ?s2 = "?s1\<lparr>rs_consumer := CChecked ?h, rs_tail_seen := ?k\<rparr>"
    let ?s3 = "?s2\<lparr>rs_consumer := CRead ?h e\<rparr>"
    let ?s4 = "?s3\<lparr>rs_head := rs_head ?s3 @ [(?h + 1) mod RING_BUFFER_SIZE], rs_consumer := CIdle,
                   rs_popped := rs_popped ?s3 @ [e]\<rparr>"
    have "ring_step ?s1 ?s2"
      by (rule ring_step.pop_some [where hi = ?h]) (use False k in simp_all)
    moreover have "ring_step ?s2 ?s3"
      by (rule ring_step.pop_read [where hi = ?h]) (use e in simp_all)
    moreover have "ring_step ?s3 ?s4"
      by (rule ring_step.pop_store_head) simp
    moreover have "rb' = ring_view ?s4" using e by (simp add: ring_view_def)
    ultimately show ?thesis
      using s1 e(3) by (intro exI [of _ ?s4]) (auto intro: rtranclp.intros)
  qed
qed

section \<open>Properties\<close>

text \<open>
  C2.  Safety of the two threads: in every state they can reach, the events popped are the
  first events pushed, in order (nothing lost, repeated or invented); fewer than
  \<open>RING_BUFFER_SIZE\<close> events are in the buffer; and neither an index out of bounds nor a read of
  uninitialised memory has happened.
\<close>

theorem spsc_fifo:
  assumes "ring_reachable s"
  shows "\<exists>in_buffer. rs_pushed s = rs_popped s @ in_buffer \<and>
    length in_buffer \<le> RING_BUFFER_SIZE - 1 \<and> rs_fault s = None"
proof -
  have inv: "ring_inv s" by (rule ring_reachable_inv [OF assms])
  let ?rest = "drop (length (rs_popped s)) (rs_pushed s)"
  have popped: "rs_popped s = take (length (rs_popped s)) (rs_pushed s)"
    using inv unfolding ring_inv_def Let_def by blast
  have "rs_pushed s = rs_popped s @ ?rest"
    by (subst popped) simp
  moreover have "length ?rest \<le> RING_BUFFER_SIZE - 1" "rs_fault s = None"
    using inv by (auto simp: ring_inv_unfold)
  ultimately show ?thesis by blast
qed

text \<open>
  C3.  No data race on the slots, in any reachable state.  The slot the producer is about to write
  exists and is the one of the next push; every event that lay in it before has been popped, by a pop
  whose store of the head is among those the producer has read (an \<open>Acquire\<close> load of a
  \<open>Release\<close> store), so no event still in the buffer is overwritten.  The slot the consumer is about to
  read exists and holds the oldest event not yet popped, whatever the producer is doing; every push
  that has written it stored the tail before the consumer read it, and it is not the slot of the push
  in progress.
\<close>

theorem no_slot_race:
  assumes "ring_reachable s"
  shows "(\<forall>e ti nt. rs_producer s = PChecked e ti nt \<longrightarrow>
      ti < length (rs_slots s) \<and> ti = length (rs_pushed s) mod RING_BUFFER_SIZE \<and>
      (\<forall>j < length (rs_pushed s). j mod RING_BUFFER_SIZE = ti \<longrightarrow>
        j < rs_head_seen s \<and> j < length (rs_popped s))) \<and>
    (\<forall>hi. rs_consumer s = CChecked hi \<longrightarrow>
      hi < length (rs_slots s) \<and> length (rs_popped s) < length (rs_pushed s) \<and>
      rs_slots s ! hi = Some (rs_pushed s ! length (rs_popped s)) \<and>
      (\<forall>j < length (rs_pushed s). j mod RING_BUFFER_SIZE = hi \<longrightarrow> j < rs_tail_seen s) \<and>
      hi \<noteq> length (rs_pushed s) mod RING_BUFFER_SIZE)"
proof (intro conjI allI impI)
  let ?h = "length (rs_popped s)" and ?t = "length (rs_pushed s)"
  note inv = ring_reachable_inv [OF assms]
  fix e ti nt
  assume "rs_producer s = PChecked e ti nt"
  then have b: "ti = ?t mod RING_BUFFER_SIZE" "Suc ?t - rs_head_seen s < RING_BUFFER_SIZE"
    "rs_head_seen s \<le> ?h" "length (rs_slots s) = RING_BUFFER_SIZE"
    using inv by (auto simp: ring_inv_unfold)
  then show "ti < length (rs_slots s)" "ti = ?t mod RING_BUFFER_SIZE" by simp_all
  fix j
  assume j: "j < ?t" "j mod RING_BUFFER_SIZE = ti"
  then have "\<not> ?t < j + RING_BUFFER_SIZE" using b(1) mod_eq_imp_eq [of j RING_BUFFER_SIZE ?t] by auto
  then show "j < rs_head_seen s" using b(2) by linarith
  then show "j < ?h" using b(3) by simp
next
  let ?h = "length (rs_popped s)" and ?t = "length (rs_pushed s)"
  note inv = ring_reachable_inv [OF assms]
  fix hi
  assume "rs_consumer s = CChecked hi"
  then have b: "hi = ?h mod RING_BUFFER_SIZE" "?h < rs_tail_seen s" "rs_tail_seen s \<le> ?t"
    "?t < ?h + RING_BUFFER_SIZE" "length (rs_slots s) = RING_BUFFER_SIZE"
    "rs_slots s ! (?h mod RING_BUFFER_SIZE) = Some (rs_pushed s ! ?h)"
    using inv by (auto simp: ring_inv_unfold)
  then show "hi < length (rs_slots s)" "?h < ?t" "rs_slots s ! hi = Some (rs_pushed s ! ?h)" by simp_all
  have only: "j \<le> ?h" if "j \<le> ?t" "j mod RING_BUFFER_SIZE = hi" for j
    using that b(1,4) mod_eq_imp_eq [of ?h RING_BUFFER_SIZE j] by (cases "?h \<le> j") auto
  show "hi \<noteq> ?t mod RING_BUFFER_SIZE" using only [of ?t] b(2,3) by auto
  show "j < rs_tail_seen s" if "j < ?t" "j mod RING_BUFFER_SIZE = hi" for j
    using only [of j] that b(2) by simp
qed

section \<open>A sample run\<close>

text \<open>
  The producer pushes two events; the consumer starts its \<open>pop\<close> while the second push has
  checked for room but not written yet, and returns before that push has.
\<close>

definition sample_event :: "u32 \<Rightarrow> trace_event" where
  "sample_event i = \<lparr>ev_program_id = zero_pubkey, ev_syscall_id = i, ev_args_hash = ucast i,
     ev_timestamp_ns = 0, ev_slot = 1, ev_transaction_id = zero_tx_id, ev_depth = 0\<rparr>"

definition sample_ring ::
  "nat list \<Rightarrow> nat list \<Rightarrow> nat \<Rightarrow> producer_pc \<Rightarrow> consumer_pc \<Rightarrow> trace_event list \<Rightarrow>
   trace_event list \<Rightarrow> trace_event option \<Rightarrow> ring_sys" where
  "sample_ring head tail seen pp cp pushed popped slot0 =
     \<lparr>rs_slots = (replicate RING_BUFFER_SIZE None)[0 := slot0], rs_head = head, rs_tail = tail,
      rs_head_seen = 0, rs_tail_seen = seen, rs_producer = pp, rs_consumer = cp,
      rs_pushed = pushed, rs_popped = popped, rs_fault = None\<rparr>"

lemma sample_ring_reachable:
  fixes e f :: trace_event
  shows "ring_reachable (sample_ring [0] [0, 1] 1 (PChecked f 1 2) (CChecked 0) [e] [] (Some e))"
    and "ring_reachable (sample_ring [0, 1] [0, 1] 1 (PChecked f 1 2) CIdle [e] [e] (Some e))"
proof -
  let ?s0 = "sample_ring [0] [0] 0 PIdle CIdle [] [] None"
  let ?s1 = "sample_ring [0] [0] 0 (PLoaded e 0) CIdle [] [] None"
  let ?s2 = "sample_ring [0] [0] 0 (PChecked e 0 1) CIdle [] [] None"
  let ?s3 = "sample_ring [0] [0] 0 (PWritten e 1) CIdle [] [] (Some e)"
  let ?s4 = "sample_ring [0] [0, 1] 0 PIdle CIdle [e] [] (Some e)"
  let ?s5 = "sample_ring [0] [0, 1] 0 (PLoaded f 1) CIdle [e] [] (Some e)"
  let ?s6 = "sample_ring [0] [0, 1] 0 (PChecked f 1 2) CIdle [e] [] (Some e)"
  let ?s7 = "sample_ring [0] [0, 1] 0 (PChecked f 1 2) (CLoaded 0) [e] [] (Some e)"
  let ?s8 = "sample_ring [0] [0, 1] 1 (PChecked f 1 2) (CChecked 0) [e] [] (Some e)"
  let ?s9 = "sample_ring [0] [0, 1] 1 (PChecked f 1 2) (CRead 0 e) [e] [] (Some e)"
  let ?s10 = "sample_ring [0, 1] [0, 1] 1 (PChecked f 1 2) CIdle [e] [e] (Some e)"
  have size: "1 mod RING_BUFFER_SIZE = 1" "2 mod RING_BUFFER_SIZE = 2"
    "replicate RING_BUFFER_SIZE None ! 0 = (None :: trace_event option)"
    "RING_BUFFER_SIZE \<noteq> Suc 0"
    by (simp_all add: RING_BUFFER_SIZE_def)
  have none: "(replicate RING_BUFFER_SIZE None)[0 := None] = replicate RING_BUFFER_SIZE (None :: trace_event option)"
    by (metis list_update_id size(3))
  note ev = sample_ring_def none size numeral_2_eq_2 [symmetric]
  have R0: "ring_reachable ?s0"
    using ring_start by (simp add: ring_init_def ev)
  have "ring_step ?s0 ?s1"
    using push_load_tail [of ?s0 e] by (simp add: ev)
  moreover have "ring_step ?s1 ?s2"
    using push_room [of ?s1 e 0 0] by (simp add: ev)
  moreover have "ring_step ?s2 ?s3"
    using push_write [of ?s2 e 0 1] by (simp add: ev)
  moreover have "ring_step ?s3 ?s4"
    using push_store_tail [of ?s3 e 1] by (simp add: ev)
  moreover have "ring_step ?s4 ?s5"
    using push_load_tail [of ?s4 f] by (simp add: ev)
  moreover have "ring_step ?s5 ?s6"
    using push_room [of ?s5 f 1 0] by (simp add: ev)
  moreover have "ring_step ?s6 ?s7"
    using pop_load_head [of ?s6] by (simp add: ev)
  moreover have "ring_step ?s7 ?s8"
    using pop_some [of ?s7 0 1] by (simp add: ev)
  ultimately show R8: "ring_reachable ?s8" using R0 by (meson ring_move)
  have "ring_step ?s8 ?s9"
    using pop_read [of ?s8 0 e] by (simp add: ev)
  moreover have "ring_step ?s9 ?s10"
    using pop_store_head [of ?s9 0 e] by (simp add: ev)
  ultimately show "ring_reachable ?s10" using R8 by (meson ring_move)
qed

theorem spsc_fifo_witness:
  "\<exists>s rest. ring_reachable s \<and> rs_popped s = [sample_event 1] \<and>
     rs_pushed s = [sample_event 1] @ rest \<and> rs_fault s = None"
proof -
  let ?s = "sample_ring [0, 1] [0, 1] 1 (PChecked (sample_event 2) 1 2) CIdle [sample_event 1]
    [sample_event 1] (Some (sample_event 1))"
  show ?thesis
    using spsc_fifo [OF sample_ring_reachable(2) [of "sample_event 2" "sample_event 1"]]
      sample_ring_reachable(2) [of "sample_event 2" "sample_event 1"]
    by (intro exI [of _ ?s] exI [of _ "[]"]) (simp add: sample_ring_def)
qed

theorem no_slot_race_witness:
  "\<exists>s. ring_reachable s \<and> rs_producer s = PChecked (sample_event 2) 1 2 \<and> rs_consumer s = CChecked 0 \<and>
     1 < length (rs_slots s) \<and> rs_slots s ! 0 = Some (sample_event 1)"
proof -
  let ?s = "sample_ring [0] [0, 1] 1 (PChecked (sample_event 2) 1 2) (CChecked 0) [sample_event 1]
    [] (Some (sample_event 1))"
  note R = sample_ring_reachable(1) [of "sample_event 2" "sample_event 1"]
  have "1 < length (rs_slots ?s)" "rs_slots ?s ! 0 = Some (sample_event 1)"
    using no_slot_race [OF R] by (simp_all add: sample_ring_def)
  then show ?thesis
    using R by (intro exI [of _ ?s]) (simp add: sample_ring_def)
qed

end
