(* ===== verification/Registry.thy ===== *)
theory Registry
  imports Common
begin

text \<open>
  The syscall registry of the runtime, \<open>src/runtime/src/syscall_registry.rs\<close>: a hash map from
  syscall numbers to name, class and safety class, filled once by \<open>new\<close>.
\<close>

record syscall_info =
  si_name :: string
  si_class :: syscall_class
  si_safety :: safety_class

record syscall_registry =
  reg_entries :: "(syscall_id, syscall_info) fmap"

text \<open>The closure \<open>register\<close> of \<open>new\<close>, and the calls of it in source order.\<close>

definition register ::
  "(syscall_id, syscall_info) fmap \<Rightarrow> syscall_id \<times> string \<times> syscall_class \<times> safety_class \<Rightarrow>
   (syscall_id, syscall_info) fmap" where
  "register entries = (\<lambda>(sid, name, class, safety).
     fmupd sid \<lparr>si_name = name, si_class = class, si_safety = safety\<rparr> entries)"

definition registry_table :: "(syscall_id \<times> string \<times> syscall_class \<times> safety_class) list" where
  "registry_table =
    [(SOL_GET_CLOCK_SYSVAR, ''sol_get_clock_sysvar'', SysvarRead, ReadOnly),
     (SOL_GET_RENT_SYSVAR, ''sol_get_rent_sysvar'', SysvarRead, ReadOnly),
     (SOL_GET_EPOCH_SCHEDULE_SYSVAR, ''sol_get_epoch_schedule_sysvar'', SysvarRead, ReadOnly),
     (SOL_GET_FEES_SYSVAR, ''sol_get_fees_sysvar'', SysvarRead, ReadOnly),
     (SOL_GET_SLOT_HASHES_SYSVAR, ''sol_get_slot_hashes_sysvar'', SysvarRead, ReadOnly),
     (SOL_GET_STAKE_HISTORY_SYSVAR, ''sol_get_stake_history_sysvar'', SysvarRead, ReadOnly),
     (SOL_LOG, ''sol_log'', AccountRead, Idempotent),
     (SOL_LOG_64, ''sol_log_64'', AccountRead, Idempotent),
     (SOL_LOG_PUBKEY, ''sol_log_pubkey'', AccountRead, Idempotent),
     (SOL_LOG_COMPUTE_UNITS, ''sol_log_compute_units'', AccountRead, Idempotent),
     (SOL_SHA256, ''sol_sha256'', Crypto, Idempotent),
     (SOL_KECCAK256, ''sol_keccak256'', Crypto, Idempotent),
     (SOL_SECP256K1_RECOVER, ''sol_secp256k1_recover'', Crypto, Idempotent),
     (SOL_ED25519_VERIFY, ''sol_ed25519_verify'', Crypto, Idempotent),
     (SOL_INVOKE_SIGNED, ''sol_invoke_signed'', CPI, OrderSensitive),
     (SOL_SET_RETURN_DATA, ''sol_set_return_data'', StateChange, StateChanging),
     (SOL_GET_RETURN_DATA, ''sol_get_return_data'', AccountRead, ReadOnly),
     (SOL_ALLOC_FREE, ''sol_alloc_free'', AccountRead, Idempotent),
     (SOL_MEMCPY, ''sol_memcpy'', AccountRead, Idempotent),
     (SOL_MEMMOVE, ''sol_memmove'', AccountRead, Idempotent),
     (SOL_MEMSET, ''sol_memset'', AccountRead, Idempotent),
     (SOL_MEMCMP, ''sol_memcmp'', AccountRead, ReadOnly),
     (SOL_PANIC, ''sol_panic'', Abort, StateChanging),
     (SOL_ABORT, ''sol_abort'', Abort, StateChanging)]"

definition registry_new :: syscall_registry where
  "registry_new = \<lparr>reg_entries = foldl register fmempty registry_table\<rparr>"

definition registry_default :: syscall_registry where
  "registry_default = registry_new"

definition registry_get :: "syscall_registry \<Rightarrow> syscall_id \<Rightarrow> syscall_info option" where
  "registry_get reg sid = fmlookup (reg_entries reg) sid"

definition registry_get_class :: "syscall_registry \<Rightarrow> syscall_id \<Rightarrow> syscall_class" where
  "registry_get_class reg sid =
     (case fmlookup (reg_entries reg) sid of Some i \<Rightarrow> si_class i | None \<Rightarrow> Unknown)"

definition registry_get_safety :: "syscall_registry \<Rightarrow> syscall_id \<Rightarrow> safety_class" where
  "registry_get_safety reg sid =
     (case fmlookup (reg_entries reg) sid of Some i \<Rightarrow> si_safety i | None \<Rightarrow> StateChanging)"

definition registry_get_name :: "syscall_registry \<Rightarrow> syscall_id \<Rightarrow> string" where
  "registry_get_name reg sid =
     (case fmlookup (reg_entries reg) sid of Some i \<Rightarrow> si_name i | None \<Rightarrow> ''unknown'')"

definition registry_is_optimization_eligible :: "syscall_registry \<Rightarrow> syscall_id \<Rightarrow> bool" where
  "registry_is_optimization_eligible reg sid =
     (case registry_get_safety reg sid of ReadOnly \<Rightarrow> True | Idempotent \<Rightarrow> True | _ \<Rightarrow> False)"

text \<open>
  \<open>all_ids\<close> collects the keys in the map's iteration order, which is unspecified: this is the
  predicate of the lists it may return.
\<close>

definition registry_all_ids :: "syscall_registry \<Rightarrow> syscall_id list \<Rightarrow> bool" where
  "registry_all_ids reg ids \<longleftrightarrow> iter_order (reg_entries reg) ids"

section \<open>Looking up the filled registry\<close>

lemma foldl_register_lookup:
  "fmlookup (foldl register m ts) sid =
     (case map_of (rev ts) sid of
        None \<Rightarrow> fmlookup m sid
      | Some (name, class, safety) \<Rightarrow> Some \<lparr>si_name = name, si_class = class, si_safety = safety\<rparr>)"
proof (induction ts arbitrary: m)
  case Nil
  then show ?case by simp
next
  case (Cons t ts)
  then show ?case
    by (cases t) (auto simp: register_def map_add_def split: option.splits)
qed

lemma registry_lookup:
  "fmlookup (reg_entries registry_new) sid =
     map_option (\<lambda>(name, class, safety). \<lparr>si_name = name, si_class = class, si_safety = safety\<rparr>)
       (map_of registry_table sid)"
proof -
  have "map_of (rev registry_table) = map_of registry_table"
    by (rule map_of_rev_distinct) (simp add: registry_table_def syscall_ids)
  then show ?thesis
    by (simp add: registry_new_def foldl_register_lookup split: option.splits)
qed

lemma registry_safety_table:
  "registry_get_safety registry_new sid =
    (if sid \<in> {1, 2, 3, 4, 5, 6, 41, 54} then ReadOnly
     else if sid \<in> {10, 11, 12, 13, 20, 21, 22, 23, 50, 51, 52, 53} then Idempotent
     else if sid = 30 then OrderSensitive
     else StateChanging)"
  unfolding registry_get_safety_def registry_lookup registry_table_def syscall_ids
  by simp

end
