(* ===== verification/TraceEmitter.thy ===== *)
theory TraceEmitter
  imports Common
begin

text \<open>
  The trace emitter of the runtime, \<open>src/runtime/src/trace_emitter.rs\<close>.  It sends on a bounded
  channel of the crate \<open>crossbeam-channel\<close>, which is not part of the repository: the channel
  is a record of operations passed to every definition, and the locale \<open>trace_channel\<close> states
  the behaviour its documentation promises.  The receiving end shares the channel's state with
  the sending end, so a channel is one value.
\<close>

section \<open>The channel as a parameter\<close>

datatype try_send_result = SendOk | SendFull | SendDisconnected

record 'ch channel_ops =
  ch_bounded :: "nat \<Rightarrow> 'ch"
  ch_try_send :: "'ch \<Rightarrow> trace_event \<Rightarrow> 'ch \<times> try_send_result"
  ch_try_recv :: "'ch \<Rightarrow> 'ch \<times> trace_event option"
  ch_drop_receiver :: "'ch \<Rightarrow> 'ch"

section \<open>The emitter\<close>

definition CHANNEL_CAPACITY :: nat where
  "CHANNEL_CAPACITY = 65536"

record 'ch trace_emitter =
  te_sender :: 'ch
  te_dropped :: u64

definition emitter_new :: "'ch channel_ops \<Rightarrow> 'ch trace_emitter" where
  "emitter_new ops = \<lparr>te_sender = ch_bounded ops CHANNEL_CAPACITY, te_dropped = 0\<rparr>"

definition emitter_emit :: "'ch channel_ops \<Rightarrow> 'ch trace_emitter \<Rightarrow> trace_event \<Rightarrow> 'ch trace_emitter" where
  "emitter_emit ops em event =
     (case ch_try_send ops (te_sender em) event of
        (ch, SendOk) \<Rightarrow> em\<lparr>te_sender := ch\<rparr>
      | (ch, SendFull) \<Rightarrow> em\<lparr>te_sender := ch, te_dropped := te_dropped em + 1\<rparr>
      | (ch, SendDisconnected) \<Rightarrow> em\<lparr>te_sender := ch\<rparr>)"

definition emitter_dropped_count :: "'ch trace_emitter \<Rightarrow> u64" where
  "emitter_dropped_count em = te_dropped em"

text \<open>What \<open>{:?}\<close> prints of it.\<close>

definition emitter_debug :: "'ch trace_emitter \<Rightarrow> string" where
  "emitter_debug em = ''TraceEmitter { dropped: '' @ dec_string (unat (emitter_dropped_count em)) @ '' }''"

section \<open>What the channel promises\<close>

text \<open>
  \<open>queue\<close> are the messages in the channel, oldest first; \<open>connected\<close> says that the receiver
  has not been dropped.  \<open>try_send\<close> reports a dropped receiver before it looks for room.
\<close>

locale trace_channel =
  fixes ops :: "'ch channel_ops"
    and queue :: "'ch \<Rightarrow> trace_event list"
    and cap :: "'ch \<Rightarrow> nat"
    and connected :: "'ch \<Rightarrow> bool"
  assumes bounded_new: "0 < n \<Longrightarrow> queue (ch_bounded ops n) = [] \<and> cap (ch_bounded ops n) = n \<and>
            connected (ch_bounded ops n)"
    and try_send_disconnected: "\<not> connected c \<Longrightarrow> ch_try_send ops c e = (c', r) \<Longrightarrow>
            r = SendDisconnected \<and> queue c' = queue c \<and> cap c' = cap c \<and> \<not> connected c'"
    and try_send_full: "connected c \<Longrightarrow> cap c \<le> length (queue c) \<Longrightarrow>
            ch_try_send ops c e = (c', r) \<Longrightarrow>
            r = SendFull \<and> queue c' = queue c \<and> cap c' = cap c \<and> connected c'"
    and try_send_room: "connected c \<Longrightarrow> length (queue c) < cap c \<Longrightarrow>
            ch_try_send ops c e = (c', r) \<Longrightarrow>
            r = SendOk \<and> queue c' = queue c @ [e] \<and> cap c' = cap c \<and> connected c'"
    and try_recv_law: "ch_try_recv ops c = (c', msg) \<Longrightarrow>
            msg = (case queue c of [] \<Rightarrow> None | x # _ \<Rightarrow> Some x) \<and> queue c' = tl (queue c) \<and>
            cap c' = cap c \<and> connected c' = connected c"
    and drop_receiver_law: "queue (ch_drop_receiver ops c) = [] \<and>
            cap (ch_drop_receiver ops c) = cap c \<and> \<not> connected (ch_drop_receiver ops c)"
begin

lemma emit_connected:
  assumes "connected (te_sender em)"
  shows "queue (te_sender (emitter_emit ops em e)) =
           (if length (queue (te_sender em)) < cap (te_sender em)
            then queue (te_sender em) @ [e] else queue (te_sender em))"
    and "te_dropped (emitter_emit ops em e) =
           (if length (queue (te_sender em)) < cap (te_sender em)
            then te_dropped em else te_dropped em + 1)"
    and "cap (te_sender (emitter_emit ops em e)) = cap (te_sender em)"
    and "connected (te_sender (emitter_emit ops em e))"
proof -
  obtain c r where cr: "ch_try_send ops (te_sender em) e = (c, r)" by force
  note room = try_send_room [OF assms _ cr] and full = try_send_full [OF assms _ cr]
  show "queue (te_sender (emitter_emit ops em e)) =
      (if length (queue (te_sender em)) < cap (te_sender em)
       then queue (te_sender em) @ [e] else queue (te_sender em))"
    "te_dropped (emitter_emit ops em e) =
      (if length (queue (te_sender em)) < cap (te_sender em)
       then te_dropped em else te_dropped em + 1)"
    "cap (te_sender (emitter_emit ops em e)) = cap (te_sender em)"
    "connected (te_sender (emitter_emit ops em e))"
    using room full cr by (cases "length (queue (te_sender em)) < cap (te_sender em)";
        force simp: emitter_emit_def)+
qed

lemma emit_disconnected:
  assumes "\<not> connected (te_sender em)"
  shows "queue (te_sender (emitter_emit ops em e)) = queue (te_sender em)"
    and "te_dropped (emitter_emit ops em e) = te_dropped em"
    and "\<not> connected (te_sender (emitter_emit ops em e))"
proof -
  obtain c r where cr: "ch_try_send ops (te_sender em) e = (c, r)" by force
  then show "queue (te_sender (emitter_emit ops em e)) = queue (te_sender em)"
    "te_dropped (emitter_emit ops em e) = te_dropped em"
    "\<not> connected (te_sender (emitter_emit ops em e))"
    using try_send_disconnected [OF assms cr] by (simp_all add: emitter_emit_def)
qed

lemma new_channel:
  "queue (te_sender (emitter_new ops)) = []"
  "cap (te_sender (emitter_new ops)) = CHANNEL_CAPACITY"
  "connected (te_sender (emitter_new ops))"
  "te_dropped (emitter_new ops) = 0"
  using bounded_new [of CHANNEL_CAPACITY] by (simp_all add: emitter_new_def CHANNEL_CAPACITY_def)

end

section \<open>A channel that keeps the promises\<close>

text \<open>
  The bounded queue the documentation describes: the reference channel on which the
  witnesses run.
\<close>

record ref_channel =
  rc_queue :: "trace_event list"
  rc_cap :: nat
  rc_connected :: bool

definition ref_try_send :: "ref_channel \<Rightarrow> trace_event \<Rightarrow> ref_channel \<times> try_send_result" where
  "ref_try_send c e =
     (if \<not> rc_connected c then (c, SendDisconnected)
      else if rc_cap c \<le> length (rc_queue c) then (c, SendFull)
      else (c\<lparr>rc_queue := rc_queue c @ [e]\<rparr>, SendOk))"

definition ref_try_recv :: "ref_channel \<Rightarrow> ref_channel \<times> trace_event option" where
  "ref_try_recv c =
     (case rc_queue c of [] \<Rightarrow> (c, None) | x # xs \<Rightarrow> (c\<lparr>rc_queue := xs\<rparr>, Some x))"

definition ref_channel_ops :: "ref_channel channel_ops" where
  "ref_channel_ops = \<lparr>
     ch_bounded = (\<lambda>n. \<lparr>rc_queue = [], rc_cap = n, rc_connected = True\<rparr>),
     ch_try_send = ref_try_send,
     ch_try_recv = ref_try_recv,
     ch_drop_receiver = (\<lambda>c. c\<lparr>rc_queue := [], rc_connected := False\<rparr>)\<rparr>"

interpretation ref_chan: trace_channel ref_channel_ops rc_queue rc_cap rc_connected
  by unfold_locales
    (auto simp: ref_channel_ops_def ref_try_send_def ref_try_recv_def split: if_splits list.splits)

end
