(* ===== verification/Handler.thy ===== *)
theory Handler
  imports Registry TraceEmitter "HOL-Library.Sublist"
begin

text \<open>
  The syscall handler of the runtime, \<open>src/runtime/src/syscall_handler.rs\<close>.  The system clock
  is an argument: \<open>Some n\<close> when it is \<open>n\<close> nanoseconds after the epoch, \<open>None\<close> when it is
  before the epoch.  The slot counter is shared (\<open>Arc<AtomicU64>\<close>); its value is a field.  This
  theory runs \<open>handle\<close> to its end; \<open>HandlerConcurrent\<close> interleaves several calls.
\<close>

section \<open>The handler\<close>

record 'ch syscall_handler =
  sh_registry :: syscall_registry
  sh_emitter :: "'ch trace_emitter"
  sh_current_slot :: u64
  sh_call_counts :: "(syscall_id, u64) fmap"
  sh_total_calls :: u64

definition handler_new :: "'ch trace_emitter \<Rightarrow> u64 \<Rightarrow> 'ch syscall_handler" where
  "handler_new emitter slot = \<lparr>sh_registry = registry_new, sh_emitter = emitter,
     sh_current_slot = slot, sh_call_counts = fmempty, sh_total_calls = 0\<rparr>"

definition handle_event ::
  "nat option \<Rightarrow> u64 \<Rightarrow> pubkey \<Rightarrow> syscall_id \<Rightarrow> bytes \<Rightarrow> transaction_id \<Rightarrow> u8 \<Rightarrow> trace_event" where
  "handle_event clock slot program_id sid args tx_id depth =
     \<lparr>ev_program_id = program_id, ev_syscall_id = sid, ev_args_hash = fnv_hash args,
      ev_timestamp_ns = clock_ns clock, ev_slot = slot, ev_transaction_id = tx_id,
      ev_depth = depth\<rparr>"

definition handle ::
  "'ch channel_ops \<Rightarrow> profile \<Rightarrow> nat option \<Rightarrow> 'ch syscall_handler \<Rightarrow>
   pubkey \<Rightarrow> syscall_id \<Rightarrow> bytes \<Rightarrow> transaction_id \<Rightarrow> u8 \<Rightarrow> (bool \<times> 'ch syscall_handler) res" where
  "handle ops p clock h program_id sid args tx_id depth =
     (let event = handle_event clock (sh_current_slot h) program_id sid args tx_id depth;
          h1 = h\<lparr>sh_emitter := emitter_emit ops (sh_emitter h) event\<rparr>;
          h2 = h1\<lparr>sh_total_calls := sh_total_calls h1 + 1\<rparr>
      in res_bind (bump_entry p sid (sh_call_counts h2)) (\<lambda>counts.
           let h3 = h2\<lparr>sh_call_counts := counts\<rparr>;
               eligible = registry_is_optimization_eligible (sh_registry h3) sid
           in Inr (eligible, h3)))"

definition handler_stats :: "'ch syscall_handler \<Rightarrow> (syscall_id, u64) fmap" where
  "handler_stats h = sh_call_counts h"

definition handler_total_calls :: "'ch syscall_handler \<Rightarrow> u64" where
  "handler_total_calls h = sh_total_calls h"

definition handler_registry :: "'ch syscall_handler \<Rightarrow> syscall_registry" where
  "handler_registry h = sh_registry h"

definition handler_advance_slot :: "'ch syscall_handler \<Rightarrow> 'ch syscall_handler" where
  "handler_advance_slot h = h\<lparr>sh_current_slot := sh_current_slot h + 1\<rparr>"

section \<open>Runs\<close>

text \<open>
  What happens to a handler in use: calls of \<open>handle\<close>, a receive at the other end of the
  channel, an advance of the slot.  A run collects the events handed to the emitter, the events
  received and the answers of \<open>handle\<close>.
\<close>

datatype handler_op =
    Call "nat option" pubkey syscall_id bytes transaction_id u8
  | Receive
  | AdvanceSlot

record 'ch run_state =
  run_handler :: "'ch syscall_handler"
  run_events :: "trace_event list"
  run_received :: "trace_event list"
  run_answers :: "bool list"

definition run_start :: "'ch channel_ops \<Rightarrow> u64 \<Rightarrow> 'ch run_state" where
  "run_start ops slot = \<lparr>run_handler = handler_new (emitter_new ops) slot, run_events = [],
     run_received = [], run_answers = []\<rparr>"

fun run_op :: "'ch channel_ops \<Rightarrow> profile \<Rightarrow> handler_op \<Rightarrow> 'ch run_state \<Rightarrow> 'ch run_state res" where
  "run_op ops p (Call clock pid sid args tx depth) s =
     res_bind (handle ops p clock (run_handler s) pid sid args tx depth) (\<lambda>(b, h).
       Inr (s\<lparr>run_handler := h,
              run_events := run_events s @
                [handle_event clock (sh_current_slot (run_handler s)) pid sid args tx depth],
              run_answers := run_answers s @ [b]\<rparr>))"
| "run_op ops p Receive s =
     (let em = sh_emitter (run_handler s);
          (c, r) = ch_try_recv ops (te_sender em)
      in Inr (s\<lparr>run_handler := (run_handler s)\<lparr>sh_emitter := em\<lparr>te_sender := c\<rparr>\<rparr>,
                run_received := run_received s @ (case r of None \<Rightarrow> [] | Some e \<Rightarrow> [e])\<rparr>))"
| "run_op ops p AdvanceSlot s = Inr (s\<lparr>run_handler := handler_advance_slot (run_handler s)\<rparr>)"

fun run_ops :: "'ch channel_ops \<Rightarrow> profile \<Rightarrow> handler_op list \<Rightarrow> 'ch run_state \<Rightarrow> 'ch run_state res" where
  "run_ops ops p [] s = Inr s"
| "run_ops ops p (a # as) s = res_bind (run_op ops p a s) (run_ops ops p as)"

definition run_syscalls :: "'ch run_state \<Rightarrow> syscall_id list" where
  "run_syscalls s = map ev_syscall_id (run_events s)"

fun op_syscalls :: "handler_op \<Rightarrow> syscall_id list" where
  "op_syscalls (Call clock pid sid args tx depth) = [sid]"
| "op_syscalls Receive = []"
| "op_syscalls AdvanceSlot = []"

definition ops_syscalls :: "handler_op list \<Rightarrow> syscall_id list" where
  "ops_syscalls as = concat (map op_syscalls as)"

lemma length_ops_syscalls: "length (ops_syscalls as) \<le> length as"
proof (induction as)
  case (Cons a as)
  then show ?case by (cases a) (simp_all add: ops_syscalls_def)
qed (simp add: ops_syscalls_def)

section \<open>The invariant of a run\<close>

lemma handle_Inr:
  assumes "handle ops p clock h pid sid args tx depth = Inr (b, h')"
  obtains counts where
    "bump_entry p sid (sh_call_counts h) = Inr counts"
    "h' = h\<lparr>sh_emitter := emitter_emit ops (sh_emitter h)
               (handle_event clock (sh_current_slot h) pid sid args tx depth),
            sh_total_calls := sh_total_calls h + 1, sh_call_counts := counts\<rparr>"
    "b = registry_is_optimization_eligible (sh_registry h) sid"
  using assms by (auto simp: handle_def Let_def res_bind_Inr_iff)

context trace_channel
begin

text \<open>
  The receiver is alive in these runs: every event is received, waits in the channel, or was
  dropped because the channel was full, and the events that passed keep their order.
\<close>

definition run_inv :: "'ch run_state \<Rightarrow> bool" where
  "run_inv s \<longleftrightarrow>
     (let h = run_handler s; c = te_sender (sh_emitter h); n = length (run_events s) in
      sh_registry h = registry_new \<and> connected c \<and> cap c = CHANNEL_CAPACITY \<and>
      length (queue c) \<le> CHANNEL_CAPACITY \<and>
      subseq (run_received s @ queue c) (run_events s) \<and>
      (n \<le> CHANNEL_CAPACITY \<longrightarrow> run_received s @ queue c = run_events s) \<and>
      te_dropped (sh_emitter h) = of_nat (n - length (run_received s @ queue c)) \<and>
      sh_total_calls h = of_nat n \<and>
      counts_match (sh_call_counts h) (run_syscalls s) \<and>
      run_answers s = map (registry_is_optimization_eligible registry_new) (run_syscalls s))"

lemma run_inv_start: "run_inv (run_start ops slot)"
  using new_channel
  by (simp add: run_inv_def run_start_def handler_new_def run_syscalls_def counts_match_def)

lemma run_inv_call:
  assumes "run_inv s" "run_op ops p (Call clock pid sid args tx depth) s = Inr s'"
  shows "run_inv s'"
proof -
  let ?h = "run_handler s" and ?e = "handle_event clock (sh_current_slot (run_handler s)) pid sid args tx depth"
  let ?q = "queue (te_sender (sh_emitter ?h))"
  have sid: "ev_syscall_id ?e = sid" by (simp add: handle_event_def)
  obtain b h' where h': "handle ops p clock ?h pid sid args tx depth = Inr (b, h')"
    and s': "s' = s\<lparr>run_handler := h', run_events := run_events s @ [?e],
                    run_answers := run_answers s @ [b]\<rparr>"
    using assms(2) by (auto simp: res_bind_Inr_iff)
  obtain counts where counts: "bump_entry p sid (sh_call_counts ?h) = Inr counts"
    "h' = ?h\<lparr>sh_emitter := emitter_emit ops (sh_emitter ?h) ?e,
            sh_total_calls := sh_total_calls ?h + 1, sh_call_counts := counts\<rparr>"
    "b = registry_is_optimization_eligible (sh_registry ?h) sid"
    using handle_Inr [OF h'] by metis
  have inv: "sh_registry ?h = registry_new" "connected (te_sender (sh_emitter ?h))"
    "cap (te_sender (sh_emitter ?h)) = CHANNEL_CAPACITY"
    "length ?q \<le> CHANNEL_CAPACITY" "subseq (run_received s @ ?q) (run_events s)"
    "te_dropped (sh_emitter ?h) = of_nat (length (run_events s) - length (run_received s @ ?q))"
    "sh_total_calls ?h = of_nat (length (run_events s))"
    "length (run_events s) \<le> CHANNEL_CAPACITY \<Longrightarrow> run_received s @ ?q = run_events s"
    "counts_match (sh_call_counts ?h) (run_syscalls s)"
    "run_answers s = map (registry_is_optimization_eligible registry_new) (run_syscalls s)"
    using assms(1) by (simp_all add: run_inv_def Let_def)
  have le: "length (run_received s) + length ?q \<le> length (run_events s)"
    using list_emb_length [OF inv(5)] by simp
  have sub: "subseq (run_received s @ ?q @ [?e]) (run_events s @ [?e])"
    using list_emb_append_mono [OF inv(5), of "[?e]" "[?e]"] by simp
  have sub': "subseq (run_received s @ ?q) (run_events s @ [?e])"
    using list_emb_append_mono [OF inv(5), of "[]" "[?e]"] by simp
  show ?thesis
    unfolding run_inv_def Let_def s' counts(2)
    using inv sub sub' le emit_connected [OF inv(2), of ?e] counts_match_bump [OF inv(9) counts(1)]
    by (auto simp: run_syscalls_def sid counts(3) Suc_diff_le of_nat_diff)
qed

lemma run_inv_receive:
  assumes "run_inv s" "run_op ops p Receive s = Inr s'"
  shows "run_inv s'"
proof -
  let ?c = "te_sender (sh_emitter (run_handler s))"
  obtain c msg where recv: "ch_try_recv ops ?c = (c, msg)" by force
  have law: "msg = (case queue ?c of [] \<Rightarrow> None | x # _ \<Rightarrow> Some x)" "queue c = tl (queue ?c)"
    "cap c = cap ?c" "connected c = connected ?c"
    using try_recv_law [OF recv] by auto
  have "(run_received s @ (case msg of None \<Rightarrow> [] | Some e \<Rightarrow> [e])) @ queue c
      = run_received s @ queue ?c"
    using law by (cases "queue ?c") auto
  moreover have "length (queue c) \<le> length (queue ?c)" using law by simp
  ultimately show ?thesis
    using assms recv law
    by (auto simp: run_inv_def Let_def run_syscalls_def simp del: length_append)
qed

lemma run_inv_advance:
  assumes "run_inv s" "run_op ops p AdvanceSlot s = Inr s'"
  shows "run_inv s'"
  using assms by (auto simp: run_inv_def Let_def run_syscalls_def handler_advance_slot_def)

lemma run_op_inv: "run_op ops p a s = Inr s' \<Longrightarrow> run_inv s \<Longrightarrow> run_inv s'"
  by (cases a) (blast intro: run_inv_call run_inv_receive run_inv_advance)+

lemma run_ops_inv: "run_inv s \<Longrightarrow> run_ops ops p as s = Inr s' \<Longrightarrow> run_inv s'"
  by (induction as arbitrary: s) (auto simp: res_bind_Inr_iff dest: run_op_inv)

lemma run_op_progress:
  assumes "run_inv s" "length (run_events s) + length (op_syscalls a) < 2 ^ 64"
  shows "\<exists>s'. run_op ops p a s = Inr s' \<and>
           length (run_events s') = length (run_events s) + length (op_syscalls a)"
proof (cases a)
  case (Call clock pid sid args tx depth)
  have "\<exists>m'. bump_entry p sid (sh_call_counts (run_handler s)) = Inr m'"
    using assms Call by (intro bump_entry_fits [where ids = "run_syscalls s"])
      (auto simp: run_inv_def Let_def run_syscalls_def)
  then show ?thesis using Call by (auto simp: handle_def Let_def)
qed (auto simp: Let_def split: prod.splits)

lemma run_ops_progress:
  "run_inv s \<Longrightarrow> length (run_events s) + length (ops_syscalls as) < 2 ^ 64 \<Longrightarrow>
   \<exists>s'. run_ops ops p as s = Inr s'"
proof (induction as arbitrary: s)
  case Nil
  then show ?case by simp
next
  case (Cons a as)
  obtain s1 where s1: "run_op ops p a s = Inr s1"
      "length (run_events s1) = length (run_events s) + length (op_syscalls a)"
    using run_op_progress [OF Cons.prems(1), of a p] Cons.prems(2) by (auto simp: ops_syscalls_def)
  then have "run_inv s1" using run_op_inv Cons.prems(1) by blast
  then obtain s' where "run_ops ops p as s1 = Inr s'"
    using Cons.IH [of s1] s1(2) Cons.prems(2) by (auto simp: ops_syscalls_def)
  with s1(1) show ?case by simp
qed

end


section \<open>Properties of runs\<close>

lemma run_op_syscalls:
  "run_op ops p a s = Inr s' \<Longrightarrow> run_syscalls s' = run_syscalls s @ op_syscalls a"
  by (cases a) (auto simp: run_syscalls_def res_bind_Inr_iff handle_event_def Let_def split: prod.splits)

lemma run_ops_syscalls:
  "run_ops ops p as s = Inr s' \<Longrightarrow> run_syscalls s' = run_syscalls s @ ops_syscalls as"
  by (induction as arbitrary: s)
    (auto simp: res_bind_Inr_iff ops_syscalls_def dest!: run_op_syscalls)

lemma run_start_syscalls [simp]: "run_syscalls (run_start ops slot) = []"
  by (simp add: run_syscalls_def run_start_def)

lemma handler_accounting:
  assumes "trace_channel ops queue cap connected"
    and "run_ops ops p as (run_start ops slot) = Inr s"
  shows "handler_total_calls (run_handler s) = of_nat (length (ops_syscalls as)) \<and>
    (\<forall>sid. fmlookup (handler_stats (run_handler s)) sid =
       (if sid \<in> set (ops_syscalls as) then Some (of_nat (count_list (ops_syscalls as) sid)) else None)) \<and>
    run_answers s = map (registry_is_optimization_eligible registry_new) (ops_syscalls as)"
proof -
  have inv: "trace_channel.run_inv queue cap connected s"
    by (rule trace_channel.run_ops_inv [OF assms(1) trace_channel.run_inv_start [OF assms(1)] assms(2)])
  have ids: "run_syscalls s = ops_syscalls as"
    using run_ops_syscalls [OF assms(2)] by simp
  then have "length (run_events s) = length (ops_syscalls as)"
    by (metis length_map run_syscalls_def)
  then show ?thesis
    using inv ids by (simp add: trace_channel.run_inv_def [OF assms(1)] Let_def counts_match_def
        handler_stats_def handler_total_calls_def)
qed

lemma handler_trace:
  assumes "trace_channel ops queue cap connected"
    and "run_ops ops p as (run_start ops slot) = Inr s"
  shows "let em = sh_emitter (run_handler s); seen = run_received s @ queue (te_sender em) in
    subseq seen (run_events s) \<and>
    emitter_dropped_count em = of_nat (length (run_events s) - length seen) \<and>
    length (queue (te_sender em)) \<le> CHANNEL_CAPACITY \<and>
    (length (ops_syscalls as) \<le> CHANNEL_CAPACITY \<longrightarrow> seen = run_events s) \<and>
    map ev_syscall_id (run_events s) = ops_syscalls as"
proof -
  have inv: "trace_channel.run_inv queue cap connected s"
    by (rule trace_channel.run_ops_inv [OF assms(1) trace_channel.run_inv_start [OF assms(1)] assms(2)])
  have ids: "map ev_syscall_id (run_events s) = ops_syscalls as"
    using run_ops_syscalls [OF assms(2)] by (simp add: run_syscalls_def run_start_def)
  then have "length (run_events s) = length (ops_syscalls as)"
    by (metis length_map)
  then show ?thesis
    using inv ids by (simp add: trace_channel.run_inv_def [OF assms(1)] Let_def emitter_dropped_count_def)
qed

text \<open>
  C4.  The handler: any sequence of fewer than \<open>2^64\<close> calls, receives and slot advances on a new
  handler runs without a panic, in a debug build as well as in a release build.  Afterwards
  \<open>total_calls\<close> is the number of calls, \<open>stats\<close> maps exactly the syscalls called to how often each was
  called, and each call answered whether the registry of the runtime declares its syscall eligible.
  The events received together with those still in the channel are a subsequence of the events of
  the calls, in call order; the dropped counter is the number of the others; at most 65536 events
  wait; and as long as no more than 65536 calls were made nothing is lost.
\<close>

theorem handler_correct:
  assumes "trace_channel ops queue cap connected" and "length as < 2 ^ 64"
  shows "\<exists>s. run_ops ops p as (run_start ops slot) = Inr s \<and>
    unat (handler_total_calls (run_handler s)) = length (ops_syscalls as) \<and>
    (\<forall>sid. map_option unat (fmlookup (handler_stats (run_handler s)) sid) =
       (if sid \<in> set (ops_syscalls as) then Some (count_list (ops_syscalls as) sid) else None)) \<and>
    run_answers s = map (registry_is_optimization_eligible registry_new) (ops_syscalls as) \<and>
    map ev_syscall_id (run_events s) = ops_syscalls as \<and>
    (let em = sh_emitter (run_handler s); seen = run_received s @ queue (te_sender em) in
      subseq seen (run_events s) \<and>
      unat (emitter_dropped_count em) = length (run_events s) - length seen \<and>
      length (queue (te_sender em)) \<le> CHANNEL_CAPACITY \<and>
      (length (ops_syscalls as) \<le> CHANNEL_CAPACITY \<longrightarrow> seen = run_events s))"
proof -
  have few: "length (ops_syscalls as) < 2 ^ 64" by (rule le_less_trans [OF length_ops_syscalls assms(2)])
  obtain s where s: "run_ops ops p as (run_start ops slot) = Inr s"
    using trace_channel.run_ops_progress [OF assms(1) trace_channel.run_inv_start [OF assms(1)], of slot as p] few
    by (auto simp: run_start_def)
  note trace = handler_trace [OF assms(1) s, unfolded Let_def]
  then have "length (run_events s) = length (ops_syscalls as)" by (metis length_map)
  moreover have "count_list (ops_syscalls as) sid < 2 ^ 64" for sid
    by (rule le_less_trans [OF count_le_length few])
  ultimately show ?thesis
    using s few handler_accounting [OF assms(1) s] trace
    by (intro exI [of _ s]) (simp add: unat_of_nat_u64 Let_def del: of_nat_diff)
qed

definition sample_ops :: "handler_op list" where
  "sample_ops = [Call (Some 7) zero_pubkey SOL_SHA256 [1, 2] zero_tx_id 0, Receive, AdvanceSlot,
     Call None zero_pubkey SOL_SHA256 [3] zero_tx_id 1, Call (Some 9) zero_pubkey SOL_PANIC [] zero_tx_id 0]"

theorem handler_correct_witness:
  "\<exists>s. run_ops ref_channel_ops Debug sample_ops (run_start ref_channel_ops 42) = Inr s \<and>
     unat (handler_total_calls (run_handler s)) = 3 \<and>
     map_option unat (fmlookup (handler_stats (run_handler s)) SOL_SHA256) = Some 2 \<and>
     fmlookup (handler_stats (run_handler s)) SOL_LOG = None \<and>
     run_answers s = [True, True, False] \<and>
     run_received s @ rc_queue (te_sender (sh_emitter (run_handler s))) = run_events s \<and>
     map ev_syscall_id (run_events s) = [SOL_SHA256, SOL_SHA256, SOL_PANIC]"
proof -
  have ids: "ops_syscalls sample_ops = [SOL_SHA256, SOL_SHA256, SOL_PANIC]" "length sample_ops < 2 ^ 64"
    by (simp_all add: sample_ops_def ops_syscalls_def)
  obtain s where s: "run_ops ref_channel_ops Debug sample_ops (run_start ref_channel_ops 42) = Inr s"
    "unat (handler_total_calls (run_handler s)) = 3"
    "\<forall>sid. map_option unat (fmlookup (handler_stats (run_handler s)) sid) =
       (if sid \<in> {SOL_SHA256, SOL_PANIC} then Some (count_list [SOL_SHA256, SOL_SHA256, SOL_PANIC] sid) else None)"
    "run_answers s = map (registry_is_optimization_eligible registry_new) [SOL_SHA256, SOL_SHA256, SOL_PANIC]"
    "run_received s @ rc_queue (te_sender (sh_emitter (run_handler s))) = run_events s"
    "map ev_syscall_id (run_events s) = [SOL_SHA256, SOL_SHA256, SOL_PANIC]"
    using handler_correct [OF ref_chan.trace_channel_axioms ids(2), of Debug 42] unfolding ids(1)
    by (auto simp: CHANNEL_CAPACITY_def Let_def)
  have "map_option unat (fmlookup (handler_stats (run_handler s)) SOL_SHA256) = Some 2"
    "map_option unat (fmlookup (handler_stats (run_handler s)) SOL_LOG) = None"
    unfolding s(3) [rule_format] by (simp_all add: syscall_ids)
  with s(1,2,4-6) show ?thesis
    by (intro exI [of _ s]) (simp add: syscall_ids registry_is_optimization_eligible_def registry_safety_table)
qed

end
