(* ===== verification/HandlerConcurrent.thy ===== *)
theory HandlerConcurrent
  imports Handler
begin

text \<open>
  \<open>SyscallHandler::handle\<close> (\<open>src/runtime/src/syscall_handler.rs\<close>, with \<open>TraceEmitter::emit\<close>)
  takes \<open>&self\<close>, so several threads may be inside it at once.  A step of \<open>handler_step\<close> is one
  atomic access of one thread: the load of the slot, \<open>try_send\<close>, the increment of the dropped
  counter, the increment of \<open>total_calls\<close>, and the critical section of the mutex around the
  call counts.  A thread that panics inside the critical section poisons the mutex, and every
  later \<open>lock().unwrap()\<close> panics.  The receiver of the channel and a thread that advances the
  slot run beside them.

  Fields after \<open>hc_threads\<close> are ghosts: the events handed to \<open>try_send\<close> in order, the events
  received, the syscalls counted in order, and how often \<open>total_calls\<close> was incremented,
  \<open>try_send\<close> answered Full, and the dropped counter was incremented.
\<close>

datatype handle_pc =
    HIdle
  | HLoaded trace_event    \<comment> \<open>event built, about to \<open>try_send\<close>\<close>
  | HFull syscall_id       \<comment> \<open>channel was full: about to count the drop\<close>
  | HEmitted syscall_id    \<comment> \<open>about to increment \<open>total_calls\<close>\<close>
  | HAdded syscall_id      \<comment> \<open>about to lock and bump the call count\<close>
  | HPanicked syscall_id   \<comment> \<open>unwound from the critical section or the poisoned lock\<close>

record 'ch handler_sys =
  hc_handler :: "'ch syscall_handler"
  hc_poisoned :: bool
  hc_threads :: "handle_pc list"
  hc_sent :: "trace_event list"
  hc_received :: "trace_event list"
  hc_counted :: "syscall_id list"
  hc_adds :: nat
  hc_fulls :: nat
  hc_drops :: nat

definition handler_sys_init :: "'ch channel_ops \<Rightarrow> u64 \<Rightarrow> nat \<Rightarrow> 'ch handler_sys" where
  "handler_sys_init ops slot n = \<lparr>hc_handler = handler_new (emitter_new ops) slot,
     hc_poisoned = False, hc_threads = replicate n HIdle, hc_sent = [], hc_received = [],
     hc_counted = [], hc_adds = 0, hc_fulls = 0, hc_drops = 0\<rparr>"

definition set_pc :: "nat \<Rightarrow> handle_pc \<Rightarrow> 'ch handler_sys \<Rightarrow> 'ch handler_sys" where
  "set_pc i pc s = s\<lparr>hc_threads := (hc_threads s)[i := pc]\<rparr>"

definition set_sender :: "'ch \<Rightarrow> 'ch syscall_handler \<Rightarrow> 'ch syscall_handler" where
  "set_sender c h = h\<lparr>sh_emitter := (sh_emitter h)\<lparr>te_sender := c\<rparr>\<rparr>"

inductive handler_step :: "'ch channel_ops \<Rightarrow> profile \<Rightarrow> 'ch handler_sys \<Rightarrow> 'ch handler_sys \<Rightarrow> bool"
  for ops p where
  load_slot:
    "i < length (hc_threads s) \<Longrightarrow> hc_threads s ! i = HIdle \<Longrightarrow>
     handler_step ops p s (set_pc i
       (HLoaded (handle_event clock (sh_current_slot (hc_handler s)) pid sid args tx depth)) s)"
| send:
    "i < length (hc_threads s) \<Longrightarrow> hc_threads s ! i = HLoaded e \<Longrightarrow>
     ch_try_send ops (te_sender (sh_emitter (hc_handler s))) e = (c, r) \<Longrightarrow> r \<noteq> SendFull \<Longrightarrow>
     handler_step ops p s (set_pc i (HEmitted (ev_syscall_id e))
       (s\<lparr>hc_handler := set_sender c (hc_handler s), hc_sent := hc_sent s @ [e]\<rparr>))"
| send_full:
    "i < length (hc_threads s) \<Longrightarrow> hc_threads s ! i = HLoaded e \<Longrightarrow>
     ch_try_send ops (te_sender (sh_emitter (hc_handler s))) e = (c, SendFull) \<Longrightarrow>
     handler_step ops p s (set_pc i (HFull (ev_syscall_id e))
       (s\<lparr>hc_handler := set_sender c (hc_handler s), hc_sent := hc_sent s @ [e],
          hc_fulls := Suc (hc_fulls s)\<rparr>))"
| count_drop:
    "i < length (hc_threads s) \<Longrightarrow> hc_threads s ! i = HFull sid \<Longrightarrow> em = sh_emitter (hc_handler s) \<Longrightarrow>
     handler_step ops p s (set_pc i (HEmitted sid)
       (s\<lparr>hc_handler := (hc_handler s)\<lparr>sh_emitter := em\<lparr>te_dropped := te_dropped em + 1\<rparr>\<rparr>,
          hc_drops := Suc (hc_drops s)\<rparr>))"
| add_total:
    "i < length (hc_threads s) \<Longrightarrow> hc_threads s ! i = HEmitted sid \<Longrightarrow>
     handler_step ops p s (set_pc i (HAdded sid)
       (s\<lparr>hc_handler := (hc_handler s)\<lparr>sh_total_calls := sh_total_calls (hc_handler s) + 1\<rparr>,
          hc_adds := Suc (hc_adds s)\<rparr>))"
| count_call:
    "i < length (hc_threads s) \<Longrightarrow> hc_threads s ! i = HAdded sid \<Longrightarrow> \<not> hc_poisoned s \<Longrightarrow>
     bump_entry p sid (sh_call_counts (hc_handler s)) = Inr counts \<Longrightarrow>
     handler_step ops p s (set_pc i HIdle
       (s\<lparr>hc_handler := (hc_handler s)\<lparr>sh_call_counts := counts\<rparr>, hc_counted := hc_counted s @ [sid]\<rparr>))"
| count_call_overflow:
    "i < length (hc_threads s) \<Longrightarrow> hc_threads s ! i = HAdded sid \<Longrightarrow> \<not> hc_poisoned s \<Longrightarrow>
     bump_entry p sid (sh_call_counts (hc_handler s)) = Inl f \<Longrightarrow>
     handler_step ops p s (set_pc i (HPanicked sid) (s\<lparr>hc_poisoned := True\<rparr>))"
| lock_poisoned:
    "i < length (hc_threads s) \<Longrightarrow> hc_threads s ! i = HAdded sid \<Longrightarrow> hc_poisoned s \<Longrightarrow>
     handler_step ops p s (set_pc i (HPanicked sid) s)"
| slot_advanced:
    "handler_step ops p s (s\<lparr>hc_handler := handler_advance_slot (hc_handler s)\<rparr>)"
| received:
    "ch_try_recv ops (te_sender (sh_emitter (hc_handler s))) = (c, msg) \<Longrightarrow>
     handler_step ops p s (s\<lparr>hc_handler := set_sender c (hc_handler s),
       hc_received := hc_received s @ (case msg of None \<Rightarrow> [] | Some e \<Rightarrow> [e])\<rparr>)"

inductive handler_reachable ::
  "'ch channel_ops \<Rightarrow> profile \<Rightarrow> u64 \<Rightarrow> nat \<Rightarrow> 'ch handler_sys \<Rightarrow> bool"
  for ops p slot n where
  handler_start: "handler_reachable ops p slot n (handler_sys_init ops slot n)"
| handler_move: "handler_reachable ops p slot n s \<Longrightarrow> handler_step ops p s t \<Longrightarrow>
    handler_reachable ops p slot n t"

section \<open>Threads between two accesses\<close>

definition threads_with :: "(handle_pc \<Rightarrow> bool) \<Rightarrow> 'ch handler_sys \<Rightarrow> nat" where
  "threads_with P s = length (filter P (hc_threads s))"

fun pc_dropping :: "handle_pc \<Rightarrow> bool" where
  "pc_dropping (HFull sid) = True"
| "pc_dropping _ = False"

fun pc_adding :: "handle_pc \<Rightarrow> bool" where
  "pc_adding (HFull sid) = True"
| "pc_adding (HEmitted sid) = True"
| "pc_adding _ = False"

fun pc_counting :: "handle_pc \<Rightarrow> bool" where
  "pc_counting (HAdded sid) = True"
| "pc_counting (HPanicked sid) = True"
| "pc_counting _ = False"

fun pc_holds :: "syscall_id \<Rightarrow> handle_pc \<Rightarrow> bool" where
  "pc_holds x (HFull sid) = (sid = x)"
| "pc_holds x (HEmitted sid) = (sid = x)"
| "pc_holds x (HAdded sid) = (sid = x)"
| "pc_holds x (HPanicked sid) = (sid = x)"
| "pc_holds x _ = False"

text \<open>One thread moves to \<open>pc\<close>: how the numbers of threads in each phase change.\<close>

lemma threads_move:
  assumes "i < length ths" "ths ! i = old"
  shows "length (filter pc_adding (ths[i := pc])) + of_bool (pc_adding old) =
           length (filter pc_adding ths) + of_bool (pc_adding pc) \<and>
         length (filter pc_counting (ths[i := pc])) + of_bool (pc_counting old) =
           length (filter pc_counting ths) + of_bool (pc_counting pc) \<and>
         length (filter pc_dropping (ths[i := pc])) + of_bool (pc_dropping old) =
           length (filter pc_dropping ths) + of_bool (pc_dropping pc) \<and>
         length (filter (pc_holds x) (ths[i := pc])) + of_bool (pc_holds x old) =
           length (filter (pc_holds x) ths) + of_bool (pc_holds x pc)"
  using length_filter_update [OF assms(1), of pc_adding pc]
    length_filter_update [OF assms(1), of pc_counting pc]
    length_filter_update [OF assms(1), of pc_dropping pc]
    length_filter_update [OF assms(1), of "pc_holds x" pc]
  unfolding assms(2) of_bool_def by blast

lemma set_pc_fields [simp]:
  "hc_handler (set_pc i pc s) = hc_handler s" "hc_poisoned (set_pc i pc s) = hc_poisoned s"
  "hc_sent (set_pc i pc s) = hc_sent s" "hc_received (set_pc i pc s) = hc_received s"
  "hc_counted (set_pc i pc s) = hc_counted s" "hc_adds (set_pc i pc s) = hc_adds s"
  "hc_fulls (set_pc i pc s) = hc_fulls s" "hc_drops (set_pc i pc s) = hc_drops s"
  by (simp_all add: set_pc_def)

lemma set_sender_fields [simp]:
  "sh_call_counts (set_sender c h) = sh_call_counts h"
  "sh_total_calls (set_sender c h) = sh_total_calls h"
  "te_sender (sh_emitter (set_sender c h)) = c"
  "te_dropped (sh_emitter (set_sender c h)) = te_dropped (sh_emitter h)"
  by (simp_all add: set_sender_def)

definition calls_inv :: "syscall_id \<Rightarrow> 'ch handler_sys \<Rightarrow> bool" where
  "calls_inv x s \<longleftrightarrow>
     length (hc_sent s) = hc_adds s + threads_with pc_adding s \<and>
     hc_adds s = length (hc_counted s) + threads_with pc_counting s \<and>
     count_list (map ev_syscall_id (hc_sent s)) x =
       count_list (hc_counted s) x + threads_with (pc_holds x) s \<and>
     sh_total_calls (hc_handler s) = of_nat (hc_adds s) \<and>
     counts_match (sh_call_counts (hc_handler s)) (hc_counted s) \<and>
     hc_fulls s = hc_drops s + threads_with pc_dropping s \<and>
     te_dropped (sh_emitter (hc_handler s)) = of_nat (hc_drops s)"

lemmas calls_inv_unfold = calls_inv_def threads_with_def set_pc_def count_list_snoc

lemma calls_inv_init: "calls_inv x (handler_sys_init ops slot n)"
  by (simp add: calls_inv_unfold handler_sys_init_def handler_new_def counts_match_def emitter_new_def)

lemma calls_inv_step: "handler_step ops p s t \<Longrightarrow> calls_inv x s \<Longrightarrow> calls_inv x t"
proof (induction rule: handler_step.induct)
  case (load_slot i s clock pid sid args tx depth)
  then show ?case
    using threads_move [OF load_slot(1,2),
        where x = x and pc = "HLoaded (handle_event clock (sh_current_slot (hc_handler s)) pid sid args tx depth)"]
    by (simp add: calls_inv_unfold)
next
  case (send i s e c r)
  then show ?case
    using threads_move [OF send(1,2), where x = x and pc = "HEmitted (ev_syscall_id e)"]
    by (auto simp: calls_inv_unfold)
next
  case (send_full i s e c)
  then show ?case
    using threads_move [OF send_full(1,2), where x = x and pc = "HFull (ev_syscall_id e)"]
    by (auto simp: calls_inv_unfold)
next
  case (count_drop i s sid em)
  then show ?case
    using threads_move [OF count_drop(1,2), where x = x and pc = "HEmitted sid"]
    by (auto simp: calls_inv_unfold)
next
  case (add_total i s sid)
  then show ?case
    using threads_move [OF add_total(1,2), where x = x and pc = "HAdded sid"]
    by (auto simp: calls_inv_unfold)
next
  case (count_call i s sid counts)
  then show ?case
    using threads_move [OF count_call(1,2), where x = x and pc = HIdle]
      counts_match_bump [OF _ count_call(4)]
    by (auto simp: calls_inv_unfold)
next
  case (count_call_overflow i s sid f)
  then show ?case
    using threads_move [OF count_call_overflow(1,2), where x = x and pc = "HPanicked sid"]
    by (auto simp: calls_inv_unfold)
next
  case (lock_poisoned i s sid)
  then show ?case
    using threads_move [OF lock_poisoned(1,2), where x = x and pc = "HPanicked sid"]
    by (auto simp: calls_inv_unfold)
next
  case (slot_advanced s)
  then show ?case by (simp add: calls_inv_unfold handler_advance_slot_def)
next
  case (received s c msg)
  then show ?case by (simp add: calls_inv_unfold)
qed

context trace_channel
begin

text \<open>The channel between the threads: what was sent is received, queued or found it full.\<close>

definition chan_inv :: "'ch handler_sys \<Rightarrow> bool" where
  "chan_inv s \<longleftrightarrow>
     (let c = te_sender (sh_emitter (hc_handler s)) in
      connected c \<and> cap c = CHANNEL_CAPACITY \<and> length (queue c) \<le> CHANNEL_CAPACITY \<and>
      subseq (hc_received s @ queue c) (hc_sent s) \<and>
      length (hc_sent s) = length (hc_received s @ queue c) + hc_fulls s)"

lemma chan_inv_init: "chan_inv (handler_sys_init ops slot n)"
  using new_channel by (simp add: chan_inv_def handler_sys_init_def handler_new_def)

lemma chan_inv_step: "handler_step ops p s t \<Longrightarrow> chan_inv s \<Longrightarrow> chan_inv t"
proof (induction rule: handler_step.induct)
  case (send i s e c r)
  let ?q = "queue (te_sender (sh_emitter (hc_handler s)))"
  have conn: "connected (te_sender (sh_emitter (hc_handler s)))"
    using send.prems by (simp add: chan_inv_def Let_def)
  have room: "length ?q < cap (te_sender (sh_emitter (hc_handler s)))"
    using try_send_full [OF conn _ send(3)] send(4) by (meson not_le)
  have law: "queue c = ?q @ [e]" "cap c = cap (te_sender (sh_emitter (hc_handler s)))" "connected c"
    using try_send_room [OF conn room send(3)] by auto
  have "subseq (hc_received s @ ?q @ [e]) (hc_sent s @ [e])"
    using send.prems list_emb_append_mono [of _ "hc_received s @ ?q" "hc_sent s" "[e]" "[e]"]
    by (simp add: chan_inv_def Let_def)
  then show ?case using send.prems law room by (simp add: chan_inv_def Let_def)
next
  case (send_full i s e c)
  let ?q = "queue (te_sender (sh_emitter (hc_handler s)))"
  have conn: "connected (te_sender (sh_emitter (hc_handler s)))"
    using send_full.prems by (simp add: chan_inv_def Let_def)
  have full: "cap (te_sender (sh_emitter (hc_handler s))) \<le> length ?q"
    by (rule leI) (use try_send_room [OF conn _ send_full(3)] in auto)
  have law: "queue c = ?q" "cap c = cap (te_sender (sh_emitter (hc_handler s)))" "connected c"
    using try_send_full [OF conn full send_full(3)] by auto
  have "subseq (hc_received s @ ?q) (hc_sent s @ [e])"
    using send_full.prems list_emb_append_mono [of _ "hc_received s @ ?q" "hc_sent s" "[]" "[e]"]
    by (simp add: chan_inv_def Let_def)
  then show ?case using send_full.prems law by (simp add: chan_inv_def Let_def)
next
  case (received s c msg)
  let ?q = "queue (te_sender (sh_emitter (hc_handler s)))"
  have law: "msg = (case ?q of [] \<Rightarrow> None | x # _ \<Rightarrow> Some x)" "queue c = tl ?q"
    "cap c = cap (te_sender (sh_emitter (hc_handler s)))"
    "connected c = connected (te_sender (sh_emitter (hc_handler s)))"
    using try_recv_law [OF received(1)] by auto
  have "(hc_received s @ (case msg of None \<Rightarrow> [] | Some e \<Rightarrow> [e])) @ queue c = hc_received s @ ?q"
    using law by (cases ?q) auto
  then show ?case
    using received.prems law by (auto simp: chan_inv_def Let_def simp del: length_append)
qed (simp_all add: chan_inv_def handler_advance_slot_def)

lemma reachable_invs: "handler_reachable ops p slot n s \<Longrightarrow> calls_inv x s \<and> chan_inv s"
  by (induction rule: handler_reachable.induct)
    (auto intro: calls_inv_init calls_inv_step chan_inv_init chan_inv_step)

end

section \<open>Quiescent states\<close>

lemma threads_with_idle: "set (hc_threads s) \<subseteq> {HIdle} \<Longrightarrow> \<not> P HIdle \<Longrightarrow> threads_with P s = 0"
  by (auto simp: threads_with_def filter_empty_conv)

text \<open>
  C5.  Concurrent calls: whatever the interleaving of the threads, of the receiver and of slot
  advances, once every thread has returned from \<open>handle\<close>, \<open>total_calls\<close> is the number of events
  handed to the channel, the call counts are those of their syscalls, every event was received,
  is queued or was dropped (in order), and the dropped counter is exact.
\<close>

theorem concurrent_handle_quiescent:
  assumes "trace_channel ops queue cap connected"
    and "handler_reachable ops p slot n s" and "set (hc_threads s) \<subseteq> {HIdle}"
  shows "let h = hc_handler s; seen = hc_received s @ queue (te_sender (sh_emitter h)) in
    sh_total_calls h = of_nat (length (hc_sent s)) \<and>
    counts_match (sh_call_counts h) (map ev_syscall_id (hc_sent s)) \<and>
    subseq seen (hc_sent s) \<and>
    te_dropped (sh_emitter h) = of_nat (length (hc_sent s) - length seen)"
proof -
  note inv = trace_channel.reachable_invs [OF assms(1,2)]
  note idle = threads_with_idle [OF assms(3)]
  have "count_list (map ev_syscall_id (hc_sent s)) x = count_list (hc_counted s) x" for x
    using inv [of x] idle [of "pc_holds x"] by (simp add: calls_inv_def)
  moreover from this have "set (hc_counted s) = set (map ev_syscall_id (hc_sent s))"
    by (metis count_notin count_list_0_iff subsetI subset_antisym)
  moreover have "hc_drops s = length (hc_sent s) -
      length (hc_received s @ queue (te_sender (sh_emitter (hc_handler s))))"
    using inv [of undefined] idle [of pc_dropping]
    by (auto simp: calls_inv_def trace_channel.chan_inv_def [OF assms(1)] Let_def)
  ultimately show ?thesis
    using inv [of undefined] idle [of pc_adding] idle [of pc_counting] idle [of pc_dropping]
    by (simp add: calls_inv_def counts_match_def trace_channel.chan_inv_def [OF assms(1)] Let_def)
qed

text \<open>
  A run of two threads with one call each, written out: both have loaded the slot before either
  sends, and the thread that sent last is counted first.
\<close>

definition sample_state ::
  "handle_pc list \<Rightarrow> trace_event list \<Rightarrow> syscall_id list \<Rightarrow> nat \<Rightarrow> (syscall_id, u64) fmap \<Rightarrow>
   ref_channel handler_sys" where
  "sample_state ths sent counted adds counts =
     \<lparr>hc_handler = \<lparr>sh_registry = registry_new,
        sh_emitter = \<lparr>te_sender = \<lparr>rc_queue = sent, rc_cap = CHANNEL_CAPACITY, rc_connected = True\<rparr>,
                      te_dropped = 0\<rparr>,
        sh_current_slot = 5, sh_call_counts = counts, sh_total_calls = of_nat adds\<rparr>,
      hc_poisoned = False, hc_threads = ths, hc_sent = sent, hc_received = [],
      hc_counted = counted, hc_adds = adds, hc_fulls = 0, hc_drops = 0\<rparr>"

lemmas sample_state_eval = sample_state_def set_pc_def set_sender_def ref_channel_ops_def
  ref_try_send_def CHANNEL_CAPACITY_def handle_event_def bump_entry_Release

theorem concurrent_handle_quiescent_witness:
  "\<exists>s. handler_reachable ref_channel_ops Release 5 2 s \<and> hc_threads s = [HIdle, HIdle] \<and>
     map ev_syscall_id (hc_sent s) = [SOL_LOG, SOL_SHA256] \<and>
     sh_total_calls (hc_handler s) = 2 \<and>
     fmlookup (sh_call_counts (hc_handler s)) SOL_LOG = Some 1"
proof -
  let ?e = "handle_event None 5 [] SOL_LOG [] [] 0" and ?f = "handle_event None 5 [] SOL_SHA256 [] [] 0"
  let ?R = "handler_reachable ref_channel_ops Release 5 2"
  let ?step = "handler_step ref_channel_ops Release"
  let ?s0 = "sample_state [HIdle, HIdle] [] [] 0 fmempty"
  let ?s1 = "sample_state [HLoaded ?f, HIdle] [] [] 0 fmempty"
  let ?s2 = "sample_state [HLoaded ?f, HLoaded ?e] [] [] 0 fmempty"
  let ?s3 = "sample_state [HLoaded ?f, HEmitted SOL_LOG] [?e] [] 0 fmempty"
  let ?s4 = "sample_state [HEmitted SOL_SHA256, HEmitted SOL_LOG] [?e, ?f] [] 0 fmempty"
  let ?s5 = "sample_state [HAdded SOL_SHA256, HEmitted SOL_LOG] [?e, ?f] [] 1 fmempty"
  let ?s6 = "sample_state [HAdded SOL_SHA256, HAdded SOL_LOG] [?e, ?f] [] 2 fmempty"
  let ?m1 = "fmupd SOL_SHA256 1 fmempty"
  let ?s7 = "sample_state [HIdle, HAdded SOL_LOG] [?e, ?f] [SOL_SHA256] 2 ?m1"
  let ?s8 = "sample_state [HIdle, HIdle] [?e, ?f] [SOL_SHA256, SOL_LOG] 2 (fmupd SOL_LOG 1 ?m1)"
  have R0: "?R ?s0"
    using handler_start [of ref_channel_ops Release 5 2]
    by (simp add: handler_sys_init_def handler_new_def emitter_new_def sample_state_eval numeral_2_eq_2)
  have "?step ?s0 ?s1"
    using load_slot [of 0 ?s0 ref_channel_ops Release None "[]" SOL_SHA256 "[]" "[]" 0]
    by (simp add: sample_state_eval)
  moreover have "?step ?s1 ?s2"
    using load_slot [of 1 ?s1 ref_channel_ops Release None "[]" SOL_LOG "[]" "[]" 0]
    by (simp add: sample_state_eval)
  moreover have "?step ?s2 ?s3"
    using send [of 1 ?s2 ?e ref_channel_ops _ SendOk Release] by (simp add: sample_state_eval)
  moreover have "?step ?s3 ?s4"
    using send [of 0 ?s3 ?f ref_channel_ops _ SendOk Release] by (simp add: sample_state_eval)
  moreover have "?step ?s4 ?s5"
    using add_total [of 0 ?s4 SOL_SHA256 ref_channel_ops Release] by (simp add: sample_state_eval)
  moreover have "?step ?s5 ?s6"
    using add_total [of 1 ?s5 SOL_LOG ref_channel_ops Release]
    by (simp add: sample_state_eval numeral_2_eq_2)
  moreover have "?step ?s6 ?s7"
    using count_call [of 0 ?s6 SOL_SHA256 Release _ ref_channel_ops] by (simp add: sample_state_eval)
  moreover have "?step ?s7 ?s8"
    using count_call [of 1 ?s7 SOL_LOG Release _ ref_channel_ops]
    by (simp add: sample_state_eval syscall_ids)
  ultimately have R: "?R ?s8" using R0 by (meson handler_move)
  then show ?thesis
    using concurrent_handle_quiescent [OF ref_chan.trace_channel_axioms R]
    by (intro exI [of _ ?s8]) (simp add: sample_state_def counts_match_def handle_event_def
        syscall_ids Let_def)
qed

end
