(* ===== verification/Classifier.thy ===== *)
theory Classifier
  imports Registry
begin

text \<open>
  The static phase of the safety layer, \<open>src/safety/src/classifier.rs\<close>: every syscall number is
  given a safety class; a number the table does not know counts as state changing.
\<close>

record syscall_classifier =
  cl_classifications :: "(syscall_id, safety_class) fmap"

text \<open>A loop \<open>for id in [...] { m.insert(id, class); }\<close>.\<close>

definition insert_ids ::
  "syscall_id list \<Rightarrow> safety_class \<Rightarrow> (syscall_id, safety_class) fmap \<Rightarrow>
   (syscall_id, safety_class) fmap" where
  "insert_ids ids class m = foldl (\<lambda>m sid. fmupd sid class m) m ids"

definition classifier_new :: syscall_classifier where
  "classifier_new =
     (let m = fmempty;
          m = insert_ids [SOL_GET_CLOCK_SYSVAR, SOL_GET_RENT_SYSVAR, SOL_GET_EPOCH_SCHEDULE_SYSVAR,
                SOL_GET_FEES_SYSVAR, SOL_GET_SLOT_HASHES_SYSVAR, SOL_GET_STAKE_HISTORY_SYSVAR,
                SOL_GET_RETURN_DATA] ReadOnly m;
          m = insert_ids [SOL_LOG, SOL_LOG_64, SOL_LOG_PUBKEY, SOL_LOG_COMPUTE_UNITS] Idempotent m;
          m = insert_ids [SOL_SHA256, SOL_KECCAK256, SOL_SECP256K1_RECOVER, SOL_ED25519_VERIFY]
                Idempotent m;
          m = insert_ids [SOL_ALLOC_FREE, SOL_MEMCPY, SOL_MEMMOVE, SOL_MEMSET, SOL_MEMCMP]
                Idempotent m;
          m = fmupd SOL_SET_RETURN_DATA StateChanging m;
          m = fmupd SOL_PANIC StateChanging m;
          m = fmupd SOL_ABORT StateChanging m;
          m = fmupd SOL_INVOKE_SIGNED OrderSensitive m
      in \<lparr>cl_classifications = m\<rparr>)"

definition classifier_default :: syscall_classifier where
  "classifier_default = classifier_new"

definition classify :: "syscall_classifier \<Rightarrow> syscall_id \<Rightarrow> safety_class" where
  "classify c sid =
     (case fmlookup (cl_classifications c) sid of Some class \<Rightarrow> class | None \<Rightarrow> StateChanging)"

definition is_optimization_eligible :: "syscall_classifier \<Rightarrow> syscall_id \<Rightarrow> bool" where
  "is_optimization_eligible c sid =
     (case classify c sid of ReadOnly \<Rightarrow> True | Idempotent \<Rightarrow> True | _ \<Rightarrow> False)"

definition can_reorder :: "syscall_id \<Rightarrow> syscall_id \<Rightarrow> bool" where
  "can_reorder a b =
     (let c = classifier_new
      in (case classify c a of ReadOnly \<Rightarrow> True | _ \<Rightarrow> False) \<and>
         (case classify c b of ReadOnly \<Rightarrow> True | _ \<Rightarrow> False))"

section \<open>The table\<close>

lemma insert_ids_lookup:
  "fmlookup (insert_ids ids class m) sid = (if sid \<in> set ids then Some class else fmlookup m sid)"
  unfolding insert_ids_def by (induction ids arbitrary: m) auto

lemma classify_table:
  "classify classifier_new sid =
    (if sid \<in> {1, 2, 3, 4, 5, 6, 41} then ReadOnly
     else if sid \<in> {10, 11, 12, 13, 20, 21, 22, 23, 50, 51, 52, 53, 54} then Idempotent
     else if sid = 30 then OrderSensitive
     else StateChanging)"
proof -
  have "fmlookup (cl_classifications classifier_new) sid =
    (if sid = 30 then Some OrderSensitive
     else if sid \<in> {40, 60, 61} then Some StateChanging
     else if sid \<in> {10, 11, 12, 13, 20, 21, 22, 23, 50, 51, 52, 53, 54} then Some Idempotent
     else if sid \<in> {1, 2, 3, 4, 5, 6, 41} then Some ReadOnly else None)"
    by (simp add: classifier_new_def Let_def insert_ids_lookup syscall_ids)
  then show ?thesis by (auto simp: classify_def)
qed

lemma eligible_iff:
  "is_optimization_eligible c sid \<longleftrightarrow> classify c sid \<in> {ReadOnly, Idempotent}"
  by (simp add: is_optimization_eligible_def split: safety_class.splits)

lemma registry_eligible_iff:
  "registry_is_optimization_eligible r sid \<longleftrightarrow> registry_get_safety r sid \<in> {ReadOnly, Idempotent}"
  by (simp add: registry_is_optimization_eligible_def split: safety_class.splits)

lemma case_ReadOnly: "(case class of ReadOnly \<Rightarrow> True | _ \<Rightarrow> False) \<longleftrightarrow> class = ReadOnly"
  by (cases "class") simp_all

lemma can_reorder_iff:
  "can_reorder a b \<longleftrightarrow> classify classifier_new a = ReadOnly \<and> classify classifier_new b = ReadOnly"
  by (simp add: can_reorder_def Let_def case_ReadOnly)

section \<open>The two tables of the program\<close>

text \<open>
  C6.  The program classifies syscalls twice, in the runtime's registry and in the safety layer.
  The two agree on every number, known or not, except \<open>SOL_MEMCMP\<close> (read-only in the registry,
  idempotent in the safety layer), and they always agree on which syscalls may be optimised.
\<close>

theorem registry_classifier_agree:
  "(registry_get_safety registry_new sid = classify classifier_new sid \<longleftrightarrow> sid \<noteq> SOL_MEMCMP) \<and>
   registry_is_optimization_eligible registry_new sid = is_optimization_eligible classifier_new sid"
  unfolding eligible_iff registry_eligible_iff registry_safety_table classify_table syscall_ids
  by auto

end
