(* ===== verification/DependencyChecker.thy ===== *)
theory DependencyChecker
  imports Classifier
begin

text \<open>
  The dynamic phase of the safety layer, \<open>src/safety/src/dependency_checker.rs\<close>: a state changing
  or order sensitive syscall is a dependency of every later read by the same program.
\<close>

record data_dependency =
  dd_from_index :: nat
  dd_to_index :: nat
  dd_reason :: string

definition mutates :: "syscall_classifier \<Rightarrow> trace_event \<Rightarrow> bool" where
  "mutates c e =
     (case classify c (ev_syscall_id e) of StateChanging \<Rightarrow> True | OrderSensitive \<Rightarrow> True | _ \<Rightarrow> False)"

definition reads_after :: "syscall_classifier \<Rightarrow> trace_event \<Rightarrow> trace_event \<Rightarrow> bool" where
  "reads_after c from_ev to_ev =
     (ev_program_id to_ev = ev_program_id from_ev \<and>
      (case classify c (ev_syscall_id to_ev) of ReadOnly \<Rightarrow> True | Idempotent \<Rightarrow> True | _ \<Rightarrow> False))"

definition dependency :: "nat \<Rightarrow> trace_event \<Rightarrow> nat \<Rightarrow> trace_event \<Rightarrow> data_dependency" where
  "dependency i from_ev j to_ev = \<lparr>dd_from_index = i, dd_to_index = j, dd_reason =
     ''syscall['' @ dec_string i @ ''] (id='' @ dec_string (unat (ev_syscall_id from_ev)) @
     '') mutates state read by syscall['' @ dec_string j @ ''] (id='' @
     dec_string (unat (ev_syscall_id to_ev)) @ '')''\<rparr>"

text \<open>The inner loop, over \<open>sequence.iter().enumerate().skip(i + 1)\<close>, and the outer loop.\<close>

fun inner_loop ::
  "syscall_classifier \<Rightarrow> nat \<Rightarrow> trace_event \<Rightarrow> (nat \<times> trace_event) list \<Rightarrow> data_dependency list" where
  "inner_loop c i from_ev [] = []"
| "inner_loop c i from_ev ((j, to_ev) # rest) =
     (if reads_after c from_ev to_ev then [dependency i from_ev j to_ev] else []) @
     inner_loop c i from_ev rest"

fun outer_loop ::
  "syscall_classifier \<Rightarrow> trace_event list \<Rightarrow> (nat \<times> trace_event) list \<Rightarrow> data_dependency list" where
  "outer_loop c seq [] = []"
| "outer_loop c seq ((i, from_ev) # rest) =
     (if \<not> mutates c from_ev then [] else inner_loop c i from_ev (drop (i + 1) (enumerate 0 seq))) @
     outer_loop c seq rest"

definition check_sequence :: "trace_event list \<Rightarrow> data_dependency list" where
  "check_sequence seq = outer_loop classifier_new seq (enumerate 0 seq)"

definition has_dependencies :: "trace_event list \<Rightarrow> bool" where
  "has_dependencies seq \<longleftrightarrow> check_sequence seq \<noteq> []"

definition is_safe_to_reorder :: "trace_event list \<Rightarrow> bool" where
  "is_safe_to_reorder seq =
     (if has_dependencies seq then False
      else list_all (\<lambda>e. case classify classifier_new (ev_syscall_id e) of ReadOnly \<Rightarrow> True | _ \<Rightarrow> False) seq)"

section \<open>What the two loops collect\<close>

definition depends :: "trace_event list \<Rightarrow> nat \<Rightarrow> nat \<Rightarrow> bool" where
  "depends seq i j \<longleftrightarrow> i < j \<and> j < length seq \<and>
     classify classifier_new (ev_syscall_id (seq ! i)) \<in> {StateChanging, OrderSensitive} \<and>
     classify classifier_new (ev_syscall_id (seq ! j)) \<in> {ReadOnly, Idempotent} \<and>
     ev_program_id (seq ! i) = ev_program_id (seq ! j)"

definition dep_pair :: "data_dependency \<Rightarrow> nat \<times> nat" where
  "dep_pair d = (dd_from_index d, dd_to_index d)"

lemma dep_pair_dependency [simp]: "dep_pair (dependency i e j f) = (i, j)"
  by (simp add: dep_pair_def dependency_def)

lemma inner_loop_pairs:
  "map dep_pair (inner_loop c i e js) = map (\<lambda>(j, f). (i, j)) (filter (\<lambda>(j, f). reads_after c e f) js)"
  by (induction c i e js rule: inner_loop.induct) auto

text \<open>The pairs come out in the order of two nested loops over the indices.\<close>

definition loop_pairs :: "trace_event list \<Rightarrow> (nat \<times> nat) list" where
  "loop_pairs seq =
     filter (\<lambda>(i, j). depends seq i j) (concat (map (\<lambda>i. map (Pair i) [0..<length seq]) [0..<length seq]))"

lemma mutates_iff:
  "mutates c e \<longleftrightarrow> classify c (ev_syscall_id e) \<in> {StateChanging, OrderSensitive}"
  by (simp add: mutates_def split: safety_class.splits)

lemma reads_after_iff:
  "reads_after c e f \<longleftrightarrow> ev_program_id f = ev_program_id e \<and>
     classify c (ev_syscall_id f) \<in> {ReadOnly, Idempotent}"
  by (simp add: reads_after_def split: safety_class.splits)

lemma enumerate_upt: "enumerate 0 xs = map (\<lambda>i. (i, xs ! i)) [0..<length xs]"
  by (rule nth_equalityI) (simp_all add: nth_enumerate_eq)

lemma inner_pairs_at:
  assumes "i < length seq"
  shows "map dep_pair (if \<not> mutates classifier_new (seq ! i) then []
           else inner_loop classifier_new i (seq ! i) (drop (i + 1) (enumerate 0 seq))) =
         filter (\<lambda>(i, j). depends seq i j) (map (Pair i) [0..<length seq])"
proof -
  have split: "[0..<length seq] = [0..<i + 1] @ [i + 1..<length seq]"
  proof -
    have "[0..<i + 1 + (length seq - (i + 1))] = [0..<i + 1] @ [i + 1..<i + 1 + (length seq - (i + 1))]"
      by (rule upt_add_eq_append) simp
    moreover have "i + 1 + (length seq - (i + 1)) = length seq" using assms by simp
    ultimately show ?thesis by (simp only:)
  qed
  have low: "filter (\<lambda>(i, j). depends seq i j) (map (Pair i) [0..<i + 1]) = []"
    by (auto simp: filter_empty_conv depends_def)
  have "drop (i + 1) (enumerate 0 seq) = map (\<lambda>j. (j, seq ! j)) [i + 1..<length seq]"
    by (simp add: enumerate_upt drop_map)
  then show ?thesis
    unfolding split map_append filter_append low
    by (auto simp: inner_loop_pairs filter_map comp_def mutates_iff reads_after_iff depends_def
        intro!: filter_cong map_cong filter_False [symmetric])
qed

lemma outer_loop_pairs:
  "map dep_pair (outer_loop c seq xs) =
     concat (map (\<lambda>(i, e). map dep_pair (if \<not> mutates c e then []
       else inner_loop c i e (drop (i + 1) (enumerate 0 seq)))) xs)"
  by (induction c seq xs rule: outer_loop.induct) auto

lemma check_sequence_pairs: "map dep_pair (check_sequence seq) = loop_pairs seq"
proof -
  have "map dep_pair (check_sequence seq) =
      concat (map (\<lambda>i. filter (\<lambda>(i, j). depends seq i j) (map (Pair i) [0..<length seq])) [0..<length seq])"
    unfolding check_sequence_def outer_loop_pairs
    by (subst (2) enumerate_upt) (auto simp: inner_pairs_at comp_def intro!: arg_cong [of _ _ concat])
  then show ?thesis by (simp add: loop_pairs_def filter_concat comp_def)
qed

lemma set_loop_pairs: "set (loop_pairs seq) = {(i, j). depends seq i j}"
proof -
  have "i < length seq \<and> j < length seq" if "depends seq i j" for i j
    using that by (simp add: depends_def)
  then show ?thesis by (fastforce simp: loop_pairs_def)
qed

lemma has_dependencies_iff: "has_dependencies seq \<longleftrightarrow> (\<exists>i j. depends seq i j)"
proof -
  have "check_sequence seq = [] \<longleftrightarrow> set (map dep_pair (check_sequence seq)) = {}" by simp
  then show ?thesis by (auto simp: has_dependencies_def check_sequence_pairs set_loop_pairs)
qed

lemma all_ReadOnly_iff:
  "list_all (\<lambda>e. case classify classifier_new (ev_syscall_id e) of ReadOnly \<Rightarrow> True | _ \<Rightarrow> False) seq
   \<longleftrightarrow> (\<forall>e \<in> set seq. classify classifier_new (ev_syscall_id e) = ReadOnly)"
  by (simp add: list_all_iff case_ReadOnly)

lemma all_ReadOnly_no_dependency:
  "\<forall>e \<in> set seq. classify classifier_new (ev_syscall_id e) = ReadOnly \<Longrightarrow> \<not> has_dependencies seq"
  by (auto simp: has_dependencies_iff depends_def)

lemma is_safe_to_reorder_iff:
  "is_safe_to_reorder seq \<longleftrightarrow> (\<forall>e \<in> set seq. classify classifier_new (ev_syscall_id e) = ReadOnly)"
  using all_ReadOnly_no_dependency by (auto simp: is_safe_to_reorder_def all_ReadOnly_iff)

section \<open>Properties\<close>

text \<open>
  C7.  What the dependency search finds.  The reported pairs are exactly the pairs \<open>i < j\<close> of the
  same program where event \<open>i\<close> is state changing or order sensitive and event \<open>j\<close> is read-only or
  idempotent; each is reported once, in the order of \<open>i\<close> and then \<open>j\<close>.  So only reads after writes
  are found: no pair ends in a state changing or order sensitive event, though the comment of the
  function, the README and the architecture document speak of write-after-read dependencies too.
  For a read that is followed by a write of the same program nothing is reported in either order
  of the two indices.
\<close>

theorem check_sequence_correct:
  "set (map dep_pair (check_sequence seq)) = {(i, j). depends seq i j} \<and>
   distinct (map dep_pair (check_sequence seq)) \<and>
   sorted_wrt (\<lambda>(i, j) (i', j'). i < i' \<or> i = i' \<and> j < j') (map dep_pair (check_sequence seq)) \<and>
   set (map dep_pair (check_sequence seq)) \<inter> {(i, j). mutates classifier_new (seq ! j)} = {} \<and>
   set (map dep_pair (check_sequence seq)) \<inter>
     {(i, j). j \<le> i \<or> classify classifier_new (ev_syscall_id (seq ! i)) \<in> {ReadOnly, Idempotent}} = {}"
proof -
  let ?lt = "\<lambda>(i, j) (i', j'). i < i' \<or> i = i' \<and> j < (j' :: nat)"
  have "sorted_wrt ?lt (concat (map (\<lambda>i. map (Pair i) [0..<n]) [a..<b]))" for a b n :: nat
    by (induction b) (auto simp: sorted_wrt_append sorted_wrt_map sorted_wrt_upt)
  then have sorted: "sorted_wrt ?lt (loop_pairs seq)"
    unfolding loop_pairs_def by (rule sorted_wrt_filter)
  have "distinct xs" if "sorted_wrt ?lt xs" for xs :: "(nat \<times> nat) list"
    using that by (induction xs) auto
  moreover have "{(i, j). depends seq i j} \<inter> {(i, j). mutates classifier_new (seq ! j)} = {}"
    "{(i, j). depends seq i j} \<inter>
      {(i, j). j \<le> i \<or> classify classifier_new (ev_syscall_id (seq ! i)) \<in> {ReadOnly, Idempotent}} = {}"
    by (auto simp: depends_def mutates_iff)
  ultimately show ?thesis using sorted by (simp only: check_sequence_pairs set_loop_pairs simp_thms)
qed

end
