(* ===== verification/Validator.thy ===== *)
theory Validator
  imports DependencyChecker
begin

text \<open>
  The gate of the safety layer, \<open>src/safety/src/validator.rs\<close>: an optimisation is approved or
  rejected, with a reason.
\<close>

datatype optimization_kind = Cache | Batch | Prefetch | Reorder | Dedup

record validation_result =
  vr_approved :: bool
  vr_reason :: string
  vr_kind :: optimization_kind

definition approve :: "optimization_kind \<Rightarrow> string \<Rightarrow> validation_result" where
  "approve kind reason = \<lparr>vr_approved = True, vr_reason = reason, vr_kind = kind\<rparr>"

definition reject :: "optimization_kind \<Rightarrow> string \<Rightarrow> validation_result" where
  "reject kind reason = \<lparr>vr_approved = False, vr_reason = reason, vr_kind = kind\<rparr>"

record safety_validator =
  sv_classifier :: syscall_classifier
  sv_enforce_determinism :: bool

definition validator_new :: "bool \<Rightarrow> safety_validator" where
  "validator_new enforce = \<lparr>sv_classifier = classifier_new, sv_enforce_determinism = enforce\<rparr>"

text \<open>The derived \<open>Debug\<close> output of a safety class is the name of its variant.\<close>

fun safety_class_debug :: "safety_class \<Rightarrow> string" where
  "safety_class_debug ReadOnly = ''ReadOnly''"
| "safety_class_debug Idempotent = ''Idempotent''"
| "safety_class_debug StateChanging = ''StateChanging''"
| "safety_class_debug OrderSensitive = ''OrderSensitive''"

definition validate_cache :: "safety_validator \<Rightarrow> syscall_id \<Rightarrow> validation_result" where
  "validate_cache v sid =
     (if \<not> sv_enforce_determinism v then approve Cache ''determinism not enforced''
      else if is_optimization_eligible (sv_classifier v) sid
      then approve Cache (''syscall '' @ dec_string (unat sid) @ '' is '' @
             safety_class_debug (classify (sv_classifier v) sid) @ '' '' @ em_dash @ '' cacheable'')
      else reject Cache (''syscall '' @ dec_string (unat sid) @ '' is '' @
             safety_class_debug (classify (sv_classifier v) sid) @ '' '' @ em_dash @ '' not cacheable''))"

fun validate_batch :: "safety_validator \<Rightarrow> syscall_id list \<Rightarrow> validation_result" where
  "validate_batch v [] = approve Batch ''all syscalls are batch-eligible''"
| "validate_batch v (sid # sids) =
     (if \<not> is_optimization_eligible (sv_classifier v) sid
      then reject Batch (''syscall '' @ dec_string (unat sid) @ '' is not eligible for batching'')
      else validate_batch v sids)"

definition validate_reorder :: "safety_validator \<Rightarrow> trace_event list \<Rightarrow> validation_result" where
  "validate_reorder v seq =
     (if has_dependencies seq
      then reject Reorder (''sequence has data dependencies '' @ em_dash @ '' reordering unsafe'')
      else if \<not> is_safe_to_reorder seq
      then reject Reorder (''sequence contains non-ReadOnly syscalls '' @ em_dash @
             '' reordering not permitted'')
      else approve Reorder ''all syscalls are ReadOnly and dependency-free'')"

definition validate_dedup :: "safety_validator \<Rightarrow> syscall_id \<Rightarrow> validation_result" where
  "validate_dedup v sid =
     (let class = classify (sv_classifier v) sid in
      case class of
        ReadOnly \<Rightarrow> approve Dedup (''idempotent '' @ em_dash @ '' dedup safe'')
      | Idempotent \<Rightarrow> approve Dedup (''idempotent '' @ em_dash @ '' dedup safe'')
      | _ \<Rightarrow> reject Dedup (''syscall '' @ dec_string (unat sid) @ '' is '' @
               safety_class_debug class @ '' '' @ em_dash @ '' dedup would alter semantics''))"

section \<open>When each optimisation is approved\<close>

lemma verdict_fields [simp]:
  "vr_approved (approve k r)" "\<not> vr_approved (reject k r)"
  "vr_kind (approve k r) = k" "vr_kind (reject k r) = k"
  "vr_reason (approve k r) = r" "vr_reason (reject k r) = r"
  by (simp_all add: approve_def reject_def)

lemma validator_new_fields [simp]:
  "sv_classifier (validator_new b) = classifier_new" "sv_enforce_determinism (validator_new b) = b"
  by (simp_all add: validator_new_def)

lemma validate_batch_approved_iff:
  "vr_approved (validate_batch v sids) \<longleftrightarrow> (\<forall>sid \<in> set sids. is_optimization_eligible (sv_classifier v) sid)"
  by (induction v sids rule: validate_batch.induct) auto

lemma validate_batch_reject:
  "validate_batch v (xs @ sid # ys) =
     reject Batch (''syscall '' @ dec_string (unat sid) @ '' is not eligible for batching'')"
  if "\<forall>x \<in> set xs. is_optimization_eligible (sv_classifier v) x"
    "\<not> is_optimization_eligible (sv_classifier v) sid"
  using that by (induction xs) auto

lemma validate_reorder_approved_iff:
  "vr_approved (validate_reorder v seq) \<longleftrightarrow>
     (\<forall>e \<in> set seq. classify classifier_new (ev_syscall_id e) = ReadOnly)"
  using all_ReadOnly_no_dependency by (auto simp: validate_reorder_def is_safe_to_reorder_iff)

lemma validate_dedup_approved_iff:
  "vr_approved (validate_dedup v sid) \<longleftrightarrow> is_optimization_eligible (sv_classifier v) sid"
  by (simp add: validate_dedup_def is_optimization_eligible_def Let_def split: safety_class.splits)

lemma validate_cache_approved_iff:
  "vr_approved (validate_cache v sid) \<longleftrightarrow>
     \<not> sv_enforce_determinism v \<or> is_optimization_eligible (sv_classifier v) sid"
  by (simp add: validate_cache_def)

section \<open>Properties\<close>

text \<open>
  C9.  The gate as a whole: with determinism enforced, caching, deduplicating and batching a
  syscall are approved together, exactly for the syscalls that the runtime's registry declares
  eligible; a batch is approved when all its members are, and otherwise the first member that is
  not is named in the reason.
\<close>

theorem validator_gate:
  "vr_approved (validate_cache (validator_new True) sid) = registry_is_optimization_eligible registry_new sid \<and>
   vr_approved (validate_dedup (validator_new b) sid) = registry_is_optimization_eligible registry_new sid \<and>
   vr_approved (validate_batch (validator_new b) sids) =
     list_all (registry_is_optimization_eligible registry_new) sids \<and>
   (\<not> vr_approved (validate_batch (validator_new b) sids) \<longrightarrow>
      (\<exists>xs bad ys. sids = xs @ bad # ys \<and> list_all (registry_is_optimization_eligible registry_new) xs \<and>
         \<not> registry_is_optimization_eligible registry_new bad \<and>
         vr_reason (validate_batch (validator_new b) sids) =
           ''syscall '' @ dec_string (unat bad) @ '' is not eligible for batching''))"
proof -
  have eq: "registry_is_optimization_eligible registry_new x = is_optimization_eligible classifier_new x" for x
    unfolding eligible_iff registry_eligible_iff registry_safety_table classify_table by auto
  have "\<exists>xs bad ys. sids = xs @ bad # ys \<and> list_all (is_optimization_eligible classifier_new) xs \<and>
         \<not> is_optimization_eligible classifier_new bad \<and>
         vr_reason (validate_batch (validator_new b) sids) =
           ''syscall '' @ dec_string (unat bad) @ '' is not eligible for batching''"
    if "\<not> list_all (is_optimization_eligible classifier_new) sids"
  proof -
    have "\<exists>x \<in> set sids. \<not> is_optimization_eligible classifier_new x"
      using that by (auto simp: list_all_iff)
    from split_list_first_prop [OF this] obtain xs bad ys
      where sp: "sids = xs @ bad # ys" "\<not> is_optimization_eligible classifier_new bad"
        "\<forall>x \<in> set xs. is_optimization_eligible classifier_new x" by blast
    then have "validate_batch (validator_new b) sids =
        reject Batch (''syscall '' @ dec_string (unat bad) @ '' is not eligible for batching'')"
      using validate_batch_reject [of xs "validator_new b" bad ys] by simp
    then show ?thesis
      using sp by (intro exI [of _ xs] exI [of _ bad] exI [of _ ys]) (simp add: list_all_iff)
  qed
  then show ?thesis
    by (simp add: eq validate_cache_approved_iff validate_dedup_approved_iff
        validate_batch_approved_iff list_all_iff)
qed

theorem validator_gate_witness:
  "\<not> vr_approved (validate_batch (validator_new True) [SOL_SHA256, SOL_INVOKE_SIGNED]) \<and>
   (\<exists>xs bad ys. [SOL_SHA256, SOL_INVOKE_SIGNED] = xs @ bad # ys \<and>
      vr_reason (validate_batch (validator_new True) [SOL_SHA256, SOL_INVOKE_SIGNED]) =
        ''syscall '' @ dec_string (unat bad) @ '' is not eligible for batching'')"
proof -
  have no: "\<not> vr_approved (validate_batch (validator_new True) [SOL_SHA256, SOL_INVOKE_SIGNED])"
    by (simp add: validate_batch_approved_iff eligible_iff classify_table syscall_ids)
  then show ?thesis
    using validator_gate [of SOL_SHA256 True "[SOL_SHA256, SOL_INVOKE_SIGNED]"] by blast
qed

text \<open>The execution of a sequence: every event with its result, and the final state.\<close>

fun exec_seq :: "('s \<Rightarrow> trace_event \<Rightarrow> 'r \<times> 's) \<Rightarrow> 's \<Rightarrow> trace_event list \<Rightarrow>
    (trace_event \<times> 'r) list \<times> 's" where
  "exec_seq exec s [] = ([], s)"
| "exec_seq exec s (e # es) =
     (let (r, s') = exec s e; (rs, s'') = exec_seq exec s' es in ((e, r) # rs, s''))"

lemma exec_seq_readonly:
  assumes "\<forall>s. \<forall>e \<in> set es. snd (exec s e) = s"
  shows "exec_seq exec s es = (map (\<lambda>e. (e, fst (exec s e))) es, s)"
  using assms by (induction es) (auto simp: case_prod_unfold Let_def)

text \<open>
  C10.  Safety of an approved reordering, for any meaning \<open>exec\<close> of the syscalls under which the
  read-only class is right (a read-only syscall leaves the state as it is, as the documentation
  of the safety classes says): every permutation of an approved sequence ends in the same state,
  and every event has the same result as in the original order.
\<close>

theorem reorder_preserves_results:
  assumes readonly: "\<And>s e. classify classifier_new (ev_syscall_id e) = ReadOnly \<Longrightarrow> snd (exec s e) = s"
    and approved: "vr_approved (validate_reorder v seq)"
    and perm: "mset seq' = mset seq"
  shows "snd (exec_seq exec s seq') = snd (exec_seq exec s seq) \<and>
    mset (fst (exec_seq exec s seq')) = mset (fst (exec_seq exec s seq))"
proof -
  have ro: "\<forall>s. \<forall>e \<in> set seq. snd (exec s e) = s"
    using approved readonly by (simp add: validate_reorder_approved_iff)
  moreover have "set seq' = set seq" using perm by (rule mset_eq_setD)
  ultimately show ?thesis
    using perm by (simp add: exec_seq_readonly)
qed

definition sample_exec :: "nat \<Rightarrow> trace_event \<Rightarrow> nat \<times> nat" where
  "sample_exec s e =
     (case classify classifier_new (ev_syscall_id e) of ReadOnly \<Rightarrow> (s, s) | _ \<Rightarrow> (s, Suc s))"

definition sample_read :: "syscall_id \<Rightarrow> trace_event" where
  "sample_read sid = \<lparr>ev_program_id = zero_pubkey, ev_syscall_id = sid, ev_args_hash = 0,
     ev_timestamp_ns = 0, ev_slot = 1, ev_transaction_id = zero_tx_id, ev_depth = 0\<rparr>"

theorem reorder_preserves_results_witness:
  "snd (exec_seq sample_exec 5 [sample_read SOL_GET_RENT_SYSVAR, sample_read SOL_GET_CLOCK_SYSVAR]) =
   snd (exec_seq sample_exec 5 [sample_read SOL_GET_CLOCK_SYSVAR, sample_read SOL_GET_RENT_SYSVAR])"
proof -
  let ?a = "sample_read SOL_GET_CLOCK_SYSVAR" and ?b = "sample_read SOL_GET_RENT_SYSVAR"
  have readonly: "snd (sample_exec s e) = s"
    if "classify classifier_new (ev_syscall_id e) = ReadOnly" for s e
    using that by (simp add: sample_exec_def)
  have approved: "vr_approved (validate_reorder (validator_new True) [?a, ?b])"
    by (simp add: validate_reorder_approved_iff classify_table sample_read_def syscall_ids)
  have perm: "mset [?b, ?a] = mset [?a, ?b]" by simp
  show ?thesis
    using reorder_preserves_results [of sample_exec, OF readonly approved perm] by (rule conjunct1)
qed

end
