(* ===== verification/DedupTable.thy ===== *)
theory DedupTable
  imports Common
begin

text \<open>
  The deduplication table of the optimizer, \<open>src/optimizer/src/dedup.rs\<close>: results of syscalls
  already made in a transaction.
\<close>

type_synonym dedup_key = "transaction_id \<times> syscall_id \<times> args_hash"

record dedup_table =
  dt_table :: "(dedup_key, bytes) fmap"
  dt_dedup_count :: u64

definition dedup_new :: dedup_table where
  "dedup_new = \<lparr>dt_table = fmempty, dt_dedup_count = 0\<rparr>"

definition dedup_default :: dedup_table where
  "dedup_default = dedup_new"

definition dedup_check :: "dedup_table \<Rightarrow> transaction_id \<Rightarrow> syscall_id \<Rightarrow> args_hash \<Rightarrow> bytes option" where
  "dedup_check t tx_id sid h = fmlookup (dt_table t) (tx_id, sid, h)"

definition dedup_record ::
  "dedup_table \<Rightarrow> transaction_id \<Rightarrow> syscall_id \<Rightarrow> args_hash \<Rightarrow> bytes \<Rightarrow> dedup_table" where
  "dedup_record t tx_id sid h result = t\<lparr>dt_table := fmupd (tx_id, sid, h) result (dt_table t)\<rparr>"

definition dedup_check_and_count ::
  "profile \<Rightarrow> dedup_table \<Rightarrow> transaction_id \<Rightarrow> syscall_id \<Rightarrow> args_hash \<Rightarrow> (bytes option \<times> dedup_table) res" where
  "dedup_check_and_count p t tx_id sid h =
     (case fmlookup (dt_table t) (tx_id, sid, h) of
        Some cached \<Rightarrow>
          res_bind (add_u64 p (dt_dedup_count t) 1) (\<lambda>n. Inr (Some cached, t\<lparr>dt_dedup_count := n\<rparr>))
      | None \<Rightarrow> Inr (None, t))"

definition dedup_clear_transaction :: "dedup_table \<Rightarrow> transaction_id \<Rightarrow> dedup_table" where
  "dedup_clear_transaction t tx_id =
     t\<lparr>dt_table := fmfilter (\<lambda>(tx, _, _). tx \<noteq> tx_id) (dt_table t)\<rparr>"

definition dedup_count :: "dedup_table \<Rightarrow> u64" where
  "dedup_count t = dt_dedup_count t"

definition dedup_len :: "dedup_table \<Rightarrow> nat" where
  "dedup_len t = hm_len (dt_table t)"

definition dedup_is_empty :: "dedup_table \<Rightarrow> bool" where
  "dedup_is_empty t \<longleftrightarrow> dt_table t = fmempty"

section \<open>Runs and their specification\<close>

datatype dedup_op =
    Record transaction_id syscall_id args_hash bytes
  | CheckAndCount transaction_id syscall_id args_hash
  | ClearTransaction transaction_id

fun dedup_run :: "profile \<Rightarrow> dedup_op list \<Rightarrow> dedup_table \<Rightarrow> (bytes option list \<times> dedup_table) res" where
  "dedup_run p [] t = Inr ([], t)"
| "dedup_run p (Record tx sid h r # os) t = dedup_run p os (dedup_record t tx sid h r)"
| "dedup_run p (ClearTransaction tx # os) t = dedup_run p os (dedup_clear_transaction t tx)"
| "dedup_run p (CheckAndCount tx sid h # os) t =
     res_bind (dedup_check_and_count p t tx sid h) (\<lambda>(a, t').
       res_bind (dedup_run p os t') (\<lambda>(as, t''). Inr (a # as, t'')))"

text \<open>
  What is known of a call, given the operations of its own transaction, the latest first: the
  result recorded last, unless the transaction was cleared since.  The operations of other
  transactions are dropped before.
\<close>

fun op_transaction :: "dedup_op \<Rightarrow> transaction_id" where
  "op_transaction (Record tx sid h r) = tx"
| "op_transaction (CheckAndCount tx sid h) = tx"
| "op_transaction (ClearTransaction tx) = tx"

fun latest_result :: "dedup_op list \<Rightarrow> syscall_id \<Rightarrow> args_hash \<Rightarrow> bytes option" where
  "latest_result [] sid h = None"
| "latest_result (Record tx sid' h' r # past) sid h =
     (if sid' = sid \<and> h' = h then Some r else latest_result past sid h)"
| "latest_result (CheckAndCount tx sid' h' # past) sid h = latest_result past sid h"
| "latest_result (ClearTransaction tx # past) sid h = None"

definition known :: "dedup_op list \<Rightarrow> transaction_id \<Rightarrow> syscall_id \<Rightarrow> args_hash \<Rightarrow> bytes option" where
  "known past tx = latest_result (filter (\<lambda>a. op_transaction a = tx) past)"

fun known_answers :: "dedup_op list \<Rightarrow> dedup_op list \<Rightarrow> bytes option list" where
  "known_answers past [] = []"
| "known_answers past (CheckAndCount tx sid h # os) =
     known past tx sid h # known_answers (CheckAndCount tx sid h # past) os"
| "known_answers past (a # os) = known_answers (a # past) os"

definition holds :: "dedup_op list \<Rightarrow> dedup_table \<Rightarrow> bool" where
  "holds past t \<longleftrightarrow> (\<forall>tx sid h. dedup_check t tx sid h = known past tx sid h)"

lemma holds_step:
  assumes "holds past t"
  shows "holds (Record tx sid h r # past) (dedup_record t tx sid h r)"
    and "holds (ClearTransaction tx # past) (dedup_clear_transaction t tx)"
    and "holds (CheckAndCount tx sid h # past) t"
    and "holds (CheckAndCount tx sid h # past) (t\<lparr>dt_dedup_count := n\<rparr>)"
  using assms by (auto simp: holds_def known_def dedup_check_def dedup_record_def dedup_clear_transaction_def)

lemma known_answers_length: "length (known_answers past os) \<le> length os"
  by (induction past os rule: known_answers.induct) auto

lemma dedup_run_known:
  assumes "holds past t" and "dt_dedup_count t = of_nat n" and "p = Release \<or> n + length os < 2 ^ 64"
  shows "\<exists>t'. dedup_run p os t = Inr (known_answers past os, t') \<and> holds (rev os @ past) t' \<and>
    dedup_count t' = of_nat (n + length (filter (\<lambda>a. a \<noteq> None) (known_answers past os)))"
  using assms
proof (induction os arbitrary: past t n)
  case Nil
  then show ?case by (simp add: dedup_count_def)
next
  case (Cons a os)
  have lt: "p = Release \<or> n + length os < 2 ^ 64" "p = Release \<or> Suc n + length os < 2 ^ 64"
    using Cons.prems(3) by auto
  show ?case
  proof (cases a)
    case (Record tx sid h r)
    then show ?thesis
      using Cons.IH [OF holds_step(1) [OF Cons.prems(1)], of tx sid h r n] Cons.prems(2) lt(1)
      by (simp add: dedup_record_def)
  next
    case (ClearTransaction tx)
    then show ?thesis
      using Cons.IH [OF holds_step(2) [OF Cons.prems(1)], of tx n] Cons.prems(2) lt(1)
      by (simp add: dedup_clear_transaction_def)
  next
    case (CheckAndCount tx sid h)
    note step = holds_step(3,4) [OF Cons.prems(1), of tx sid h]
    have look: "fmlookup (dt_table t) (tx, sid, h) = known past tx sid h"
      using Cons.prems(1) by (simp add: holds_def dedup_check_def)
    show ?thesis
    proof (cases "known past tx sid h")
      case None
      then show ?thesis
        using Cons.IH [OF step(1), of n] lt(1) look None Cons.prems(2)
        by (auto simp: CheckAndCount dedup_check_and_count_def)
    next
      case (Some r)
      have "add_u64 p (dt_dedup_count t) 1 = Inr (of_nat (Suc n))"
        using Cons.prems(2,3) add_u64_of_nat_Suc [of n p] by auto
      then show ?thesis
        using Cons.IH [OF step(2) [of "of_nat (Suc n)"], of "Suc n"] lt(2) look Some
        by (auto simp: CheckAndCount dedup_check_and_count_def)
    qed
  qed
qed

section \<open>Properties\<close>

text \<open>
  C19.  Deduplication, for every sequence of operations from the new table: each
  \<open>check_and_count\<close> returns the result that its own transaction recorded last for that syscall
  and argument hash since the transaction was last cleared, and nothing if there is none; the
  operations of other transactions have no influence.  The counter is the number of hits, and
  with fewer than \<open>2 ^ 64\<close> operations nothing panics in any build.
\<close>

theorem dedup_correct:
  assumes "p = Release \<or> length os < 2 ^ 64"
  shows "\<exists>t. dedup_run p os dedup_new = Inr (known_answers [] os, t) \<and>
    (\<forall>tx sid h. dedup_check t tx sid h = known (rev os) tx sid h) \<and>
    dedup_count t = of_nat (length (filter (\<lambda>a. a \<noteq> None) (known_answers [] os)))"
proof -
  have "holds [] dedup_new" by (simp add: holds_def known_def dedup_check_def dedup_new_def)
  then show ?thesis
    using dedup_run_known [of "[]" dedup_new 0 p os] assms by (auto simp: dedup_new_def holds_def)
qed

definition sample_dedup :: "dedup_op list" where
  "sample_dedup = [Record [0] 20 7 [0xDE], CheckAndCount [1] 20 7, CheckAndCount [0] 20 7,
     ClearTransaction [1], CheckAndCount [0] 20 7, ClearTransaction [0], CheckAndCount [0] 20 7]"

theorem dedup_correct_witness:
  "\<exists>t. dedup_run Debug sample_dedup dedup_new = Inr ([None, Some [0xDE], Some [0xDE], None], t) \<and> dedup_count t = 2"
proof -
  have "Debug = Release \<or> length sample_dedup < 2 ^ 64" by (simp add: sample_dedup_def)
  from dedup_correct [OF this] show ?thesis
    by (simp add: sample_dedup_def known_def) blast
qed

end
