(* ===== verification/LruInterface.thy ===== *)
theory LruInterface
  imports Prelude
begin

text \<open>
  The LRU cache of the crate \<open>lru\<close>, which is not part of the repository.  The sysvar cache takes
  its operations as a record; the locale \<open>lru_cache\<close> states what the crate's documentation
  promises of them, in terms of \<open>iter\<close>, which visits the entries in most recently used order.
  A reference cache, a list kept in that order, satisfies the promises.
\<close>

record ('c, 'k, 'v) lru_ops =
  lru_new :: "nat \<Rightarrow> 'c"
  lru_put :: "'c \<Rightarrow> 'k \<Rightarrow> 'v \<Rightarrow> 'c"
  lru_peek :: "'c \<Rightarrow> 'k \<Rightarrow> 'v option"
  lru_get :: "'c \<Rightarrow> 'k \<Rightarrow> 'c \<times> 'v option"
  lru_pop :: "'c \<Rightarrow> 'k \<Rightarrow> 'c"
  lru_iter :: "'c \<Rightarrow> ('k \<times> 'v) list"
  lru_len :: "'c \<Rightarrow> nat"
  lru_is_empty :: "'c \<Rightarrow> bool"

text \<open>The entries without the one of key \<open>k\<close>.\<close>

definition without :: "'k \<Rightarrow> ('k \<times> 'v) list \<Rightarrow> ('k \<times> 'v) list" where
  "without k es = filter (\<lambda>p. fst p \<noteq> k) es"

locale lru_cache =
  fixes ops :: "('c, 'k, 'v) lru_ops"
    and wf :: "'c \<Rightarrow> bool"
    and cap :: "'c \<Rightarrow> nat"
  assumes new_law: "0 < n \<Longrightarrow> wf (lru_new ops n) \<and> cap (lru_new ops n) = n \<and> lru_iter ops (lru_new ops n) = []"
    and entries_law: "wf c \<Longrightarrow> distinct (map fst (lru_iter ops c)) \<and> length (lru_iter ops c) \<le> cap c"
    and put_law: "wf c \<Longrightarrow> wf (lru_put ops c k v) \<and> cap (lru_put ops c k v) = cap c \<and>
          lru_iter ops (lru_put ops c k v) =
            (let rest = without k (lru_iter ops c)
             in (k, v) # (if length rest = cap c then butlast rest else rest))"
    and peek_law: "wf c \<Longrightarrow> lru_peek ops c k = map_of (lru_iter ops c) k"
    and get_law: "wf c \<Longrightarrow> lru_get ops c k = (c', r) \<Longrightarrow>
          wf c' \<and> cap c' = cap c \<and> r = map_of (lru_iter ops c) k \<and>
          lru_iter ops c' = (case map_of (lru_iter ops c) k of
             None \<Rightarrow> lru_iter ops c | Some v \<Rightarrow> (k, v) # without k (lru_iter ops c))"
    and pop_law: "wf c \<Longrightarrow> wf (lru_pop ops c k) \<and> cap (lru_pop ops c k) = cap c \<and>
          lru_iter ops (lru_pop ops c k) = without k (lru_iter ops c)"
    and len_law: "wf c \<Longrightarrow> lru_len ops c = length (lru_iter ops c)"
    and is_empty_law: "wf c \<Longrightarrow> lru_is_empty ops c = (lru_iter ops c = [])"

section \<open>Association lists in use order\<close>

lemma map_of_without [simp]: "map_of (without k es) k' = (if k' = k then None else map_of es k')"
  by (induction es) (auto simp: without_def)

lemma set_without: "set (without k es) = {p \<in> set es. fst p \<noteq> k}"
  by (auto simp: without_def)

lemma map_of_butlast_SomeD:
  "distinct (map fst es) \<Longrightarrow> map_of (butlast es) k = Some v \<Longrightarrow> map_of es k = Some v"
  by (auto simp: map_butlast distinct_butlast dest: in_set_butlastD)

lemma distinct_without: "distinct (map fst es) \<Longrightarrow> distinct (map fst (without k es))"
  by (simp add: without_def distinct_map_filter)

lemma length_without_le: "length (without k es) \<le> length es"
  by (simp add: without_def)

lemma without_append [simp]:
  "without k (xs @ ys) = without k xs @ without k ys"
  "without k (p # ys) = (if fst p = k then without k ys else p # without k ys)"
  by (simp_all add: without_def)

text \<open>
  Retention: an entry with fewer than \<open>n\<close> other keys used since it was put in front stays when
  yet another key comes in.
\<close>

lemma front_put:
  assumes es: "es = pre @ (k, r) # post" "distinct (map fst es)" "length es \<le> n"
    and K: "fst ` set pre \<subseteq> K" "finite K" "card (insert k' K) < n" and neq: "k' \<noteq> k"
  shows "\<exists>pre' post'. (k', v) # (if length (without k' es) = n then butlast (without k' es) else without k' es)
      = pre' @ (k, r) # post' \<and> fst ` set pre' \<subseteq> insert k' K"
proof -
  let ?pre = "without k' pre" and ?post = "without k' post"
  have w: "without k' es = ?pre @ (k, r) # ?post" using neq by (simp add: es(1))
  have sub: "fst ` set ?pre \<subseteq> K - {k'}" using K(1) by (auto simp: set_without)
  have len: "length ?pre = card (fst ` set ?pre)"
    using es(1,2) distinct_without [of pre k'] distinct_card [of "map fst ?pre"] by simp
  have "length (without k' es) = n \<Longrightarrow> ?post \<noteq> []"
  proof
    assume full: "length (without k' es) = n" "?post = []"
    have "length ?pre \<le> card (K - {k'})" using card_mono [OF _ sub] K(2) len by simp
    also have "Suc (card (K - {k'})) = card (insert k' K)"
      using K(2) by (simp add: card.insert_remove)
    finally show False using full K(3) w by simp
  qed
  then have eq: "(if length (without k' es) = n then butlast (without k' es) else without k' es) =
      ?pre @ (k, r) # (if length (without k' es) = n then butlast ?post else ?post)"
    by (simp add: w butlast_append)
  have "fst ` set ((k', v) # ?pre) \<subseteq> insert k' K" using sub by auto
  moreover have "(k', v) # ?pre @ (k, r) # post' = ((k', v) # ?pre) @ (k, r) # post'" for post' by simp
  ultimately show ?thesis unfolding eq by blast
qed

section \<open>The reference cache\<close>

record ('k, 'v) ref_lru =
  rl_entries :: "('k \<times> 'v) list"
  rl_cap :: nat

definition ref_lru_ops :: "(('k, 'v) ref_lru, 'k, 'v) lru_ops" where
  "ref_lru_ops = \<lparr>
     lru_new = (\<lambda>n. \<lparr>rl_entries = [], rl_cap = n\<rparr>),
     lru_put = (\<lambda>c k v. let rest = without k (rl_entries c)
                        in c\<lparr>rl_entries := (k, v) # (if length rest = rl_cap c then butlast rest else rest)\<rparr>),
     lru_peek = (\<lambda>c k. map_of (rl_entries c) k),
     lru_get = (\<lambda>c k. case map_of (rl_entries c) k of
                        None \<Rightarrow> (c, None)
                      | Some v \<Rightarrow> (c\<lparr>rl_entries := (k, v) # without k (rl_entries c)\<rparr>, Some v)),
     lru_pop = (\<lambda>c k. c\<lparr>rl_entries := without k (rl_entries c)\<rparr>),
     lru_iter = rl_entries,
     lru_len = (\<lambda>c. length (rl_entries c)),
     lru_is_empty = (\<lambda>c. rl_entries c = [])\<rparr>"

definition ref_lru_wf :: "('k, 'v) ref_lru \<Rightarrow> bool" where
  "ref_lru_wf c \<longleftrightarrow> distinct (map fst (rl_entries c)) \<and> length (rl_entries c) \<le> rl_cap c \<and> 0 < rl_cap c"

lemma fst_notin_butlast: "x \<notin> set xs \<Longrightarrow> x \<notin> set (butlast xs)"
  by (meson in_set_butlastD)

lemma key_notin_without: "k \<notin> fst ` set (without k es)"
  by (auto simp: without_def)

lemma length_without_lt: "map_of es k = Some v \<Longrightarrow> length (without k es) < length es"
  unfolding without_def by (rule length_filter_less [OF map_of_SomeD]) auto

lemma ref_lru_iter: "lru_iter ref_lru_ops c = rl_entries c"
  by (simp add: ref_lru_ops_def)

lemma ref_lru_put_wf:
  assumes "ref_lru_wf c"
  shows "ref_lru_wf (lru_put ref_lru_ops c k v)"
proof -
  let ?rest = "without k (rl_entries c)"
  have le: "length ?rest \<le> rl_cap c"
    using assms length_without_le [of k "rl_entries c"] by (simp add: ref_lru_wf_def)
  have d: "distinct (map fst ?rest)" using assms by (simp add: ref_lru_wf_def distinct_without)
  then have "distinct (map fst (butlast ?rest))" by (simp add: map_butlast distinct_butlast)
  moreover have "k \<notin> fst ` set (butlast ?rest)"
    using key_notin_without [of k "rl_entries c"] by (auto dest: in_set_butlastD)
  ultimately show ?thesis
    using assms le d key_notin_without [of k "rl_entries c"]
    by (auto simp: ref_lru_ops_def ref_lru_wf_def Let_def)
qed

lemma ref_lru_get_law:
  assumes wf: "ref_lru_wf c" and g: "lru_get ref_lru_ops c k = (c', r)"
  shows "ref_lru_wf c' \<and> rl_cap c' = rl_cap c \<and> r = map_of (rl_entries c) k \<and>
    rl_entries c' = (case map_of (rl_entries c) k of
       None \<Rightarrow> rl_entries c | Some v \<Rightarrow> (k, v) # without k (rl_entries c))"
proof (cases "map_of (rl_entries c) k")
  case None
  then have "c' = c \<and> r = None" using g by (simp add: ref_lru_ops_def)
  then show ?thesis using wf None by simp
next
  case (Some v)
  let ?c = "c\<lparr>rl_entries := (k, v) # without k (rl_entries c)\<rparr>"
  have eqs: "c' = ?c" "r = Some v"
    using g by (simp_all add: ref_lru_ops_def Some del: map_of_eq_Some_iff)
  have "length (without k (rl_entries c)) < rl_cap c"
    using length_without_lt [OF Some] wf by (simp add: ref_lru_wf_def)
  then have "ref_lru_wf ?c"
    using wf key_notin_without [of k "rl_entries c"] by (simp add: ref_lru_wf_def distinct_without)
  then show ?thesis unfolding eqs Some by simp
qed

interpretation ref_lru: lru_cache ref_lru_ops ref_lru_wf rl_cap
proof
  fix c c' :: "('a, 'b) ref_lru" and k v r and n :: nat
  show "0 < n \<Longrightarrow> ref_lru_wf (lru_new ref_lru_ops n :: ('a, 'b) ref_lru) \<and>
      rl_cap (lru_new ref_lru_ops n :: ('a, 'b) ref_lru) = n \<and>
      lru_iter ref_lru_ops (lru_new ref_lru_ops n :: ('a, 'b) ref_lru) = []"
    by (simp add: ref_lru_ops_def ref_lru_wf_def)
  assume wf: "ref_lru_wf c"
  show "distinct (map fst (lru_iter ref_lru_ops c)) \<and> length (lru_iter ref_lru_ops c) \<le> rl_cap c"
    using wf by (simp add: ref_lru_ops_def ref_lru_wf_def)
  show "ref_lru_wf (lru_put ref_lru_ops c k v) \<and> rl_cap (lru_put ref_lru_ops c k v) = rl_cap c \<and>
      lru_iter ref_lru_ops (lru_put ref_lru_ops c k v) =
        (let rest = without k (lru_iter ref_lru_ops c)
         in (k, v) # (if length rest = rl_cap c then butlast rest else rest))"
    using ref_lru_put_wf [OF wf] by (simp add: Let_def) (simp add: ref_lru_ops_def Let_def)
  show "lru_get ref_lru_ops c k = (c', r) \<Longrightarrow> ref_lru_wf c' \<and> rl_cap c' = rl_cap c \<and>
      r = map_of (lru_iter ref_lru_ops c) k \<and>
      lru_iter ref_lru_ops c' = (case map_of (lru_iter ref_lru_ops c) k of
         None \<Rightarrow> lru_iter ref_lru_ops c | Some v \<Rightarrow> (k, v) # without k (lru_iter ref_lru_ops c))"
    unfolding ref_lru_iter by (rule ref_lru_get_law [OF wf])
  show "ref_lru_wf (lru_pop ref_lru_ops c k) \<and> rl_cap (lru_pop ref_lru_ops c k) = rl_cap c \<and>
      lru_iter ref_lru_ops (lru_pop ref_lru_ops c k) = without k (lru_iter ref_lru_ops c)"
    using wf le_trans [OF length_without_le [of k "rl_entries c"]]
    by (simp add: ref_lru_ops_def ref_lru_wf_def distinct_without)
  show "lru_peek ref_lru_ops c k = map_of (lru_iter ref_lru_ops c) k"
    "lru_len ref_lru_ops c = length (lru_iter ref_lru_ops c)"
    "lru_is_empty ref_lru_ops c = (lru_iter ref_lru_ops c = [])"
    by (simp_all add: ref_lru_ops_def)
qed

end
