(* ===== verification/SysvarCache.thy ===== *)
theory SysvarCache
  imports Common LruInterface
begin

text \<open>
  The sysvar cache of the optimizer, \<open>src/optimizer/src/cache.rs\<close>.  The LRU cache of the crate
  \<open>lru\<close> is a parameter (\<open>LruInterface\<close>).  The epoch and the slot are cells that the cache shares
  with its owner (\<open>Arc<AtomicU64>\<close>); their current values are fields, and the owner's stores are
  operations of a run.
\<close>

section \<open>The cache\<close>

record cached_result =
  cr_data :: bytes
  cr_epoch :: u64
  cr_cached_at_slot :: u64

datatype invalidation_policy = EpochBound | Permanent | Slot

type_synonym lru_key = "syscall_id \<times> args_hash"

record 'c sysvar_cache =
  sc_inner :: 'c
  sc_current_epoch :: u64
  sc_current_slot :: u64
  sc_invalidation_map :: "syscall_id \<rightharpoonup> invalidation_policy"
  sc_hits :: u64
  sc_misses :: u64

definition invalidation_table :: "syscall_id \<rightharpoonup> invalidation_policy" where
  "invalidation_table =
     Map.empty(SOL_GET_CLOCK_SYSVAR \<mapsto> EpochBound,
               SOL_GET_RENT_SYSVAR \<mapsto> EpochBound,
               SOL_GET_EPOCH_SCHEDULE_SYSVAR \<mapsto> EpochBound,
               SOL_GET_FEES_SYSVAR \<mapsto> EpochBound,
               SOL_GET_SLOT_HASHES_SYSVAR \<mapsto> Slot,
               SOL_SHA256 \<mapsto> Permanent,
               SOL_KECCAK256 \<mapsto> Permanent,
               SOL_SECP256K1_RECOVER \<mapsto> Permanent,
               SOL_ED25519_VERIFY \<mapsto> Permanent)"

definition cache_new ::
  "('c, lru_key, cached_result) lru_ops \<Rightarrow> nat \<Rightarrow> u64 \<Rightarrow> u64 \<Rightarrow> 'c sysvar_cache" where
  "cache_new ops capacity epoch slot =
     (let cap = max capacity 1
      in \<lparr>sc_inner = lru_new ops cap, sc_current_epoch = epoch, sc_current_slot = slot,
          sc_invalidation_map = invalidation_table, sc_hits = 0, sc_misses = 0\<rparr>)"

definition cache_insert ::
  "('c, lru_key, cached_result) lru_ops \<Rightarrow> 'c sysvar_cache \<Rightarrow> cache_key \<Rightarrow> cached_result \<Rightarrow> 'c sysvar_cache" where
  "cache_insert ops c key result =
     c\<lparr>sc_inner := lru_put ops (sc_inner c) (ck_syscall_id key, ck_args_hash key) result\<rparr>"

definition cache_get ::
  "('c, lru_key, cached_result) lru_ops \<Rightarrow> 'c sysvar_cache \<Rightarrow> cache_key \<Rightarrow>
   'c sysvar_cache \<times> cached_result option" where
  "cache_get ops c key =
     (let policy = (case sc_invalidation_map c (ck_syscall_id key) of None \<Rightarrow> EpochBound | Some p \<Rightarrow> p);
          current_epoch = sc_current_epoch c;
          current_slot = sc_current_slot c;
          k = (ck_syscall_id key, ck_args_hash key);
          miss = (\<lambda>c. (c\<lparr>sc_misses := sc_misses c + 1\<rparr>, None))
      in case lru_peek ops (sc_inner c) k of
           Some entry \<Rightarrow>
             (let valid = (case policy of
                  Permanent \<Rightarrow> True
                | EpochBound \<Rightarrow> cr_epoch entry = current_epoch
                | Slot \<Rightarrow> cr_cached_at_slot entry = current_slot)
              in if valid
                 then (let c1 = c\<lparr>sc_hits := sc_hits c + 1\<rparr>;
                           (inner, r) = lru_get ops (sc_inner c1) k
                       in (c1\<lparr>sc_inner := inner\<rparr>, r))
                 else miss (c\<lparr>sc_inner := lru_pop ops (sc_inner c) k\<rparr>))
         | None \<Rightarrow> miss c)"

definition cache_invalidate_slot :: "('c, lru_key, cached_result) lru_ops \<Rightarrow> 'c sysvar_cache \<Rightarrow> 'c sysvar_cache" where
  "cache_invalidate_slot ops c =
     (let current_slot = sc_current_slot c;
          to_remove = map fst (filter
            (\<lambda>((sid, _), entry). sc_invalidation_map c sid = Some Slot \<and> cr_cached_at_slot entry \<noteq> current_slot)
            (lru_iter ops (sc_inner c)))
      in c\<lparr>sc_inner := foldl (lru_pop ops) (sc_inner c) to_remove\<rparr>)"

definition cache_invalidate_epoch :: "('c, lru_key, cached_result) lru_ops \<Rightarrow> 'c sysvar_cache \<Rightarrow> 'c sysvar_cache" where
  "cache_invalidate_epoch ops c =
     (let current_epoch = sc_current_epoch c;
          to_remove = map fst (filter
            (\<lambda>((sid, _), entry). sc_invalidation_map c sid = Some EpochBound \<and> cr_epoch entry \<noteq> current_epoch)
            (lru_iter ops (sc_inner c)))
      in c\<lparr>sc_inner := foldl (lru_pop ops) (sc_inner c) to_remove\<rparr>)"

definition cache_stats :: "'c sysvar_cache \<Rightarrow> u64 \<times> u64" where
  "cache_stats c = (sc_hits c, sc_misses c)"

definition cache_len :: "('c, lru_key, cached_result) lru_ops \<Rightarrow> 'c sysvar_cache \<Rightarrow> nat" where
  "cache_len ops c = lru_len ops (sc_inner c)"

definition cache_is_empty :: "('c, lru_key, cached_result) lru_ops \<Rightarrow> 'c sysvar_cache \<Rightarrow> bool" where
  "cache_is_empty ops c = lru_is_empty ops (sc_inner c)"

section \<open>Runs\<close>

datatype cache_op =
    Insert cache_key cached_result
  | Get cache_key
  | InvalidateSlot
  | InvalidateEpoch
  | StoreEpoch u64
  | StoreSlot u64

fun cache_op_run ::
  "('c, lru_key, cached_result) lru_ops \<Rightarrow> 'c sysvar_cache \<Rightarrow> cache_op \<Rightarrow>
   'c sysvar_cache \<times> cached_result option" where
  "cache_op_run ops c (Insert k r) = (cache_insert ops c k r, None)"
| "cache_op_run ops c (Get k) = cache_get ops c k"
| "cache_op_run ops c InvalidateSlot = (cache_invalidate_slot ops c, None)"
| "cache_op_run ops c InvalidateEpoch = (cache_invalidate_epoch ops c, None)"
| "cache_op_run ops c (StoreEpoch e) = (c\<lparr>sc_current_epoch := e\<rparr>, None)"
| "cache_op_run ops c (StoreSlot s) = (c\<lparr>sc_current_slot := s\<rparr>, None)"

definition cache_run ::
  "('c, lru_key, cached_result) lru_ops \<Rightarrow> 'c sysvar_cache \<Rightarrow> cache_op list \<Rightarrow> 'c sysvar_cache" where
  "cache_run ops c as = foldl (\<lambda>c a. fst (cache_op_run ops c a)) c as"

lemma cache_run_simps [simp]:
  "cache_run ops c [] = c"
  "cache_run ops c (as @ [a]) = fst (cache_op_run ops (cache_run ops c as) a)"
  by (simp_all add: cache_run_def)

text \<open>What a run says of the values: the result of the last insert of a key, and the epoch and slot.\<close>

definition lru_key_of :: "cache_key \<Rightarrow> lru_key" where
  "lru_key_of key = (ck_syscall_id key, ck_args_hash key)"

fun inserted :: "cache_op list \<Rightarrow> (lru_key \<times> cached_result) list" where
  "inserted [] = []"
| "inserted (Insert key r # as) = (lru_key_of key, r) # inserted as"
| "inserted (_ # as) = inserted as"

definition last_inserted :: "cache_op list \<Rightarrow> lru_key \<rightharpoonup> cached_result" where
  "last_inserted as = map_of (rev (inserted as))"

definition fresh :: "u64 \<Rightarrow> u64 \<Rightarrow> syscall_id \<Rightarrow> cached_result \<Rightarrow> bool" where
  "fresh epoch slot sid r =
     (case invalidation_table sid of
        Some Permanent \<Rightarrow> True
      | Some Slot \<Rightarrow> cr_cached_at_slot r = slot
      | _ \<Rightarrow> cr_epoch r = epoch)"

text \<open>The answers of the gets of a run, and the epoch and slot after it.\<close>

fun cache_answers ::
  "('c, lru_key, cached_result) lru_ops \<Rightarrow> 'c sysvar_cache \<Rightarrow> cache_op list \<Rightarrow> cached_result option list" where
  "cache_answers ops c [] = []"
| "cache_answers ops c (a # as) =
     (let (c', out) = cache_op_run ops c a
      in (case a of Get _ \<Rightarrow> [out] | _ \<Rightarrow> []) @ cache_answers ops c' as)"

fun env_after :: "u64 \<times> u64 \<Rightarrow> cache_op list \<Rightarrow> u64 \<times> u64" where
  "env_after env [] = env"
| "env_after env (StoreEpoch e # as) = env_after (e, snd env) as"
| "env_after env (StoreSlot s # as) = env_after (fst env, s) as"
| "env_after env (_ # as) = env_after env as"

text \<open>Operations other than invalidations, and the keys that a run works on.\<close>

fun quiet_op :: "cache_op \<Rightarrow> bool" where
  "quiet_op InvalidateSlot = False"
| "quiet_op InvalidateEpoch = False"
| "quiet_op _ = True"

fun touched :: "cache_op list \<Rightarrow> lru_key list" where
  "touched [] = []"
| "touched (Insert key r # as) = lru_key_of key # touched as"
| "touched (Get key # as) = lru_key_of key # touched as"
| "touched (_ # as) = touched as"

lemma touched_append [simp]: "touched (as @ bs) = touched as @ touched bs"
  by (induction as rule: touched.induct) auto

lemma env_after_append [simp]: "env_after env (as @ bs) = env_after (env_after env as) bs"
  by (induction env as rule: env_after.induct) auto

text \<open>
  A run in which the time goes forward: no store sets the epoch or the slot back, and no result is
  inserted with stamps of the future.
\<close>

fun time_forward :: "u64 \<times> u64 \<Rightarrow> cache_op list \<Rightarrow> bool" where
  "time_forward env [] = True"
| "time_forward env (Insert key r # as) =
     (cr_epoch r \<le> fst env \<and> cr_cached_at_slot r \<le> snd env \<and> time_forward env as)"
| "time_forward env (StoreEpoch e # as) = (fst env \<le> e \<and> time_forward (e, snd env) as)"
| "time_forward env (StoreSlot s # as) = (snd env \<le> s \<and> time_forward (fst env, s) as)"
| "time_forward env (_ # as) = time_forward env as"

lemma time_forward_append [simp]:
  "time_forward env (as @ bs) \<longleftrightarrow> time_forward env as \<and> time_forward (env_after env as) bs"
  by (induction env as rule: time_forward.induct) auto

lemma time_forward_le:
  "time_forward env as \<Longrightarrow> fst env \<le> fst (env_after env as) \<and> snd env \<le> snd (env_after env as)"
proof (induction env as rule: time_forward.induct)
  case (3 env e as)
  then show ?case by (auto intro: order_trans)
next
  case (4 env s as)
  then show ?case by (auto intro: order_trans)
qed simp_all

lemma cache_answers_snoc [simp]:
  "cache_answers ops c (as @ [a]) =
     cache_answers ops c as @ (case a of Get _ \<Rightarrow> [snd (cache_op_run ops (cache_run ops c as) a)] | _ \<Rightarrow> [])"
  by (induction as arbitrary: c)
    (auto simp: cache_run_def split_def Let_def split: cache_op.splits)

lemma inserted_append [simp]: "inserted (xs @ ys) = inserted xs @ inserted ys"
  by (induction xs rule: inserted.induct) auto

lemma cache_insert_lru:
  "cache_insert ops c key r = c\<lparr>sc_inner := lru_put ops (sc_inner c) (lru_key_of key) r\<rparr>"
  by (simp add: cache_insert_def lru_key_of_def)

lemma last_inserted_snoc [simp]:
  "last_inserted (as @ [Insert key r]) = (last_inserted as)(lru_key_of key \<mapsto> r)"
  "last_inserted (as @ [Get key]) = last_inserted as"
  "last_inserted (as @ [InvalidateSlot]) = last_inserted as"
  "last_inserted (as @ [InvalidateEpoch]) = last_inserted as"
  "last_inserted (as @ [StoreEpoch e]) = last_inserted as"
  "last_inserted (as @ [StoreSlot s]) = last_inserted as"
  by (simp_all add: last_inserted_def)

text \<open>The sweeps leave no trace in what a run says of the values.\<close>

lemma inserted_quiet [simp]: "inserted (filter quiet_op as) = inserted as"
  by (induction as rule: inserted.induct) auto

lemma last_inserted_quiet [simp]: "last_inserted (filter quiet_op as) = last_inserted as"
  by (simp add: last_inserted_def)

lemma env_after_quiet [simp]: "env_after env (filter quiet_op as) = env_after env as"
  by (induction env as rule: env_after.induct) auto

lemma time_forward_quiet [simp]: "time_forward env (filter quiet_op as) = time_forward env as"
  by (induction env as rule: time_forward.induct) auto

lemma last_inserted_mem: "last_inserted as k = Some r \<Longrightarrow> (k, r) \<in> set (inserted as)"
  unfolding last_inserted_def using map_of_SomeD [of "rev (inserted as)" k r] by simp

text \<open>When the time goes forward, an inserted result is never from the future, and stale is stale forever.\<close>

lemma inserted_stamps:
  "time_forward env as \<Longrightarrow> (k, r) \<in> set (inserted as) \<Longrightarrow>
   cr_epoch r \<le> fst (env_after env as) \<and> cr_cached_at_slot r \<le> snd (env_after env as)"
proof (induction env as rule: time_forward.induct)
  case (2 env key r as)
  then show ?case using time_forward_le [of env as] by (auto intro: order_trans)
qed auto

lemma fresh_earlier:
  assumes "fresh epoch' slot' sid r" "epoch \<le> epoch'" "slot \<le> slot'" "cr_epoch r \<le> epoch" "cr_cached_at_slot r \<le> slot"
  shows "fresh epoch slot sid r"
  using assms by (auto simp: fresh_def split: option.splits invalidation_policy.splits)

section \<open>The cache on any LRU cache that keeps its promises\<close>

lemma map_of_filter_fst [simp]:
  "map_of (filter (\<lambda>p. fst p \<notin> S) es) k = (if k \<in> S then None else map_of es k)"
  by (induction es) auto

lemma Some_fresh_iff:
  "(case (case invalidation_table sid of None \<Rightarrow> EpochBound | Some p \<Rightarrow> p) of
      Permanent \<Rightarrow> True | EpochBound \<Rightarrow> cr_epoch r = epoch | Slot \<Rightarrow> cr_cached_at_slot r = slot) =
   fresh epoch slot sid r"
  by (simp add: fresh_def split: option.split invalidation_policy.split)

locale sysvar_lru = lru_cache ops wf cap
  for ops :: "('c, syscall_id \<times> args_hash, cached_result) lru_ops"
    and wf :: "'c \<Rightarrow> bool"
    and cap :: "'c \<Rightarrow> nat"
begin

lemma pop_all:
  "wf c \<Longrightarrow> wf (foldl (lru_pop ops) c ks) \<and> cap (foldl (lru_pop ops) c ks) = cap c \<and>
     lru_iter ops (foldl (lru_pop ops) c ks) = filter (\<lambda>p. fst p \<notin> set ks) (lru_iter ops c)"
proof (induction ks arbitrary: c)
  case Nil
  then show ?case by simp
next
  case (Cons k ks)
  note pop = pop_law [OF Cons.prems, of k]
  have "filter (\<lambda>p. fst p \<notin> set ks) (without k es) = filter (\<lambda>p. fst p \<notin> set (k # ks)) es"
    for es :: "(lru_key \<times> cached_result) list"
    by (induction es) (auto simp: without_def)
  then show ?case
    using Cons.IH [OF pop [THEN conjunct1]] pop by simp
qed

lemma put_entries:
  assumes "wf c"
  shows "map_of (lru_iter ops (lru_put ops c k v)) k = Some v"
    and "k' \<noteq> k \<Longrightarrow> map_of (lru_iter ops (lru_put ops c k v)) k' = Some v' \<Longrightarrow>
      map_of (lru_iter ops c) k' = Some v'"
proof -
  have d: "distinct (map fst (without k (lru_iter ops c)))"
    by (rule distinct_without [OF entries_law [OF assms, THEN conjunct1]])
  show "map_of (lru_iter ops (lru_put ops c k v)) k = Some v"
    using put_law [OF assms, of k v] by (simp add: Let_def)
  show "map_of (lru_iter ops (lru_put ops c k v)) k' = Some v' \<Longrightarrow>
      map_of (lru_iter ops c) k' = Some v'" if "k' \<noteq> k"
    using put_law [OF assms, of k v] map_of_butlast_SomeD [OF d, of k' v'] that
    by (auto simp: Let_def simp del: map_of_eq_Some_iff split: if_splits)
qed

text \<open>What \<open>get\<close> does to the entries, the counters and its answer, on every branch.\<close>

lemma get_branches:
  assumes c: "wf (sc_inner c)" "sc_invalidation_map c = invalidation_table"
    and g: "cache_get ops c key = (c', out)"
  shows "case map_of (lru_iter ops (sc_inner c)) (lru_key_of key) of
      None \<Rightarrow> out = None \<and> c' = c\<lparr>sc_misses := sc_misses c + 1\<rparr>
    | Some r \<Rightarrow>
        if fresh (sc_current_epoch c) (sc_current_slot c) (ck_syscall_id key) r
        then out = Some r \<and>
             (\<exists>i. c' = c\<lparr>sc_hits := sc_hits c + 1, sc_inner := i\<rparr> \<and> wf i \<and> cap i = cap (sc_inner c) \<and>
               lru_iter ops i = (lru_key_of key, r) # without (lru_key_of key) (lru_iter ops (sc_inner c)))
        else out = None \<and>
             (\<exists>i. c' = c\<lparr>sc_inner := i, sc_misses := sc_misses c + 1\<rparr> \<and> wf i \<and> cap i = cap (sc_inner c) \<and>
               lru_iter ops i = without (lru_key_of key) (lru_iter ops (sc_inner c)))"
proof (cases "map_of (lru_iter ops (sc_inner c)) (lru_key_of key)")
  case None
  then show ?thesis
    using g by (auto simp: cache_get_def peek_law [OF c(1)] lru_key_of_def Let_def simp del: map_of_eq_None_iff)
next
  case (Some r)
  have peek: "lru_peek ops (sc_inner c) (ck_syscall_id key, ck_args_hash key) = Some r"
    using Some by (simp add: peek_law [OF c(1)] lru_key_of_def del: map_of_eq_Some_iff)
  obtain i o' where i: "lru_get ops (sc_inner c) (lru_key_of key) = (i, o')" by force
  show ?thesis
  proof (cases "fresh (sc_current_epoch c) (sc_current_slot c) (ck_syscall_id key) r")
    case True
    have "out = o' \<and> c' = c\<lparr>sc_hits := sc_hits c + 1, sc_inner := i\<rparr>"
      using g peek True i by (simp add: cache_get_def c(2) Some_fresh_iff Let_def lru_key_of_def)
    moreover have "wf i \<and> cap i = cap (sc_inner c) \<and> o' = Some r \<and>
        lru_iter ops i = (lru_key_of key, r) # without (lru_key_of key) (lru_iter ops (sc_inner c))"
      using get_law [OF c(1) i] unfolding Some by simp
    ultimately show ?thesis unfolding Some using True by auto
  next
    case False
    then have "out = None \<and> c' = c\<lparr>sc_inner := lru_pop ops (sc_inner c) (lru_key_of key),
        sc_misses := sc_misses c + 1\<rparr>"
      using g peek by (auto simp: cache_get_def c(2) Some_fresh_iff Let_def lru_key_of_def)
    then show ?thesis unfolding Some using False pop_law [OF c(1), of "lru_key_of key"] by auto
  qed
qed

lemma get_answer:
  assumes "wf (sc_inner c)" "sc_invalidation_map c = invalidation_table"
  shows "snd (cache_get ops c key) =
    (case map_of (lru_iter ops (sc_inner c)) (lru_key_of key) of
       None \<Rightarrow> None
     | Some r \<Rightarrow> if fresh (sc_current_epoch c) (sc_current_slot c) (ck_syscall_id key) r
                 then Some r else None)"
proof -
  obtain c' out where "cache_get ops c key = (c', out)" by force
  from get_branches [OF assms this] this show ?thesis
    by (auto split: option.splits if_splits simp del: map_of_eq_Some_iff map_of_eq_None_iff)
qed


definition run_inv :: "nat \<Rightarrow> u64 \<Rightarrow> u64 \<Rightarrow> cache_op list \<Rightarrow> 'c sysvar_cache \<Rightarrow> bool" where
  "run_inv n epoch slot as c \<longleftrightarrow>
     wf (sc_inner c) \<and> cap (sc_inner c) = max n 1 \<and>
     sc_invalidation_map c = invalidation_table \<and>
     (sc_current_epoch c, sc_current_slot c) = env_after (epoch, slot) as \<and>
     (\<forall>k r. map_of (lru_iter ops (sc_inner c)) k = Some r \<longrightarrow> last_inserted as k = Some r)"

text \<open>The sweep that both invalidations make: the entries that satisfy \<open>Q\<close> go, the others stay.\<close>

lemma sweep:
  fixes Q :: "lru_key \<times> cached_result \<Rightarrow> bool"
  assumes "wf i"
  defines "i' \<equiv> foldl (lru_pop ops) i (map fst (filter Q (lru_iter ops i)))"
  shows "wf i'" "cap i' = cap i"
    and "map_of (lru_iter ops i') k =
      (case map_of (lru_iter ops i) k of None \<Rightarrow> None | Some r \<Rightarrow> if Q (k, r) then None else Some r)"
proof -
  let ?es = "lru_iter ops i"
  show "wf i'" "cap i' = cap i"
    using pop_all [OF assms(1)] by (simp_all add: i'_def)
  have "map_of (lru_iter ops i') k = (if k \<in> set (map fst (filter Q ?es)) then None else map_of ?es k)"
    using pop_all [OF assms(1)] by (simp add: i'_def del: set_map set_filter)
  moreover have "k \<in> set (map fst (filter Q ?es)) \<longleftrightarrow> (\<exists>r. map_of ?es k = Some r \<and> Q (k, r))"
    using entries_law [OF assms(1)] by force
  ultimately show "map_of (lru_iter ops i') k =
      (case map_of ?es k of None \<Rightarrow> None | Some r \<Rightarrow> if Q (k, r) then None else Some r)"
    by (auto simp del: map_of_eq_Some_iff map_of_eq_None_iff split: option.split)
qed

lemma run_inv_step:
  assumes inv: "run_inv n epoch slot as c"
  shows "run_inv n epoch slot (as @ [a]) (fst (cache_op_run ops c a))"
proof (cases a)
  case (Insert key r)
  have w: "wf (sc_inner c)" using inv by (simp add: run_inv_def)
  have "last_inserted (as @ [a]) k' = Some r'"
    if "map_of (lru_iter ops (lru_put ops (sc_inner c) (lru_key_of key) r)) k' = Some r'" for k' r'
  proof (cases "k' = lru_key_of key")
    case True
    then show ?thesis using that put_entries(1) [OF w] by (simp add: Insert del: map_of_eq_Some_iff)
  next
    case False
    then show ?thesis
      using put_entries(2) [OF w False that] inv
      by (simp add: Insert run_inv_def del: map_of_eq_Some_iff split_paired_All)
  qed
  then show ?thesis
    using inv put_law [OF w, of "lru_key_of key" r]
    by (simp add: Insert run_inv_def cache_insert_def lru_key_of_def del: map_of_eq_Some_iff)
next
  case (Get key)
  obtain c' out where g: "cache_get ops c key = (c', out)" by force
  have c: "wf (sc_inner c)" "sc_invalidation_map c = invalidation_table"
    using inv by (simp_all add: run_inv_def)
  show ?thesis
    using get_branches [OF c g] inv g
    by (auto simp: Get run_inv_def simp del: map_of_eq_Some_iff map_of_eq_None_iff split_paired_All
        split: option.splits if_splits)
next
  case InvalidateSlot
  have w: "wf (sc_inner c)" using inv by (simp add: run_inv_def)
  show ?thesis
    using inv sweep [OF w] by (auto simp: InvalidateSlot run_inv_def cache_invalidate_slot_def Let_def
        simp del: map_of_eq_Some_iff split_paired_All split: option.splits if_splits)
next
  case InvalidateEpoch
  have w: "wf (sc_inner c)" using inv by (simp add: run_inv_def)
  show ?thesis
    using inv sweep [OF w] by (auto simp: InvalidateEpoch run_inv_def cache_invalidate_epoch_def Let_def
        simp del: map_of_eq_Some_iff split_paired_All split: option.splits if_splits)
next
  case (StoreEpoch e)
  then show ?thesis using inv by (cases "env_after (epoch, slot) as") (simp add: run_inv_def)
next
  case (StoreSlot s)
  then show ?thesis using inv by (cases "env_after (epoch, slot) as") (simp add: run_inv_def)
qed

lemma run_inv_run: "run_inv n epoch slot as (cache_run ops (cache_new ops n epoch slot) as)"
proof (induction as rule: rev_induct)
  case Nil
  then show ?case
    using new_law [of "max n 1"] by (simp add: run_inv_def cache_new_def Let_def)
next
  case (snoc a as)
  then show ?case using run_inv_step by simp
qed


lemma run_get_sound:
  assumes "snd (cache_get ops (cache_run ops (cache_new ops n epoch slot) as) key) = Some r"
  shows "last_inserted as (lru_key_of key) = Some r"
    and "fresh (fst (env_after (epoch, slot) as)) (snd (env_after (epoch, slot) as)) (ck_syscall_id key) r"
proof -
  let ?c = "cache_run ops (cache_new ops n epoch slot) as"
  note inv = run_inv_run [of n epoch slot as, unfolded run_inv_def]
  have e: "sc_current_epoch ?c = fst (env_after (epoch, slot) as)"
    "sc_current_slot ?c = snd (env_after (epoch, slot) as)"
    using inv by (metis fst_conv, metis snd_conv)
  have ans: "map_of (lru_iter ops (sc_inner ?c)) (lru_key_of key) = Some r"
    "fresh (sc_current_epoch ?c) (sc_current_slot ?c) (ck_syscall_id key) r"
    using assms inv by (simp_all add: get_answer split: option.splits if_splits
        del: map_of_eq_Some_iff map_of_eq_None_iff)
  then show "fresh (fst (env_after (epoch, slot) as)) (snd (env_after (epoch, slot) as)) (ck_syscall_id key) r"
    by (simp add: e)
  show "last_inserted as (lru_key_of key) = Some r" using inv ans(1) by blast
qed

lemma run_len: "cache_len ops (cache_run ops (cache_new ops n epoch slot) as) \<le> max n 1"
  using run_inv_run [of n epoch slot as] entries_law len_law
  by (fastforce simp: run_inv_def cache_len_def)

lemma run_counters:
  "sc_hits (cache_run ops (cache_new ops n epoch slot) as) =
     of_nat (length (filter (\<lambda>o'. o' \<noteq> None) (cache_answers ops (cache_new ops n epoch slot) as))) \<and>
   sc_misses (cache_run ops (cache_new ops n epoch slot) as) =
     of_nat (length (filter (\<lambda>o'. o' = None) (cache_answers ops (cache_new ops n epoch slot) as)))"
proof (induction as rule: rev_induct)
  case Nil
  show ?case by (simp add: cache_new_def Let_def)
next
  case (snoc a as)
  let ?c = "cache_run ops (cache_new ops n epoch slot) as"
  have inv: "wf (sc_inner ?c)" "sc_invalidation_map ?c = invalidation_table"
    using run_inv_run [of n epoch slot as] by (simp_all add: run_inv_def)
  show ?case
  proof (cases a)
    case (Get key)
    obtain c' out where g: "cache_get ops ?c key = (c', out)" by force
    show ?thesis
      using snoc get_branches [OF inv g] g
      by (auto simp: Get simp del: map_of_eq_Some_iff map_of_eq_None_iff split: option.splits if_splits)
  qed (use snoc in \<open>simp_all add: cache_insert_def cache_invalidate_slot_def
      cache_invalidate_epoch_def Let_def\<close>)
qed

lemma invalidate_transparent:
  assumes w: "wf (sc_inner c)" and t: "sc_invalidation_map c = invalidation_table"
  shows "snd (cache_get ops (cache_invalidate_slot ops c) key) = snd (cache_get ops c key)"
    and "snd (cache_get ops (cache_invalidate_epoch ops c) key) = snd (cache_get ops c key)"
proof -
  show "snd (cache_get ops (cache_invalidate_slot ops c) key) = snd (cache_get ops c key)"
    using sweep [OF w] t
    by (subst (1 2) get_answer) (auto simp: w cache_invalidate_slot_def lru_key_of_def fresh_def Let_def
        simp del: map_of_eq_Some_iff map_of_eq_None_iff split: option.splits invalidation_policy.splits)
  show "snd (cache_get ops (cache_invalidate_epoch ops c) key) = snd (cache_get ops c key)"
    using sweep [OF w] t
    by (subst (1 2) get_answer) (auto simp: w cache_invalidate_epoch_def lru_key_of_def fresh_def Let_def
        simp del: map_of_eq_Some_iff map_of_eq_None_iff split: option.splits invalidation_policy.splits)
qed

text \<open>
  Retention: the entry \<open>(k, r)\<close> is behind entries of the keys \<open>K\<close> only.  The operations \<open>bs\<close> after
  an insert of \<open>key\<close> work on other keys and do not invalidate.
\<close>

definition kept :: "lru_key \<Rightarrow> cached_result \<Rightarrow> lru_key set \<Rightarrow> 'c \<Rightarrow> bool" where
  "kept k r K i \<longleftrightarrow> (\<exists>pre post. lru_iter ops i = pre @ (k, r) # post \<and> fst ` set pre \<subseteq> K)"

lemma kept_put:
  assumes "kept k r K i" "wf i" "finite K" "card (insert k' K) < cap i" "k' \<noteq> k"
  shows "kept k r (insert k' K) (lru_put ops i k' v)"
proof -
  obtain pre post where it: "lru_iter ops i = pre @ (k, r) # post" and pre: "fst ` set pre \<subseteq> K"
    using assms(1) by (auto simp: kept_def)
  show ?thesis
    unfolding kept_def put_law [OF assms(2), of k' v, THEN conjunct2, THEN conjunct2, unfolded Let_def]
    using front_put [OF it _ _ pre assms(3-5), of v] entries_law [OF assms(2)] by blast
qed

lemma kept_get:
  assumes kept: "kept k r K (sc_inner c)" and c: "wf (sc_inner c)" "sc_invalidation_map c = invalidation_table"
    and neq: "lru_key_of key \<noteq> k"
  shows "kept k r (insert (lru_key_of key) K) (sc_inner (fst (cache_get ops c key)))"
proof -
  let ?k = "lru_key_of key"
  obtain pre post where it: "lru_iter ops (sc_inner c) = pre @ (k, r) # post" and pre: "fst ` set pre \<subseteq> K"
    using kept by (auto simp: kept_def)
  obtain c' out where g: "cache_get ops c key = (c', out)" by force
  have w: "without ?k (lru_iter ops (sc_inner c)) = without ?k pre @ (k, r) # without ?k post"
    using neq by (simp add: it)
  have sub: "fst ` set (without ?k pre) \<subseteq> insert ?k K" using pre by (auto simp: set_without)
  consider "lru_iter ops (sc_inner c') = pre @ (k, r) # post"
    | "lru_iter ops (sc_inner c') = without ?k pre @ (k, r) # without ?k post"
    | v where "lru_iter ops (sc_inner c') = ((?k, v) # without ?k pre) @ (k, r) # without ?k post"
    using get_branches [OF c g] it w by (auto split: option.splits if_splits
        simp del: map_of_eq_Some_iff map_of_eq_None_iff)
  then show ?thesis
  proof cases
    case 1
    with pre show ?thesis unfolding kept_def g fst_conv by blast
  next
    case 2
    with sub show ?thesis unfolding kept_def g fst_conv by blast
  next
    case 3
    moreover have "fst ` set ((?k, v) # without ?k pre) \<subseteq> insert ?k K" using sub by auto
    ultimately show ?thesis unfolding kept_def g fst_conv by blast
  qed
qed

lemma run_retains:
  assumes quiet: "list_all quiet_op bs" and other: "lru_key_of key \<notin> set (touched bs)"
    and few: "card (set (touched bs)) < max n 1"
  shows "kept (lru_key_of key) r (set (touched bs))
      (sc_inner (cache_run ops (cache_new ops n epoch slot) (as @ [Insert key r] @ bs)))"
  using assms
proof (induction bs rule: rev_induct)
  case Nil
  let ?c = "cache_run ops (cache_new ops n epoch slot) as"
  have "wf (sc_inner ?c)" using run_inv_run by (simp add: run_inv_def)
  then show ?case
    using put_law [of "sc_inner ?c" "lru_key_of key" r]
    by (auto simp: kept_def cache_insert_def lru_key_of_def Let_def intro: exI [of _ "[]"])
next
  case (snoc b bs)
  define c where "c = cache_run ops (cache_new ops n epoch slot) (as @ [Insert key r] @ bs)"
  have "card (set (touched bs)) \<le> card (set (touched (bs @ [b])))" by (auto intro!: card_mono)
  with snoc have kept: "kept (lru_key_of key) r (set (touched bs)) (sc_inner c)" by (simp add: c_def)
  have c: "wf (sc_inner c)" "sc_invalidation_map c = invalidation_table" "cap (sc_inner c) = max n 1"
    using run_inv_run [of n epoch slot "as @ [Insert key r] @ bs"] by (simp_all add: run_inv_def c_def)
  have run: "cache_run ops (cache_new ops n epoch slot) (as @ [Insert key r] @ bs @ [b]) =
      fst (cache_op_run ops c b)"
    using cache_run_simps(2) [of ops _ "as @ [Insert key r] @ bs" b] by (simp add: c_def)
  show ?case
  proof (cases b)
    case (Insert key' r')
    then show ?thesis
      unfolding run using kept_put [OF kept c(1), of "lru_key_of key'" r'] snoc.prems c(3)
      by (auto simp: cache_insert_lru)
  next
    case (Get key')
    then show ?thesis
      unfolding run using kept_get [OF kept c(1,2), of key'] snoc.prems by auto
  qed (use snoc.prems kept run in auto)
qed

lemma run_get_complete:
  assumes "list_all quiet_op bs" "lru_key_of key \<notin> set (touched bs)" "card (set (touched bs)) < max n 1"
    and fresh: "fresh (fst (env_after (epoch, slot) (as @ bs))) (snd (env_after (epoch, slot) (as @ bs)))
      (ck_syscall_id key) r"
  shows "snd (cache_get ops (cache_run ops (cache_new ops n epoch slot) (as @ [Insert key r] @ bs)) key) = Some r"
proof -
  define c where "c = cache_run ops (cache_new ops n epoch slot) (as @ [Insert key r] @ bs)"
  have c: "wf (sc_inner c)" "sc_invalidation_map c = invalidation_table"
    and env: "(sc_current_epoch c, sc_current_slot c) = env_after (epoch, slot) (as @ bs)"
    using run_inv_run [of n epoch slot "as @ [Insert key r] @ bs"] by (simp_all add: run_inv_def c_def)
  have e: "sc_current_epoch c = fst (env_after (epoch, slot) (as @ bs))"
    "sc_current_slot c = snd (env_after (epoch, slot) (as @ bs))"
    unfolding env [symmetric] by simp_all
  obtain pre post where "lru_iter ops (sc_inner c) = pre @ (lru_key_of key, r) # post"
    using run_retains [OF assms(1-3), where r = r and epoch = epoch and slot = slot and as = as]
    unfolding kept_def c_def by blast
  then have "map_of (lru_iter ops (sc_inner c)) (lru_key_of key) = Some r"
    using entries_law [OF c(1)] map_of_is_SomeI [of "lru_iter ops (sc_inner c)" "lru_key_of key" r]
    by (metis in_set_conv_decomp)
  then show ?thesis
    unfolding c_def [symmetric] get_answer [OF c] using fresh by (simp add: e del: map_of_eq_Some_iff)
qed

text \<open>
  A cache that is never full, in a run in which the time goes forward, answers exactly what was
  inserted last, if it is fresh.
\<close>

lemma keys_inserted:
  assumes "run_inv n epoch slot as c"
  shows "fst ` set (lru_iter ops (sc_inner c)) \<subseteq> fst ` set (inserted as)"
proof
  fix k assume "k \<in> fst ` set (lru_iter ops (sc_inner c))"
  then obtain r where "map_of (lru_iter ops (sc_inner c)) k = Some r"
    by (metis map_of_eq_None_iff not_None_eq)
  then have "last_inserted as k = Some r" using assms unfolding run_inv_def by blast
  from last_inserted_mem [OF this] show "k \<in> fst ` set (inserted as)" by (rule image_eqI [rotated]) simp
qed

lemma put_room:
  assumes "run_inv n epoch slot as c" "card (fst ` set (inserted (as @ [Insert key r]))) \<le> max n 1"
  shows "map_of (lru_iter ops (lru_put ops (sc_inner c) (lru_key_of key) v)) =
    (map_of (lru_iter ops (sc_inner c)))(lru_key_of key \<mapsto> v)"
proof -
  let ?k = "lru_key_of key" and ?es = "lru_iter ops (sc_inner c)"
  have c: "wf (sc_inner c)" "cap (sc_inner c) = max n 1" using assms(1) by (simp_all add: run_inv_def)
  have d: "distinct (map fst (without ?k ?es))"
    by (rule distinct_without [OF entries_law [OF c(1), THEN conjunct1]])
  have "insert ?k (fst ` set (without ?k ?es)) \<subseteq> fst ` set (inserted (as @ [Insert key r]))"
    using keys_inserted [OF assms(1)] by (auto simp: set_without)
  from card_mono [OF _ this] have "card (insert ?k (fst ` set (without ?k ?es))) \<le> max n 1"
    using le_trans [OF _ assms(2)] by simp
  moreover have "?k \<notin> fst ` set (without ?k ?es)" by (auto simp: set_without)
  moreover have "card (fst ` set (without ?k ?es)) = length (without ?k ?es)"
    using distinct_card [OF d] by simp
  ultimately have "length (without ?k ?es) \<noteq> cap (sc_inner c)" using c(2) by simp
  then show ?thesis using put_law [OF c(1), of ?k v] by (auto simp: Let_def fun_eq_iff)
qed

lemma run_holds_fresh:
  assumes "time_forward (epoch, slot) as" "card (fst ` set (inserted as)) \<le> max n 1"
    and "last_inserted as k = Some r"
    and "fresh (fst (env_after (epoch, slot) as)) (snd (env_after (epoch, slot) as)) (fst k) r"
  shows "map_of (lru_iter ops (sc_inner (cache_run ops (cache_new ops n epoch slot) as))) k = Some r"
  using assms
proof (induction as arbitrary: k r rule: rev_induct)
  case Nil
  then show ?case by (simp add: last_inserted_def)
next
  case (snoc a as)
  define c where "c = cache_run ops (cache_new ops n epoch slot) as"
  note inv = run_inv_run [of n epoch slot as, folded c_def]
  have w: "wf (sc_inner c)" "sc_invalidation_map c = invalidation_table"
    and env: "env_after (epoch, slot) as = (sc_current_epoch c, sc_current_slot c)"
    using inv by (simp_all add: run_inv_def)
  have "card (fst ` set (inserted as)) \<le> card (fst ` set (inserted (as @ [a])))"
    by (rule card_mono) auto
  then have few: "card (fst ` set (inserted as)) \<le> max n 1" using snoc.prems(2) by simp
  have held: "map_of (lru_iter ops (sc_inner c)) k' = Some r'"
    if "last_inserted as k' = Some r'" "fresh (sc_current_epoch c) (sc_current_slot c) (fst k') r'" for k' r'
    using snoc.IH [OF _ few that(1)] snoc.prems(1) that(2) by (simp add: env c_def)
  have before: "fresh (sc_current_epoch c) (sc_current_slot c) (fst k) r" if "last_inserted as k = Some r"
  proof (rule fresh_earlier [OF snoc.prems(4)])
    show "sc_current_epoch c \<le> fst (env_after (epoch, slot) (as @ [a]))"
      "sc_current_slot c \<le> snd (env_after (epoch, slot) (as @ [a]))"
      using snoc.prems(1) time_forward_le [of "(sc_current_epoch c, sc_current_slot c)" "[a]"]
      by (simp_all add: env)
    show "cr_epoch r \<le> sc_current_epoch c" "cr_cached_at_slot r \<le> sc_current_slot c"
      using inserted_stamps [OF _ last_inserted_mem [OF that], of "(epoch, slot)"] snoc.prems(1)
      by (simp_all add: env)
  qed
  show ?case
  proof (cases a)
    case (Insert key v)
    then have "map_of (lru_iter ops (lru_put ops (sc_inner c) (lru_key_of key) v)) =
        (map_of (lru_iter ops (sc_inner c)))(lru_key_of key \<mapsto> v)"
      using put_room [OF inv] snoc.prems(2) by blast
    then show ?thesis
      using snoc.prems(3) held [of k r] before
      by (auto simp: Insert c_def [symmetric] cache_insert_lru split: if_splits simp del: map_of_eq_Some_iff)
  next
    case (Get key)
    obtain c' out where g: "cache_get ops c key = (c', out)" by force
    have l: "last_inserted as k = Some r" using snoc.prems(3) by (simp add: Get)
    show ?thesis
      using get_branches [OF w g] held [OF l before [OF l]] before [OF l] g
      by (auto simp: Get c_def [symmetric] lru_key_of_def simp del: map_of_eq_Some_iff map_of_eq_None_iff
          split: option.splits if_splits)
  next
    case InvalidateSlot
    then show ?thesis
      using snoc.prems(3) held [of k r] before sweep(3) [OF w(1)] w(2)
      by (auto simp: c_def [symmetric] cache_invalidate_slot_def fresh_def Let_def split: option.splits prod.splits
          simp del: map_of_eq_Some_iff map_of_eq_None_iff)
  next
    case InvalidateEpoch
    then show ?thesis
      using snoc.prems(3) held [of k r] before sweep(3) [OF w(1)] w(2)
      by (auto simp: c_def [symmetric] cache_invalidate_epoch_def fresh_def Let_def split: option.splits prod.splits
          simp del: map_of_eq_Some_iff map_of_eq_None_iff)
  qed (use snoc.prems(3) held [of k r] before in \<open>simp_all add: c_def [symmetric] del: map_of_eq_Some_iff\<close>)
qed

lemma run_get_exact:
  assumes "time_forward (epoch, slot) as" "card (fst ` set (inserted as)) \<le> max n 1"
  shows "snd (cache_get ops (cache_run ops (cache_new ops n epoch slot) as) key) =
    (case last_inserted as (lru_key_of key) of
       None \<Rightarrow> None
     | Some r \<Rightarrow> if fresh (fst (env_after (epoch, slot) as)) (snd (env_after (epoch, slot) as)) (ck_syscall_id key) r
                 then Some r else None)"
proof -
  define c where "c = cache_run ops (cache_new ops n epoch slot) as"
  note inv = run_inv_run [of n epoch slot as, folded c_def, unfolded run_inv_def]
  have w: "wf (sc_inner c)" "sc_invalidation_map c = invalidation_table"
    and env: "env_after (epoch, slot) as = (sc_current_epoch c, sc_current_slot c)"
    using inv by simp_all
  have sound: "last_inserted as k = Some r" if "map_of (lru_iter ops (sc_inner c)) k = Some r" for k r
    using inv that by blast
  have held: "map_of (lru_iter ops (sc_inner c)) (lru_key_of key) = Some r"
    if "last_inserted as (lru_key_of key) = Some r" "fresh (sc_current_epoch c) (sc_current_slot c) (ck_syscall_id key) r" for r
    using run_holds_fresh [OF assms that(1)] that(2) by (simp add: env c_def lru_key_of_def)
  show ?thesis
    unfolding c_def [symmetric] get_answer [OF w] env
    using held sound [of "lru_key_of key"]
    by (cases "map_of (lru_iter ops (sc_inner c)) (lru_key_of key)"; cases "last_inserted as (lru_key_of key)")
      (fastforce simp del: map_of_eq_Some_iff map_of_eq_None_iff)+
qed

lemma answers_exact:
  assumes "time_forward (epoch, slot) as" "card (fst ` set (inserted as)) \<le> max n 1"
  shows "cache_answers ops (cache_new ops n epoch slot) as =
    cache_answers ops (cache_new ops n epoch slot) (filter quiet_op as)"
  using assms
proof (induction as rule: rev_induct)
  case (snoc a as)
  have "card (fst ` set (inserted as)) \<le> card (fst ` set (inserted (as @ [a])))"
    by (rule card_mono) auto
  then have few: "card (fst ` set (inserted as)) \<le> max n 1" and fwd: "time_forward (epoch, slot) as"
    using snoc.prems by simp_all
  have "snd (cache_get ops (cache_run ops (cache_new ops n epoch slot) as) key) =
      snd (cache_get ops (cache_run ops (cache_new ops n epoch slot) (filter quiet_op as)) key)" for key
    using run_get_exact [OF fwd few] run_get_exact [of epoch slot "filter quiet_op as" n] fwd few
    by (simp cong: option.case_cong)
  then show ?case using snoc.IH [OF fwd few] by (cases a) simp_all
qed simp

end

interpretation ref_sysvar: sysvar_lru ref_lru_ops ref_lru_wf rl_cap ..

section \<open>Properties\<close>

text \<open>
  C13.  A hit of the sysvar cache is right: after any run from a new cache, on any LRU cache that
  keeps its promises, the result \<open>get\<close> returns is the one inserted last under that key, and its
  stamp is valid under the invalidation policy of the syscall for the epoch and slot of the moment.
\<close>

theorem cache_get_sound:
  assumes "lru_cache ops ok cap"
    and "snd (cache_get ops (cache_run ops (cache_new ops n epoch slot) as) key) = Some r"
  shows "last_inserted as (lru_key_of key) = Some r \<and>
    fresh (fst (env_after (epoch, slot) as)) (snd (env_after (epoch, slot) as)) (ck_syscall_id key) r"
  using sysvar_lru.run_get_sound [OF sysvar_lru.intro [OF assms(1)] assms(2)] by blast

text \<open>
  C14.  Retention: a result is still there, and \<open>get\<close> returns it, as long as it is fresh, no
  invalidation ran and fewer distinct other keys than the capacity were inserted or looked up
  since it was inserted.
\<close>

theorem cache_get_complete:
  assumes "lru_cache ops ok cap"
    and "list_all quiet_op bs" and "lru_key_of key \<notin> set (touched bs)"
    and "card (set (touched bs)) < max n 1"
    and "fresh (fst (env_after (epoch, slot) (as @ bs))) (snd (env_after (epoch, slot) (as @ bs)))
      (ck_syscall_id key) r"
  shows "snd (cache_get ops (cache_run ops (cache_new ops n epoch slot) (as @ [Insert key r] @ bs)) key) = Some r"
  using sysvar_lru.run_get_complete [OF sysvar_lru.intro [OF assms(1)] assms(2-5)] .

text \<open>
  C15.  Accounting and bound: after any run the hit counter is the number of gets that returned a
  result and the miss counter the number that did not (modulo \<open>2 ^ 64\<close>), and the cache holds at
  most \<open>max capacity 1\<close> entries.
\<close>

theorem cache_accounting:
  assumes "lru_cache ops ok cap"
  shows "cache_stats (cache_run ops (cache_new ops n epoch slot) as) =
      (of_nat (length (filter (\<lambda>a. a \<noteq> None) (cache_answers ops (cache_new ops n epoch slot) as))),
       of_nat (length (filter (\<lambda>a. a = None) (cache_answers ops (cache_new ops n epoch slot) as)))) \<and>
    cache_len ops (cache_run ops (cache_new ops n epoch slot) as) \<le> max n 1"
  using sysvar_lru.run_counters [OF sysvar_lru.intro [OF assms], of n epoch slot as]
    sysvar_lru.run_len [OF sysvar_lru.intro [OF assms], of n epoch slot as]
  by (simp add: cache_stats_def)

text \<open>
  C16.  The sweeps \<open>invalidate_slot\<close> and \<open>invalidate_epoch\<close> are optimisations.  The first lookup after a
  sweep, at any moment of any run, is answered as without it, since \<open>get\<close> checks the policy itself.
  Over a whole run, with sweeps anywhere in it, every lookup is answered as in the run without the
  sweeps, provided that no more keys are inserted than the cache has room for, that the epoch and slot
  are never set back and that no result is inserted with stamps of the future.  The bound on the keys is
  needed: \<open>sweep_keeps_an_entry\<close> is a run in which a sweep makes room and so saves an entry.
\<close>

theorem cache_invalidate_transparent:
  assumes "lru_cache ops ok cap"
  shows "snd (cache_get ops (cache_run ops (cache_new ops n epoch slot) (as @ [InvalidateSlot])) key) =
      snd (cache_get ops (cache_run ops (cache_new ops n epoch slot) as) key) \<and>
    snd (cache_get ops (cache_run ops (cache_new ops n epoch slot) (as @ [InvalidateEpoch])) key) =
      snd (cache_get ops (cache_run ops (cache_new ops n epoch slot) as) key) \<and>
    (time_forward (epoch, slot) as \<and> card (fst ` set (inserted as)) \<le> max n 1 \<longrightarrow>
      cache_answers ops (cache_new ops n epoch slot) as =
        cache_answers ops (cache_new ops n epoch slot) (filter quiet_op as))"
proof -
  note loc = sysvar_lru.intro [OF assms]
  show ?thesis
    using sysvar_lru.run_inv_run [OF loc, of n epoch slot as] sysvar_lru.invalidate_transparent [OF loc]
      sysvar_lru.answers_exact [OF loc, of epoch slot as n]
    by (simp add: sysvar_lru.run_inv_def [OF loc])
qed

text \<open>Witnesses, on the reference LRU cache.\<close>

definition sample_ck :: cache_key where
  "sample_ck = \<lparr>ck_syscall_id = SOL_SHA256, ck_args_hash = 42\<rparr>"

definition sample_cr :: cached_result where
  "sample_cr = \<lparr>cr_data = [1, 2], cr_epoch = 1, cr_cached_at_slot = 10\<rparr>"

definition sample_clock :: cache_key where
  "sample_clock = \<lparr>ck_syscall_id = SOL_GET_CLOCK_SYSVAR, ck_args_hash = 1\<rparr>"

lemmas sample_cache_simps = ref_lru_ops_def cache_run_def cache_new_def cache_insert_def cache_get_def
  invalidation_table_def syscall_ids sample_ck_def sample_cr_def sample_clock_def Let_def without_def lru_key_of_def

theorem cache_get_sound_witness:
  "last_inserted [Insert sample_ck sample_cr, StoreEpoch 5] (lru_key_of sample_ck) = Some sample_cr \<and>
   fresh (fst (env_after (1, 10) [Insert sample_ck sample_cr, StoreEpoch 5]))
     (snd (env_after (1, 10) [Insert sample_ck sample_cr, StoreEpoch 5])) (ck_syscall_id sample_ck) sample_cr"
  by (rule cache_get_sound [of ref_lru_ops ref_lru_wf rl_cap 128 1 10
        "[Insert sample_ck sample_cr, StoreEpoch 5]" sample_ck sample_cr])
    (rule ref_lru.lru_cache_axioms, simp add: sample_cache_simps)

theorem cache_get_complete_witness:
  "snd (cache_get ref_lru_ops (cache_run ref_lru_ops (cache_new ref_lru_ops 2 1 10)
      ([] @ [Insert sample_clock sample_cr] @ [Get sample_ck, StoreSlot 11, Insert sample_ck sample_cr]))
      sample_clock) = Some sample_cr"
  by (rule cache_get_complete [of ref_lru_ops ref_lru_wf rl_cap
        "[Get sample_ck, StoreSlot 11, Insert sample_ck sample_cr]" sample_clock 2 1 10 "[]" sample_cr])
    (rule ref_lru.lru_cache_axioms, simp_all add: sample_cache_simps fresh_def)

theorem cache_accounting_witness:
  "cache_stats (cache_run ref_lru_ops (cache_new ref_lru_ops 128 1 10)
      [Get sample_ck, Insert sample_ck sample_cr, Get sample_ck]) = (1, 1)"
  using cache_accounting [of ref_lru_ops ref_lru_wf rl_cap 128 1 10
      "[Get sample_ck, Insert sample_ck sample_cr, Get sample_ck]", OF ref_lru.lru_cache_axioms]
  by (simp add: sample_cache_simps)

theorem cache_invalidate_transparent_witness:
  "cache_answers ref_lru_ops (cache_new ref_lru_ops 2 1 10)
     [Insert sample_clock sample_cr, Insert sample_ck sample_cr, StoreEpoch 2, InvalidateEpoch, Get sample_clock, Get sample_ck] =
     [None, Some sample_cr] \<and>
   snd (cache_get ref_lru_ops (cache_run ref_lru_ops (cache_new ref_lru_ops 128 1 10)
     ([Insert sample_clock sample_cr, StoreEpoch 2] @ [InvalidateEpoch])) sample_clock) = None"
proof
  let ?as = "[Insert sample_clock sample_cr, Insert sample_ck sample_cr, StoreEpoch 2, InvalidateEpoch,
    Get sample_clock, Get sample_ck]"
  have "card (fst ` set (inserted ?as)) \<le> max 2 1" by (simp add: card_insert_if)
  moreover have "time_forward (1, 10) ?as" by (simp add: sample_cr_def)
  ultimately have "cache_answers ref_lru_ops (cache_new ref_lru_ops 2 1 10) ?as =
      cache_answers ref_lru_ops (cache_new ref_lru_ops 2 1 10) (filter quiet_op ?as)"
    using cache_invalidate_transparent [OF ref_lru.lru_cache_axioms, of 2 1 10 ?as sample_ck] by blast
  also have "\<dots> = [None, Some sample_cr]" by (simp add: sample_cache_simps)
  finally show "cache_answers ref_lru_ops (cache_new ref_lru_ops 2 1 10) ?as = [None, Some sample_cr]" .
  show "snd (cache_get ref_lru_ops (cache_run ref_lru_ops (cache_new ref_lru_ops 128 1 10)
      ([Insert sample_clock sample_cr, StoreEpoch 2] @ [InvalidateEpoch])) sample_clock) = None"
    using cache_invalidate_transparent [OF ref_lru.lru_cache_axioms, of 128 1 10
        "[Insert sample_clock sample_cr, StoreEpoch 2]" sample_clock]
    by (simp add: sample_cache_simps)
qed

text \<open>Room for two: the sweep removes the stale slot hashes, so that the hash result is not evicted.\<close>

lemma sweep_keeps_an_entry:
  defines "hashes \<equiv> \<lparr>ck_syscall_id = SOL_GET_SLOT_HASHES_SYSVAR, ck_args_hash = 1\<rparr>"
  defines "before \<equiv> [Insert sample_ck sample_cr, Insert hashes sample_cr, StoreSlot 11]"
    and "later \<equiv> [Insert sample_clock sample_cr, Get sample_ck]"
  shows "cache_answers ref_lru_ops (cache_new ref_lru_ops 2 1 10) (before @ later) = [None]"
    and "cache_answers ref_lru_ops (cache_new ref_lru_ops 2 1 10) (before @ [InvalidateSlot] @ later) = [Some sample_cr]"
  by (simp_all add: assms sample_cache_simps cache_invalidate_slot_def)

end
