(* ===== verification/SafetyProofs.thy ===== *)
theory SafetyProofs
  imports Validator DedupTable SysvarCache
begin

text \<open>
  The two correctness arguments of \<open>src/docs/safety_proofs.md\<close>, about the components together: how
  old the result of a cache hit can be, and under which conditions deduplication within a transaction
  changes no result.  The meaning of the syscalls, which is not part of the repository, is an argument.
\<close>

section \<open>Caching\<close>

text \<open>
  The runs of a client that uses the cache as the document says: what it inserts is the value of the
  syscall at the moment, stamped with the epoch and slot of the moment, and these are never set back.
\<close>

fun honest :: "(syscall_id \<Rightarrow> args_hash \<Rightarrow> u64 \<Rightarrow> u64 \<Rightarrow> bytes) \<Rightarrow> u64 \<times> u64 \<Rightarrow> cache_op list \<Rightarrow> bool" where
  "honest value env [] = True"
| "honest value env (Insert key r # as) =
     (r = \<lparr>cr_data = value (ck_syscall_id key) (ck_args_hash key) (fst env) (snd env), cr_epoch = fst env,
           cr_cached_at_slot = snd env\<rparr> \<and> honest value env as)"
| "honest value env (StoreEpoch e # as) = (fst env \<le> e \<and> honest value (e, snd env) as)"
| "honest value env (StoreSlot s # as) = (snd env \<le> s \<and> honest value (fst env, s) as)"
| "honest value env (_ # as) = honest value env as"

lemma honest_append [simp]:
  "honest value env (as @ bs) \<longleftrightarrow> honest value env as \<and> honest value (env_after env as) bs"
  by (induction "value" env as rule: honest.induct) auto









text \<open>
  C18.  The slot-bound sysvars.  The architecture document (\<open>src/docs/architecture.md\<close>) says that the clock
  and the slot hashes are stale with every slot.  After any run let a fresh result of one of the two
  be inserted, the slot be changed and the slot invalidation run: the next lookup misses for the slot
  hashes, but for the clock it still hands out the result of the old slot, whatever LRU cache is used.
\<close>

theorem clock_outlives_slot:
  assumes "lru_cache ops ok cap"
    and "ck_syscall_id key \<in> {SOL_GET_CLOCK_SYSVAR, SOL_GET_SLOT_HASHES_SYSVAR}"
    and "(cr_epoch r, cr_cached_at_slot r) = env_after (epoch, slot) as" and "slot' \<noteq> cr_cached_at_slot r"
  shows "snd (cache_get ops (cache_run ops (cache_new ops n epoch slot)
      (as @ [Insert key r, StoreSlot slot', InvalidateSlot])) key) =
    (if ck_syscall_id key = SOL_GET_CLOCK_SYSVAR then Some r else None)"
proof -
  note loc = sysvar_lru.intro [OF assms(1)]
  let ?c = "cache_run ops (cache_new ops n epoch slot) (as @ [Insert key r] @ [StoreSlot slot'])"
  have env: "env_after (epoch, slot) (as @ [StoreSlot slot']) = (cr_epoch r, slot')"
    "env_after (epoch, slot) (as @ [Insert key r] @ [StoreSlot slot']) = (cr_epoch r, slot')"
    using assms(3) [symmetric] by simp_all
  have "snd (cache_get ops ?c key) = (if ck_syscall_id key = SOL_GET_CLOCK_SYSVAR then Some r else None)"
  proof (cases "ck_syscall_id key = SOL_GET_CLOCK_SYSVAR")
    case True
    then have "fresh (fst (env_after (epoch, slot) (as @ [StoreSlot slot'])))
        (snd (env_after (epoch, slot) (as @ [StoreSlot slot']))) (ck_syscall_id key) r"
      unfolding env by (simp add: fresh_def invalidation_table_def syscall_ids)
    from sysvar_lru.run_get_complete [OF loc _ _ _ this, of n] show ?thesis using True by simp
  next
    case False
    then have stale: "\<not> fresh (cr_epoch r) slot' (ck_syscall_id key) r"
      using assms(2,4) by (auto simp: fresh_def invalidation_table_def syscall_ids)
    have "last_inserted (as @ [Insert key r] @ [StoreSlot slot']) (lru_key_of key) = Some r"
      using last_inserted_snoc(5,6,1) [of "as @ [Insert key r]"] last_inserted_snoc(1) [of as key r] by simp
    then have "snd (cache_get ops ?c key) \<noteq> Some r'" for r'
      using sysvar_lru.run_get_sound [OF loc, of n epoch slot "as @ [Insert key r] @ [StoreSlot slot']" key r'] stale
      unfolding env by auto
    then show ?thesis using False by (cases "snd (cache_get ops ?c key)") auto
  qed
  moreover have "cache_run ops (cache_new ops n epoch slot) (as @ [Insert key r, StoreSlot slot', InvalidateSlot]) =
      cache_invalidate_slot ops ?c" by (simp add: cache_run_def)
  ultimately show ?thesis
    using sysvar_lru.run_inv_run [OF loc, of n epoch slot "as @ [Insert key r] @ [StoreSlot slot']"]
      sysvar_lru.invalidate_transparent(1) [OF loc, of ?c key]
    by (simp add: sysvar_lru.run_inv_def [OF loc])
qed

theorem clock_outlives_slot_witness:
  "snd (cache_get ref_lru_ops (cache_run ref_lru_ops (cache_new ref_lru_ops 4 1 10)
     [Insert sample_clock \<lparr>cr_data = [1], cr_epoch = 1, cr_cached_at_slot = 10\<rparr>, StoreSlot 11, InvalidateSlot]) sample_clock) =
   Some \<lparr>cr_data = [1], cr_epoch = 1, cr_cached_at_slot = 10\<rparr>"
  using clock_outlives_slot [OF ref_lru.lru_cache_axioms, of sample_clock "\<lparr>cr_data = [1], cr_epoch = 1, cr_cached_at_slot = 10\<rparr>"
      1 10 "[]" 11 4]
  by (simp add: sample_clock_def)

section \<open>Deduplication\<close>

text \<open>
  A transaction executed with deduplication as the document describes it: a syscall that the gate
  approves for deduplication is looked up first, and executed and recorded if it is not there.
\<close>

fun exec_direct :: "('s \<Rightarrow> trace_event \<Rightarrow> bytes \<times> 's) \<Rightarrow> 's \<Rightarrow> trace_event list \<Rightarrow> bytes list \<times> 's" where
  "exec_direct exec s [] = ([], s)"
| "exec_direct exec s (e # es) =
     (let (r, s1) = exec s e; (rs, s2) = exec_direct exec s1 es in (r # rs, s2))"

fun exec_dedup ::
  "profile \<Rightarrow> safety_validator \<Rightarrow> ('s \<Rightarrow> trace_event \<Rightarrow> bytes \<times> 's) \<Rightarrow> dedup_table \<Rightarrow> 's \<Rightarrow> trace_event list \<Rightarrow>
   (bytes list \<times> 's \<times> dedup_table) res" where
  "exec_dedup p v exec t s [] = Inr ([], s, t)"
| "exec_dedup p v exec t s (e # es) =
     (let tx = ev_transaction_id e; sid = ev_syscall_id e; h = ev_args_hash e in
      if vr_approved (validate_dedup v sid)
      then res_bind (dedup_check_and_count p t tx sid h) (\<lambda>(found, t1).
        case found of
          Some r \<Rightarrow> res_bind (exec_dedup p v exec t1 s es) (\<lambda>(rs, st). Inr (r # rs, st))
        | None \<Rightarrow>
            (let (r, s1) = exec s e
             in res_bind (exec_dedup p v exec (dedup_record t1 tx sid h r) s1 es) (\<lambda>(rs, st). Inr (r # rs, st))))
      else (let (r, s1) = exec s e
            in res_bind (exec_dedup p v exec t s1 es) (\<lambda>(rs, st). Inr (r # rs, st))))"

text \<open>
  What the document says of read-only and idempotent syscalls: they leave the state as it is, and
  their result is determined by the call (its transaction, number and arguments) and the state.
  The log is not part of the state here, as a logging syscall that is not repeated writes less.
\<close>

definition eligible :: "trace_event \<Rightarrow> bool" where
  "eligible e \<longleftrightarrow> is_optimization_eligible classifier_new (ev_syscall_id e)"

definition same_call :: "trace_event \<Rightarrow> trace_event \<Rightarrow> bool" where
  "same_call e e' \<longleftrightarrow> ev_transaction_id e = ev_transaction_id e' \<and> ev_syscall_id e = ev_syscall_id e' \<and>
     ev_args_hash e = ev_args_hash e'"

definition pure_reads :: "('s \<Rightarrow> trace_event \<Rightarrow> bytes \<times> 's) \<Rightarrow> bool" where
  "pure_reads exec \<longleftrightarrow> (\<forall>s e. eligible e \<longrightarrow> snd (exec s e) = s) \<and>
     (\<forall>s e e'. eligible e \<and> same_call e e' \<longrightarrow> fst (exec s e) = fst (exec s e'))"

lemma approved_eligible: "vr_approved (validate_dedup (validator_new b) (ev_syscall_id e)) \<longleftrightarrow> eligible e"
  by (simp add: validate_dedup_approved_iff eligible_def)


lemma res_bind_Pair_id:
  "res_bind r (\<lambda>(rs, st). Inr ([] @ rs, st)) = r" "res_bind r Inr = r"
  by (cases r; auto)+

lemma res_bind_assoc_Pair:
  "res_bind (res_bind r (\<lambda>(rs, st). Inr (us @ rs, st))) (\<lambda>(rs, st). Inr (u # rs, st)) =
   res_bind r (\<lambda>(rs, st). Inr (u # us @ rs, st))"
  by (cases r) auto

lemma exec_direct_append:
  "exec_direct exec s (xs @ ys) =
     (fst (exec_direct exec s xs) @ fst (exec_direct exec (snd (exec_direct exec s xs)) ys),
      snd (exec_direct exec (snd (exec_direct exec s xs)) ys))"
  by (induction xs arbitrary: s) (simp_all add: Let_def split_def)

text \<open>The calls that are not eligible are executed, and leave the table as it is.\<close>

lemma exec_dedup_others:
  "list_all (\<lambda>e. \<not> eligible e) ys \<Longrightarrow>
   exec_dedup p (validator_new b) exec t s (ys @ zs) =
     res_bind (exec_dedup p (validator_new b) exec t (snd (exec_direct exec s ys)) zs)
       (\<lambda>(rs, st). Inr (fst (exec_direct exec s ys) @ rs, st))"
proof (induction ys arbitrary: s)
  case Nil
  show ?case by (simp add: res_bind_Pair_id)
next
  case (Cons e ys)
  then show ?case by (simp add: Let_def split_def approved_eligible res_bind_assoc_Pair [unfolded split_def])
qed




lemma repeated_call_dependency:
  assumes "eligible g" "eligible g'" "list_all (\<lambda>w. \<not> eligible w) ws"
  shows "has_dependencies (g # ws @ [g']) \<longleftrightarrow> ev_program_id g' \<in> ev_program_id ` set ws"
proof
  let ?seq = "g # ws @ [g']"
  have at: "?seq ! i = (if i = 0 then g else if i = Suc (length ws) then g' else ws ! (i - 1))"
    if "i < length ?seq" for i
    using that by (auto simp: nth_Cons nth_append split: nat.split)
  have ws: "eligible w \<longleftrightarrow> False" if "w \<in> set ws" for w using assms(3) that by (auto simp: list_all_iff)
  { assume "has_dependencies ?seq"
    then obtain i j where d: "depends ?seq i j" by (auto simp: has_dependencies_iff)
    then have ij: "i < j" "j < length ?seq" "\<not> eligible (?seq ! i)" "eligible (?seq ! j)"
      "ev_program_id (?seq ! i) = ev_program_id (?seq ! j)"
      by (auto simp: depends_def eligible_def eligible_iff)
    have j: "j = Suc (length ws)"
      using ij(1,2,4) at [of j] ws [of "ws ! (j - 1)"] by (auto split: if_splits)
    then have "ws ! (i - 1) \<in> set ws" "?seq ! i = ws ! (i - 1)" "?seq ! j = g'"
      using ij(1-3) at [of i] at [of j] assms(1) by (auto split: if_splits)
    then show "ev_program_id g' \<in> ev_program_id ` set ws" using ij(5) by (metis imageI) }
  assume "ev_program_id g' \<in> ev_program_id ` set ws"
  then obtain k where k: "k < length ws" "ev_program_id (ws ! k) = ev_program_id g'"
    by (auto simp: in_set_conv_nth)
  have "\<not> eligible (ws ! k)" using ws [of "ws ! k"] k(1) by simp
  then have "classify classifier_new (ev_syscall_id (ws ! k)) \<in> {StateChanging, OrderSensitive}"
    by (cases "classify classifier_new (ev_syscall_id (ws ! k))") (simp_all add: eligible_def eligible_iff)
  then have "depends ?seq (Suc k) (Suc (length ws))"
    using k assms(2) by (auto simp: depends_def nth_append eligible_def eligible_iff)
  then show "has_dependencies ?seq" by (auto simp: has_dependencies_iff)
qed



text \<open>A meaning of the syscalls: the state is the return data, which two of them set and get.\<close>

definition return_data_exec :: "bytes \<Rightarrow> trace_event \<Rightarrow> bytes \<times> bytes" where
  "return_data_exec s e =
     (if ev_syscall_id e = SOL_GET_RETURN_DATA then (s, s)
      else if ev_syscall_id e = SOL_SET_RETURN_DATA then ([], [7])
      else ([], s))"

lemma return_data_pure: "pure_reads return_data_exec"
  by (auto simp: pure_reads_def same_call_def eligible_def eligible_iff classify_table return_data_exec_def syscall_ids)



text \<open>
  C21.  Where the dependency checker does not see what deduplication needs.  Let an eligible call \<open>g\<close> be
  repeated in a transaction as \<open>g'\<close> after calls \<open>ws\<close> that are not eligible.  The gate approves \<open>g'\<close> for
  deduplication, and the table answers it with the result of \<open>g\<close>, while the direct execution returns
  what \<open>g'\<close> yields in the state that \<open>ws\<close> leave; so the answer is stale whenever \<open>ws\<close> change that.  The
  checker reports a dependency if and only if one of \<open>ws\<close> is of the program of \<open>g'\<close>: when other programs
  change the state, as a called program does that sets the return data its caller reads, nothing is reported.
\<close>

theorem dedup_other_program_stale:
  assumes "pure_reads exec" and "eligible g" and "same_call g' g" and "list_all (\<lambda>w. \<not> eligible w) ws"
  shows "vr_approved (validate_dedup (validator_new b) (ev_syscall_id g')) \<and>
    (has_dependencies (g # ws @ [g']) \<longleftrightarrow> ev_program_id g' \<in> ev_program_id ` set ws) \<and>
    exec_direct exec s (g # ws @ [g']) =
      (fst (exec s g) # fst (exec_direct exec s ws) @ [fst (exec (snd (exec_direct exec s ws)) g')],
       snd (exec_direct exec s ws)) \<and>
    (\<exists>t. exec_dedup p (validator_new b) exec dedup_new s (g # ws @ [g']) =
      Inr (fst (exec s g) # fst (exec_direct exec s ws) @ [fst (exec s g)], snd (exec_direct exec s ws), t))"
proof (intro conjI)
  have g': "eligible g'" "ev_syscall_id g' = ev_syscall_id g" "ev_transaction_id g' = ev_transaction_id g"
    "ev_args_hash g' = ev_args_hash g"
    using assms(2,3) by (simp_all add: same_call_def eligible_def)
  have pure: "snd (exec u g) = u" "snd (exec u g') = u" for u
    using assms(1,2) g'(1) by (auto simp: pure_reads_def)
  show "vr_approved (validate_dedup (validator_new b) (ev_syscall_id g'))"
    using g'(1) by (simp add: approved_eligible)
  show "has_dependencies (g # ws @ [g']) \<longleftrightarrow> ev_program_id g' \<in> ev_program_id ` set ws"
    by (rule repeated_call_dependency [OF assms(2) g'(1) assms(4)])
  show "exec_direct exec s (g # ws @ [g']) =
      (fst (exec s g) # fst (exec_direct exec s ws) @ [fst (exec (snd (exec_direct exec s ws)) g')],
       snd (exec_direct exec s ws))"
    using pure by (simp add: exec_direct_append split_def Let_def)
  show "\<exists>t. exec_dedup p (validator_new b) exec dedup_new s (g # ws @ [g']) =
      Inr (fst (exec s g) # fst (exec_direct exec s ws) @ [fst (exec s g)], snd (exec_direct exec s ws), t)"
    using assms(2) g' pure
    by (simp add: exec_dedup_others [OF assms(4)] approved_eligible dedup_check_and_count_def dedup_new_def
        dedup_record_def add_u64_def split_def Let_def)
qed

text \<open>A program reads the return data, the program it calls sets it, and it reads the return data again.\<close>

definition callee :: pubkey where
  "callee = replicate 32 1"

definition callee_sets :: trace_event where
  "callee_sets = (sample_read SOL_SET_RETURN_DATA)\<lparr>ev_program_id := callee\<rparr>"

theorem dedup_other_program_stale_witness:
  "\<not> has_dependencies [sample_read SOL_GET_RETURN_DATA, callee_sets, sample_read SOL_GET_RETURN_DATA] \<and>
   fst (exec_direct return_data_exec [5] [sample_read SOL_GET_RETURN_DATA, callee_sets, sample_read SOL_GET_RETURN_DATA]) =
     [[5], [], [7]] \<and>
   (\<exists>t. exec_dedup Debug (validator_new True) return_data_exec dedup_new [5]
      [sample_read SOL_GET_RETURN_DATA, callee_sets, sample_read SOL_GET_RETURN_DATA] = Inr ([[5], [], [5]], [7], t))"
proof -
  let ?g = "sample_read SOL_GET_RETURN_DATA"
  have "eligible ?g" "same_call ?g ?g" "list_all (\<lambda>w. \<not> eligible w) [callee_sets]"
    "ev_program_id ?g \<noteq> ev_program_id callee_sets"
    by (simp_all add: eligible_def eligible_iff classify_table same_call_def sample_read_def callee_sets_def
        callee_def zero_pubkey_def syscall_ids)
  moreover have "exec_direct return_data_exec [5] [callee_sets] = ([[]], [7])"
    "return_data_exec u ?g = (u, u)" for u
    by (simp_all add: return_data_exec_def sample_read_def callee_sets_def syscall_ids)
  ultimately show ?thesis
    using dedup_other_program_stale [OF return_data_pure, of ?g ?g "[callee_sets]" True "[5]" Debug]
    by (simp del: exec_direct.simps exec_dedup.simps)
qed

end
