(* ===== verification/WindowBuilder.thy ===== *)
theory WindowBuilder
  imports Common
begin

text \<open>
  The window builder of the pipeline, \<open>src/pipeline/src/window_builder.rs\<close>: it collects the
  events of each transaction, up to a maximum, until the transaction is finalized.
\<close>

section \<open>Windows and the builder\<close>

record execution_window =
  ew_transaction_id :: transaction_id
  ew_slot :: u64
  ew_events :: "trace_event list"
  ew_start_ts :: u64
  ew_end_ts :: u64

definition window_syscall_ids :: "execution_window \<Rightarrow> u32 list" where
  "window_syscall_ids w = map ev_syscall_id (ew_events w)"

definition window_len :: "execution_window \<Rightarrow> nat" where
  "window_len w = length (ew_events w)"

definition window_is_empty :: "execution_window \<Rightarrow> bool" where
  "window_is_empty w \<longleftrightarrow> ew_events w = []"

record window_builder =
  wb_pending :: "(transaction_id, trace_event list) fmap"
  wb_max_window_size :: nat

definition wb_new :: "nat \<Rightarrow> window_builder" where
  "wb_new max_window_size = \<lparr>wb_pending = fmempty, wb_max_window_size = max_window_size\<rparr>"

text \<open>\<open>entry(..).or_default()\<close> leaves an empty window in the map even if nothing is pushed.\<close>

definition wb_ingest :: "window_builder \<Rightarrow> trace_event \<Rightarrow> window_builder" where
  "wb_ingest wb event =
     (let window = (case fmlookup (wb_pending wb) (ev_transaction_id event) of
                      None \<Rightarrow> [] | Some es \<Rightarrow> es);
          window' = (if length window < wb_max_window_size wb then window @ [event] else window)
      in wb\<lparr>wb_pending := fmupd (ev_transaction_id event) window' (wb_pending wb)\<rparr>)"

definition wb_finalize ::
  "window_builder \<Rightarrow> transaction_id \<Rightarrow> execution_window option \<times> window_builder" where
  "wb_finalize wb tx_id =
     (case fmlookup (wb_pending wb) tx_id of
        None \<Rightarrow> (None, wb)
      | Some events \<Rightarrow>
          (let wb' = wb\<lparr>wb_pending := fmdrop tx_id (wb_pending wb)\<rparr>;
               first = (case events of [] \<Rightarrow> None | e # _ \<Rightarrow> Some e);
               last_ev = (case rev events of [] \<Rightarrow> None | e # _ \<Rightarrow> Some e);
               start_ts = (case first of Some e \<Rightarrow> ev_timestamp_ns e | None \<Rightarrow> 0);
               end_ts = (case last_ev of Some e \<Rightarrow> ev_timestamp_ns e | None \<Rightarrow> 0);
               slot = (case first of Some e \<Rightarrow> ev_slot e | None \<Rightarrow> 0)
           in if events = [] then (None, wb')
              else (Some \<lparr>ew_transaction_id = tx_id, ew_slot = slot, ew_events = events,
                          ew_start_ts = start_ts, ew_end_ts = end_ts\<rparr>, wb')))"

text \<open>\<open>drain_all\<close> finalizes the keys one after the other, in the map's iteration order \<open>ks\<close>.\<close>

fun finalize_keys ::
  "transaction_id list \<Rightarrow> window_builder \<Rightarrow> execution_window list \<times> window_builder" where
  "finalize_keys [] wb = ([], wb)"
| "finalize_keys (k # ks) wb =
     (let (w, wb') = wb_finalize wb k; (ws, wb'') = finalize_keys ks wb'
      in (case w of None \<Rightarrow> ws | Some x \<Rightarrow> x # ws, wb''))"

definition wb_drain_all ::
  "transaction_id list \<Rightarrow> window_builder \<Rightarrow> execution_window list \<times> window_builder" where
  "wb_drain_all ks wb = finalize_keys ks wb"

definition wb_pending_count :: "window_builder \<Rightarrow> nat" where
  "wb_pending_count wb = hm_len (wb_pending wb)"

section \<open>The specification: a log per transaction\<close>

text \<open>
  Without a bound the builder would keep, for each transaction, all events ingested since it was
  last finalized.  \<open>window_of\<close> is the window made of the first \<open>n\<close> of them.
\<close>

definition window_of :: "transaction_id \<Rightarrow> trace_event list \<Rightarrow> execution_window option" where
  "window_of tx es =
     (if es = [] then None
      else Some \<lparr>ew_transaction_id = tx, ew_slot = ev_slot (hd es), ew_events = es,
                 ew_start_ts = ev_timestamp_ns (hd es), ew_end_ts = ev_timestamp_ns (last es)\<rparr>)"

datatype wb_op = Ingest trace_event | Finalize transaction_id

fun wb_run :: "wb_op list \<Rightarrow> window_builder \<Rightarrow> execution_window option list \<times> window_builder" where
  "wb_run [] wb = ([], wb)"
| "wb_run (Ingest e # os) wb = wb_run os (wb_ingest wb e)"
| "wb_run (Finalize tx # os) wb =
     (let (w, wb') = wb_finalize wb tx; (ws, wb'') = wb_run os wb' in (w # ws, wb''))"

text \<open>What the finalizations of a run return by the specification.\<close>

fun spec_windows ::
  "nat \<Rightarrow> wb_op list \<Rightarrow> (transaction_id \<Rightarrow> trace_event list) \<Rightarrow> execution_window option list" where
  "spec_windows n [] log = []"
| "spec_windows n (Ingest e # os) log =
     spec_windows n os (log(ev_transaction_id e := log (ev_transaction_id e) @ [e]))"
| "spec_windows n (Finalize tx # os) log =
     window_of tx (take n (log tx)) # spec_windows n os (log(tx := []))"

definition wb_events :: "window_builder \<Rightarrow> transaction_id \<Rightarrow> trace_event list" where
  "wb_events wb tx = (case fmlookup (wb_pending wb) tx of None \<Rightarrow> [] | Some es \<Rightarrow> es)"

definition wb_refines :: "window_builder \<Rightarrow> (transaction_id \<Rightarrow> trace_event list) \<Rightarrow> bool" where
  "wb_refines wb log \<longleftrightarrow> (\<forall>tx. wb_events wb tx = take (wb_max_window_size wb) (log tx))"

lemma wb_finalize_result: "fst (wb_finalize wb tx) = window_of tx (wb_events wb tx)"
  by (auto simp: wb_finalize_def wb_events_def window_of_def Let_def case_first case_last hd_rev
      split: option.split)

lemma wb_finalize_pending:
  "wb_pending (snd (wb_finalize wb tx)) = fmdrop tx (wb_pending wb)"
  "wb_max_window_size (snd (wb_finalize wb tx)) = wb_max_window_size wb"
  by (auto simp: wb_finalize_def Let_def split: option.splits intro!: fmap_ext)

lemma wb_events_simps [simp]:
  "wb_events (wb_new n) tx = []"
  "wb_events (snd (wb_finalize wb tx)) tx' = (if tx' = tx then [] else wb_events wb tx')"
  by (simp_all add: wb_events_def wb_new_def wb_finalize_pending)

lemma wb_ingest_events:
  "wb_events (wb_ingest wb e) tx =
     (if tx = ev_transaction_id e \<and> length (wb_events wb tx) < wb_max_window_size wb
      then wb_events wb tx @ [e] else wb_events wb tx)"
  "wb_max_window_size (wb_ingest wb e) = wb_max_window_size wb"
  by (auto simp: wb_events_def wb_ingest_def Let_def)

lemma wb_ingest_refines:
  assumes "wb_refines wb log"
  shows "wb_refines (wb_ingest wb e) (log(ev_transaction_id e := log (ev_transaction_id e) @ [e]))"
  using assms by (auto simp: wb_refines_def wb_ingest_events)

lemma wb_finalize_refines:
  "wb_refines wb log \<Longrightarrow> wb_refines (snd (wb_finalize wb tx)) (log(tx := []))"
  by (auto simp: wb_refines_def wb_finalize_pending)

lemma wb_run_refines:
  "wb_refines wb log \<Longrightarrow> fst (wb_run os wb) = spec_windows (wb_max_window_size wb) os log"
proof (induction os wb arbitrary: log rule: wb_run.induct)
  case (1 wb)
  then show ?case by simp
next
  case (2 e os wb)
  from "2.IH" [OF wb_ingest_refines [OF "2.prems"]] show ?case
    by (simp add: wb_ingest_events fun_upd_def)
next
  case (3 tx os wb)
  obtain w wb' where f: "wb_finalize wb tx = (w, wb')" by force
  have "fst (wb_run os wb') = spec_windows (wb_max_window_size wb') os (log(tx := []))"
    using "3.IH" [OF f [symmetric]] wb_finalize_refines [OF "3.prems", of tx] f by simp
  moreover have "w = window_of tx (take (wb_max_window_size wb) (log tx))"
    using wb_finalize_result [of wb tx] f "3.prems" by (simp add: wb_refines_def)
  moreover have "wb_max_window_size wb' = wb_max_window_size wb"
    using wb_finalize_pending(2) [of wb tx] f by simp
  ultimately show ?case by (simp add: f Let_def case_prod_unfold)
qed

section \<open>Draining\<close>

lemma finalize_keys_result:
  "distinct ks \<Longrightarrow>
   fst (finalize_keys ks wb) = List.map_filter (\<lambda>k. window_of k (wb_events wb k)) ks \<and>
   wb_pending (snd (finalize_keys ks wb)) = fmdrop_fset (fset_of_list ks) (wb_pending wb)"
proof (induction ks arbitrary: wb)
  case Nil
  then show ?case by (simp add: map_filter_simps)
next
  case (Cons k ks)
  obtain w wb' where f: "wb_finalize wb k = (w, wb')" by force
  have w: "w = window_of k (wb_events wb k)" and p: "wb_pending wb' = fmdrop k (wb_pending wb)"
    using wb_finalize_result [of wb k] wb_finalize_pending(1) [of wb k] f by simp_all
  have ev: "wb_events wb' k' = (if k' = k then [] else wb_events wb k')" for k'
    using wb_events_simps(2) [of wb k k'] f by simp
  have "List.map_filter (\<lambda>k. window_of k (wb_events wb' k)) ks =
      List.map_filter (\<lambda>k. window_of k (wb_events wb k)) ks"
    using Cons.prems by (intro map_filter_cong) (auto simp: ev)
  then show ?case
    using Cons.IH [of wb'] Cons.prems w p
    by (auto simp: f Let_def case_prod_unfold map_filter_simps split: option.splits)
qed

lemma drain_all_keys:
  assumes "iter_order (wb_pending wb) ks"
  shows "wb_pending (snd (wb_drain_all ks wb)) = fmempty"
    and "fst (wb_drain_all ks wb) = List.map_filter (\<lambda>k. window_of k (wb_events wb k)) ks"
proof -
  have "fset_of_list ks = fmdom (wb_pending wb)"
    using assms by (auto simp: iter_order_def fset_of_list.rep_eq fset_eq_iff)
  then show "wb_pending (snd (wb_drain_all ks wb)) = fmempty"
    "fst (wb_drain_all ks wb) = List.map_filter (\<lambda>k. window_of k (wb_events wb k)) ks"
    using finalize_keys_result [of ks wb] assms by (simp_all add: wb_drain_all_def iter_order_def)
qed

lemma mset_map_filter: "mset (List.map_filter f xs) = image_mset the (filter_mset (\<lambda>y. y \<noteq> None) (image_mset f (mset xs)))"
  by (induction xs) (auto simp: map_filter_simps split: option.splits)

lemma set_map_filter: "set (List.map_filter f xs) = {y. \<exists>x \<in> set xs. f x = Some y}"
  by (induction xs) (auto simp: map_filter_simps split: option.splits)

section \<open>Properties\<close>

text \<open>
  C11.  The builder implements its specification: for every sequence of ingests and
  finalizations, each finalization returns the window made of the first \<open>max_window_size\<close> events
  of its transaction ingested since that transaction was last finalized, in order, with their
  first slot and their first and last time stamps; or nothing if there are none.
\<close>

theorem window_builder_refines:
  "fst (wb_run os (wb_new n)) = spec_windows n os (\<lambda>tx. [])"
  using wb_run_refines [of "wb_new n" "\<lambda>tx. []"] by (simp add: wb_refines_def wb_new_def wb_events_def)

text \<open>
  C12.  Draining empties the builder and returns one window for every transaction that has
  events; which windows these are does not depend on the iteration order of the map.
\<close>

theorem drain_all_complete:
  assumes "iter_order (wb_pending wb) ks" "iter_order (wb_pending wb) ks'"
  shows "wb_pending_count (snd (wb_drain_all ks wb)) = 0 \<and>
    set (fst (wb_drain_all ks wb)) = {w. \<exists>tx. window_of tx (wb_events wb tx) = Some w} \<and>
    mset (fst (wb_drain_all ks wb)) = mset (fst (wb_drain_all ks' wb))"
proof -
  have "tx \<in> set ks" if "window_of tx (wb_events wb tx) = Some w" for tx w
    using that iter_order_mem [OF assms(1), of tx]
    by (auto simp: window_of_def wb_events_def split: option.splits if_splits)
  then show ?thesis
    using iter_order_mset [OF assms]
    by (auto simp: set_map_filter drain_all_keys [OF assms(1)] drain_all_keys [OF assms(2)] wb_pending_count_def
        hm_simps mset_map_filter)
qed

definition sample_wb :: window_builder where
  "sample_wb = snd (wb_run
     [Ingest \<lparr>ev_program_id = [], ev_syscall_id = 1, ev_args_hash = 0, ev_timestamp_ns = 5, ev_slot = 7,
              ev_transaction_id = [1], ev_depth = 0\<rparr>,
      Ingest \<lparr>ev_program_id = [], ev_syscall_id = 2, ev_args_hash = 0, ev_timestamp_ns = 6, ev_slot = 7,
              ev_transaction_id = [2], ev_depth = 0\<rparr>,
      Ingest \<lparr>ev_program_id = [], ev_syscall_id = 3, ev_args_hash = 0, ev_timestamp_ns = 8, ev_slot = 7,
              ev_transaction_id = [1], ev_depth = 0\<rparr>] (wb_new 1))"

lemma sample_wb_order: "iter_order (wb_pending sample_wb) [[1], [2]]" "iter_order (wb_pending sample_wb) [[2], [1]]"
  by (auto simp: iter_order_def sample_wb_def wb_ingest_def wb_new_def Let_def)

theorem drain_all_complete_witness:
  "wb_pending_count (snd (wb_drain_all [[1], [2]] sample_wb)) = 0 \<and>
   mset (fst (wb_drain_all [[1], [2]] sample_wb)) = mset (fst (wb_drain_all [[2], [1]] sample_wb))"
  using drain_all_complete [OF sample_wb_order] by blast

end
