(* ===== verification/Floats.thy ===== *)
theory Floats
  imports Prelude Complex_Main
begin

text \<open>
  The floating-point numbers of Rust, \<open>f32\<close> and \<open>f64\<close> (IEEE 754 binary32 and binary64): not a
  number, the two infinities, or a finite real number.  Every operation rounds its exact result to
  the nearest number of the format, ties to even, and overflows to an infinity.  A type argument is
  the precision: 24 bits or 53 bits.

  The two zeros are one value.  They differ only in the sign of an infinity that a division by
  zero produces, and a divisor of the modelled code that can be zero is a sum or a conversion of an
  integer, which is the positive zero; a zero divisor counts as positive here.
\<close>

section \<open>Rounding\<close>

text \<open>The number of binary digits, and rounding of a real to an integer, ties to even.\<close>

fun nbits :: "nat \<Rightarrow> nat" where
  "nbits n = (if n = 0 then 0 else Suc (nbits (n div 2)))"

declare nbits.simps [simp del]

definition rne :: "real \<Rightarrow> int" where
  "rne y = (let f = \<lfloor>y\<rfloor>; d = y - of_int f
            in if d < 1 / 2 then f else if 1 / 2 < d then f + 1 else if even f then f else f + 1)"

text \<open>
  Rounding in units of the smallest positive number of a format of precision \<open>p\<close>: a number with
  more than \<open>p\<close> binary digits is rounded at its \<open>p\<close>-th one.
\<close>

definition excess :: "nat \<Rightarrow> real \<Rightarrow> nat" where
  "excess p s = nbits (nat \<lfloor>\<bar>s\<bar>\<rfloor>) - p"

definition round_units :: "nat \<Rightarrow> real \<Rightarrow> real" where
  "round_units p s = of_int (rne (s / 2 ^ excess p s)) * 2 ^ excess p s"

lemma nbits_0 [simp]: "nbits 0 = 0"
  by (simp add: nbits.simps)

lemma nbits_le_iff: "nbits n \<le> k \<longleftrightarrow> n < 2 ^ k"
proof (induction n arbitrary: k rule: nbits.induct)
  case (1 n)
  show ?case
  proof (cases "n = 0")
    case True
    then show ?thesis by simp
  next
    case False
    then show ?thesis
    proof (cases k)
      case 0
      then show ?thesis using False by (simp add: nbits.simps [of n])
    next
      case (Suc j)
      have "nbits n \<le> k \<longleftrightarrow> nbits (n div 2) \<le> j" using False Suc by (simp add: nbits.simps [of n])
      also have "\<dots> \<longleftrightarrow> n div 2 < 2 ^ j" using 1 False by simp
      also have "\<dots> \<longleftrightarrow> n < 2 ^ k" using Suc by (auto simp: less_mult_imp_div_less)
      finally show ?thesis .
    qed
  qed
qed

lemma nbits_mono: "m \<le> n \<Longrightarrow> nbits m \<le> nbits n"
  using nbits_le_iff [of n "nbits n"] nbits_le_iff [of m "nbits n"] by simp

lemma nbits_eqI: "2 ^ k \<le> n \<Longrightarrow> n < 2 ^ Suc k \<Longrightarrow> nbits n = Suc k"
  using nbits_le_iff [of n k] nbits_le_iff [of n "Suc k"] by simp

lemma rne_of_int [simp]: "rne (of_int i) = i"
  by (simp add: rne_def)

lemma rne_near: "of_int (rne y) - 1 / 2 \<le> y" "y \<le> of_int (rne y) + 1 / 2"
proof -
  show "of_int (rne y) - 1 / 2 \<le> y" "y \<le> of_int (rne y) + 1 / 2"
    unfolding rne_def Let_def by (auto; linarith)+
qed

lemma rne_unique:
  assumes "\<bar>y - of_int i\<bar> < 1 / 2"
  shows "rne y = i"
  using assms rne_near [of y] by linarith

lemma rne_mono:
  assumes "x \<le> y"
  shows "rne x \<le> rne y"
proof (cases "\<lfloor>x\<rfloor> = \<lfloor>y\<rfloor>")
  case True
  then show ?thesis using assms unfolding rne_def Let_def by auto
next
  case False
  then have "\<lfloor>x\<rfloor> + 1 \<le> \<lfloor>y\<rfloor>" using floor_mono [OF assms] by linarith
  moreover have "rne x \<le> \<lfloor>x\<rfloor> + 1" "\<lfloor>y\<rfloor> \<le> rne y" by (simp_all add: rne_def Let_def)
  ultimately show ?thesis by linarith
qed

lemma rne_le: "y \<le> of_int i \<Longrightarrow> rne y \<le> i"
  using rne_mono [of y "of_int i"] by simp

lemma rne_ge: "of_int i \<le> y \<Longrightarrow> i \<le> rne y"
  using rne_mono [of "of_int i" y] by simp

lemma rne_minus: "rne (- y) = - rne y"
proof (cases "y = of_int \<lfloor>y\<rfloor>")
  case True
  then show ?thesis by (metis of_int_minus rne_of_int)
next
  case False
  let ?f = "\<lfloor>y\<rfloor>"
  have f: "of_int ?f < y" "y < of_int ?f + 1"
    using False of_int_floor_le [of y] by linarith+
  have m: "\<lfloor>- y\<rfloor> = - ?f - 1" using f by linarith
  show ?thesis unfolding rne_def m Let_def using f by auto
qed

lemma excess_mono: "\<bar>s\<bar> \<le> \<bar>t\<bar> \<Longrightarrow> excess p s \<le> excess p t"
  unfolding excess_def by (intro diff_le_mono nbits_mono nat_mono floor_mono)

lemma excess_minus [simp]: "excess p (- s) = excess p s"
  by (simp add: excess_def)

lemma round_units_minus: "round_units p (- s) = - round_units p s"
  by (simp add: round_units_def rne_minus)

lemma pow_split: "e \<le> k \<Longrightarrow> (2 :: real) ^ k = of_int (2 ^ (k - e)) * 2 ^ e"
  by (simp flip: power_add)

lemma pow_div: "e \<le> k \<Longrightarrow> (2 :: real) ^ k / 2 ^ e = of_int (2 ^ (k - e))"
  by (subst pow_split [of e k]) simp_all

lemma round_units_multiple:
  assumes "s = of_int m * 2 ^ k" "excess p s \<le> k"
  shows "round_units p s = s"
proof -
  define e where "e = excess p s"
  have "s = of_int m * (of_int (2 ^ (k - e)) * 2 ^ e)"
    using assms(1) pow_split [of e k] assms(2) by (simp only: e_def)
  then have s: "s = of_int (m * 2 ^ (k - e)) * 2 ^ e" by simp
  then have "s / 2 ^ e = of_int (m * 2 ^ (k - e))"
    by (metis nonzero_mult_div_cancel_right power_not_zero zero_neq_numeral)
  then have "rne (s / 2 ^ e) = m * 2 ^ (k - e)" using rne_of_int by metis
  then show ?thesis
    unfolding round_units_def e_def [symmetric] by (metis s)
qed

lemma round_units_nonneg: "0 \<le> s \<Longrightarrow> 0 \<le> round_units p s"
  using rne_mono [of 0 "s / 2 ^ excess p s"] rne_of_int [of 0] by (simp add: round_units_def)

text \<open>A larger excess means that a power of two lies between.\<close>

lemma round_units_mono_pos:
  assumes "0 \<le> s" "s \<le> t" "0 < p"
  shows "round_units p s \<le> round_units p t"
proof (cases "excess p s = excess p t")
  case True
  then show ?thesis
    using rne_mono [of "s / 2 ^ excess p t" "t / 2 ^ excess p t"] assms
    by (simp add: round_units_def divide_right_mono)
next
  case False
  define a b where "a = nat \<lfloor>\<bar>s\<bar>\<rfloor>" and "b = nat \<lfloor>\<bar>t\<bar>\<rfloor>"
  have lt: "excess p s < excess p t" using False excess_mono [of s t p] assms by simp
  define n where "n = nbits b - 1"
  have nb: "nbits b = Suc n" "p \<le> n" "nbits a \<le> n"
    using lt unfolding n_def excess_def a_def [symmetric] b_def [symmetric] by arith+
  have ab: "a < 2 ^ n" "2 ^ n \<le> b"
    using nbits_le_iff [of a n] nbits_le_iff [of b n] nb by auto
  have s: "s \<le> 2 ^ n"
  proof -
    have "s < real (a + 1)" using assms by (simp add: a_def) linarith
    also have "\<dots> \<le> real (2 ^ n)" using ab(1) by (subst of_nat_le_iff) simp
    finally show ?thesis by simp
  qed
  have t: "2 ^ n \<le> t"
  proof -
    have "real (2 ^ n) \<le> real b" using ab(2) by (subst of_nat_le_iff)
    also have "\<dots> \<le> t" using assms by (simp add: b_def)
    finally show ?thesis by simp
  qed
  note up = pow_split [symmetric, of _ n]
  have ks: "excess p s \<le> n" "excess p t \<le> n"
    using nb assms(3) by (auto simp: excess_def a_def [symmetric] b_def [symmetric])
  have "rne (s / 2 ^ excess p s) \<le> 2 ^ (n - excess p s)"
    by (rule rne_le) (use s in \<open>simp only: pow_div [OF ks(1), symmetric] divide_right_mono
        zero_le_power zero_le_numeral\<close>)
  then have "round_units p s \<le> of_int (2 ^ (n - excess p s)) * 2 ^ excess p s"
    unfolding round_units_def by (intro mult_right_mono) (simp_all only: of_int_le_iff, simp)
  also have "\<dots> = of_int (2 ^ (n - excess p t)) * 2 ^ excess p t"
    using up [OF ks(1)] up [OF ks(2)] by simp
  also have "\<dots> \<le> round_units p t"
  proof -
    have "2 ^ (n - excess p t) \<le> rne (t / 2 ^ excess p t)"
      by (rule rne_ge) (use t in \<open>simp only: pow_div [OF ks(2), symmetric] divide_right_mono
          zero_le_power zero_le_numeral\<close>)
    then show ?thesis
      unfolding round_units_def by (intro mult_right_mono) (simp_all only: of_int_le_iff, simp)
  qed
  finally show ?thesis .
qed

lemma round_units_mono:
  assumes "s \<le> t" "0 < p"
  shows "round_units p s \<le> round_units p t"
proof -
  consider "0 \<le> s" | "s \<le> 0" "0 \<le> t" | "t \<le> 0" by linarith
  then show ?thesis
  proof cases
    case 1
    then show ?thesis using assms round_units_mono_pos by blast
  next
    case 2
    then show ?thesis
      using round_units_nonneg [of t p] round_units_nonneg [of "- s" p] by (simp add: round_units_minus)
  next
    case 3
    then show ?thesis
      using round_units_mono_pos [of "- t" "- s" p] assms by (simp add: round_units_minus)
  qed
qed

section \<open>The formats\<close>

text \<open>The exponent range of the format of precision \<open>LENGTH('p)\<close>, and its smallest unit \<open>2 ^ - fp_unit\<close>.\<close>

definition fp_emax :: "'p :: len itself \<Rightarrow> nat" where
  "fp_emax T = (if LENGTH('p) = 24 then 128 else 1024)"

definition fp_unit :: "'p :: len itself \<Rightarrow> nat" where
  "fp_unit T = fp_emax T + LENGTH('p) - 3"

definition rnd :: "'p :: len itself \<Rightarrow> real \<Rightarrow> real" where
  "rnd T x = round_units LENGTH('p) (x * 2 ^ fp_unit T) / 2 ^ fp_unit T"

datatype 'p fp = NaN | PInf | NInf | Fin real

type_synonym f64 = "53 fp"
type_synonym f32 = "24 fp"

definition to_fp :: "real \<Rightarrow> 'p :: len fp" where
  "to_fp x = (let r = rnd TYPE('p) x in
     if 2 ^ fp_emax TYPE('p) \<le> r then PInf else if r \<le> - (2 ^ fp_emax TYPE('p)) then NInf else Fin r)"

lemma rnd_mono: "x \<le> y \<Longrightarrow> rnd T x \<le> rnd T y"
  unfolding rnd_def by (intro divide_right_mono round_units_mono mult_right_mono) simp_all

lemma rnd_minus: "rnd T (- x) = - rnd T x"
  by (simp add: rnd_def round_units_minus)

lemma rnd_exact:
  fixes T :: "'p :: len itself"
  assumes "x * 2 ^ fp_unit T = of_int m * 2 ^ k" "\<bar>m\<bar> < 2 ^ LENGTH('p)"
  shows "rnd T x = x"
proof -
  have "nat \<lfloor>\<bar>x * 2 ^ fp_unit T\<bar>\<rfloor> = nat (\<bar>m\<bar> * 2 ^ k)"
  proof -
    have "\<bar>of_int m * 2 ^ k :: real\<bar> = of_int (\<bar>m\<bar> * 2 ^ k)" by (simp add: abs_mult)
    then show ?thesis unfolding assms(1) by (simp only: floor_of_int)
  qed
  moreover have "nat (\<bar>m\<bar> * 2 ^ k) < 2 ^ (LENGTH('p) + k)"
  proof -
    have "\<bar>m\<bar> * 2 ^ k < 2 ^ LENGTH('p) * 2 ^ k" using assms(2) by simp
    then show ?thesis by (simp add: power_add nat_less_iff)
  qed
  ultimately have "nbits (nat \<lfloor>\<bar>x * 2 ^ fp_unit T\<bar>\<rfloor>) \<le> LENGTH('p) + k"
    by (simp add: nbits_le_iff)
  then have "excess LENGTH('p) (x * 2 ^ fp_unit T) \<le> k" by (simp add: excess_def)
  from round_units_multiple [OF assms(1) this] show ?thesis by (simp add: rnd_def)
qed

text \<open>The rounding of a number with more digits: \<open>y\<close> holds the first \<open>LENGTH('p)\<close> before its point.\<close>

lemma rnd_scaled:
  fixes T :: "'p :: len itself"
  assumes "2 ^ (LENGTH('p) - 1) \<le> y" "y < 2 ^ LENGTH('p)" "t \<le> fp_unit T"
  shows "rnd T (y / 2 ^ t) = of_int (rne y) / 2 ^ t"
proof -
  let ?p = "LENGTH('p)" and ?u = "fp_unit T" and ?e = "fp_unit T - t"
  have s: "y / 2 ^ t * 2 ^ ?u = y * 2 ^ ?e"
    using pow_split [of t ?u] assms(3) by (simp add: field_simps flip: power_add)
  have "(0 :: real) \<le> 2 ^ (?p - 1)" by simp
  with assms(1) have y: "0 \<le> y" by linarith
  have lo: "2 ^ (?p - 1 + ?e) \<le> nat \<lfloor>y * 2 ^ ?e\<rfloor>"
  proof -
    have "of_int (2 ^ (?p - 1 + ?e)) \<le> y * 2 ^ ?e" using assms(1) by (simp add: power_add)
    then have "2 ^ (?p - 1 + ?e) \<le> \<lfloor>y * 2 ^ ?e\<rfloor>" by (simp only: le_floor_iff)
    from nat_mono [OF this] show ?thesis by (simp add: nat_power_eq)
  qed
  have hi: "nat \<lfloor>y * 2 ^ ?e\<rfloor> < 2 ^ Suc (?p - 1 + ?e)"
  proof -
    have "y * 2 ^ ?e < 2 ^ ?p * 2 ^ ?e" using assms(2) by simp
    moreover have "?p + ?e = Suc (?p - 1 + ?e)" using len_gt_0 [where 'a = 'p] by arith
    ultimately have "y * 2 ^ ?e < of_int (2 ^ Suc (?p - 1 + ?e))"
      by (metis of_int_numeral of_int_power power_add)
    then have "\<lfloor>y * 2 ^ ?e\<rfloor> < 2 ^ Suc (?p - 1 + ?e)" by (simp only: floor_less_iff)
    then show ?thesis using y by (simp add: nat_less_iff)
  qed
  have "excess ?p (y * 2 ^ ?e) = ?e"
    using nbits_eqI [OF lo hi] y Suc_pred [OF len_gt_0 [where 'a = 'p]] by (simp add: excess_def)
  then show ?thesis
    unfolding rnd_def s round_units_def
    using pow_split [of t ?u] assms(3) by (simp add: field_simps flip: power_add)
qed

lemma rnd_0 [simp]: "rnd T 0 = 0"
  by (rule rnd_exact [of _ _ 0 0]) simp_all

lemma to_fp_Fin:
  "rnd TYPE('p) x = r \<Longrightarrow> \<bar>r\<bar> < 2 ^ fp_emax TYPE('p) \<Longrightarrow> (to_fp x :: 'p :: len fp) = Fin r"
  by (simp add: to_fp_def Let_def abs_less_iff)

lemma to_fp_between:
  assumes "a \<le> x" "x \<le> b" "to_fp a = (Fin a' :: 'p :: len fp)" "to_fp b = (Fin b' :: 'p fp)"
  shows "\<exists>r. to_fp x = (Fin r :: 'p fp) \<and> a' \<le> r \<and> r \<le> b'"
  using assms rnd_mono [of a x "TYPE('p)"] rnd_mono [of x b "TYPE('p)"]
  by (auto simp: to_fp_def Let_def split: if_splits)

text \<open>Integers below \<open>2 ^ LENGTH('p)\<close>, and quotients of them by powers of two, are exact.\<close>

lemma to_fp_dyadic:
  assumes "\<bar>m\<bar> < 2 ^ LENGTH('p)" "t \<le> fp_unit TYPE('p)" "\<bar>of_int m / 2 ^ t\<bar> < (2 :: real) ^ fp_emax TYPE('p)"
  shows "to_fp (of_int m / 2 ^ t) = (Fin (of_int m / 2 ^ t) :: 'p :: len fp)"
proof (rule to_fp_Fin)
  have "of_int m / 2 ^ t * 2 ^ fp_unit TYPE('p) = of_int m * (2 :: real) ^ (fp_unit TYPE('p) - t)"
    using pow_split [of t "fp_unit TYPE('p)"] assms(2) by (simp add: field_simps flip: power_add)
  then show "rnd TYPE('p) (of_int m / 2 ^ t) = of_int m / 2 ^ t"
    using assms(1) by (rule rnd_exact)
qed (rule assms(3))

section \<open>Operations\<close>

text \<open>The sign of a value that is not NaN, and the infinity (or NaN) of a sign.\<close>

fun fp_sgn :: "'p fp \<Rightarrow> real" where
  "fp_sgn NaN = 0"
| "fp_sgn PInf = 1"
| "fp_sgn NInf = - 1"
| "fp_sgn (Fin x) = sgn x"

definition fp_inf :: "real \<Rightarrow> 'p fp" where
  "fp_inf s = (if 0 < s then PInf else if s < 0 then NInf else NaN)"

fun fp_neg :: "'p fp \<Rightarrow> 'p fp" where
  "fp_neg NaN = NaN"
| "fp_neg PInf = NInf"
| "fp_neg NInf = PInf"
| "fp_neg (Fin x) = Fin (- x)"

fun fp_add :: "'p :: len fp \<Rightarrow> 'p fp \<Rightarrow> 'p fp" where
  "fp_add (Fin x) (Fin y) = to_fp (x + y)"
| "fp_add NaN b = NaN"
| "fp_add a NaN = NaN"
| "fp_add PInf NInf = NaN"
| "fp_add NInf PInf = NaN"
| "fp_add PInf b = PInf"
| "fp_add NInf b = NInf"
| "fp_add a b = b"

fun fp_mul :: "'p :: len fp \<Rightarrow> 'p fp \<Rightarrow> 'p fp" where
  "fp_mul (Fin x) (Fin y) = to_fp (x * y)"
| "fp_mul a b = fp_inf (fp_sgn a * fp_sgn b)"

fun fp_div :: "'p :: len fp \<Rightarrow> 'p fp \<Rightarrow> 'p fp" where
  "fp_div (Fin x) (Fin y) = (if y = 0 then fp_inf x else to_fp (x / y))"
| "fp_div NaN b = NaN"
| "fp_div a NaN = NaN"
| "fp_div (Fin x) b = Fin 0"
| "fp_div a (Fin y) = fp_inf (fp_sgn a * (if y < 0 then - 1 else 1))"
| "fp_div a b = NaN"

fun fp_less :: "'p fp \<Rightarrow> 'p fp \<Rightarrow> bool" where
  "fp_less (Fin x) (Fin y) = (x < y)"
| "fp_less NaN b = False"
| "fp_less a NaN = False"
| "fp_less NInf b = (b \<noteq> NInf)"
| "fp_less a PInf = (a \<noteq> PInf)"
| "fp_less a b = False"

text \<open>The comparison \<open>==\<close>: NaN differs from itself.\<close>

definition fp_eq :: "'p fp \<Rightarrow> 'p fp \<Rightarrow> bool" where
  "fp_eq a b \<longleftrightarrow> a \<noteq> NaN \<and> a = b"

instantiation fp :: (len) "{zero, one, plus, uminus, minus, times, inverse, ord}"
begin

definition "0 = (Fin 0 :: 'a fp)"
definition "1 = (Fin 1 :: 'a fp)"
definition "a + b = fp_add a (b :: 'a fp)"
definition "- a = fp_neg (a :: 'a fp)"
definition "a - b = fp_add a (fp_neg (b :: 'a fp))"
definition "a * b = fp_mul a (b :: 'a fp)"
definition "inverse a = fp_div (Fin 1) (a :: 'a fp)"
definition "a div b = fp_div a (b :: 'a fp)"
definition "a < b \<longleftrightarrow> fp_less a (b :: 'a fp)"
definition "a \<le> b \<longleftrightarrow> fp_less a b \<or> fp_eq a (b :: 'a fp)"

instance ..

end

lemmas fp_ops = zero_fp_def one_fp_def plus_fp_def uminus_fp_def minus_fp_def times_fp_def divide_fp_def
  less_fp_def less_eq_fp_def

datatype ordering = Less | Equal | Greater

definition fp_partial_cmp :: "'p fp \<Rightarrow> 'p fp \<Rightarrow> ordering option" where
  "fp_partial_cmp a b =
     (if fp_less a b then Some Less else if fp_less b a then Some Greater
      else if fp_eq a b then Some Equal else None)"

text \<open>\<open>min\<close> and \<open>max\<close> ignore a NaN; \<open>clamp\<close> keeps one.\<close>

definition fp_min :: "'p fp \<Rightarrow> 'p fp \<Rightarrow> 'p fp" where
  "fp_min a b = (if a = NaN then b else if b = NaN then a else if fp_less b a then b else a)"

definition fp_max :: "'p fp \<Rightarrow> 'p fp \<Rightarrow> 'p fp" where
  "fp_max a b = (if a = NaN then b else if b = NaN then a else if fp_less a b then b else a)"

definition fp_clamp :: "'p fp \<Rightarrow> 'p fp \<Rightarrow> 'p fp \<Rightarrow> 'p fp" where
  "fp_clamp a lo hi = (if fp_less a lo then lo else if fp_less hi a then hi else a)"

fun fp_sqrt :: "'p :: len fp \<Rightarrow> 'p fp" where
  "fp_sqrt (Fin x) = (if x < 0 then NaN else to_fp (sqrt x))"
| "fp_sqrt PInf = PInf"
| "fp_sqrt a = NaN"

text \<open>\<open>iter().sum()\<close>, and the conversions \<open>as f64\<close> of integers.\<close>

definition fp_sum :: "'p :: len fp list \<Rightarrow> 'p fp" where
  "fp_sum xs = foldl (+) 0 xs"

definition fp_of_u64 :: "u64 \<Rightarrow> 'p :: len fp" where
  "fp_of_u64 n = to_fp (real (unat n))"

definition fp_of_usize :: "nat \<Rightarrow> 'p :: len fp" where
  "fp_of_usize n = to_fp (real n)"

section \<open>Intervals\<close>

text \<open>\<open>fp_in v a b\<close>: the value is finite and lies between the reals \<open>a\<close> and \<open>b\<close>.\<close>

definition fp_in :: "'p fp \<Rightarrow> real \<Rightarrow> real \<Rightarrow> bool" where
  "fp_in v a b \<longleftrightarrow> (\<exists>r. v = Fin r \<and> a \<le> r \<and> r \<le> b)"

lemma fp_in_Fin [simp]: "fp_in (Fin r) a b \<longleftrightarrow> a \<le> r \<and> r \<le> b"
  and fp_in_NaN [simp]: "\<not> fp_in NaN a b"
  and fp_in_PInf [simp]: "\<not> fp_in PInf a b"
  and fp_in_NInf [simp]: "\<not> fp_in NInf a b"
  by (simp_all add: fp_in_def)

lemma fp_in_mono: "fp_in v a b \<Longrightarrow> a' \<le> a \<Longrightarrow> b \<le> b' \<Longrightarrow> fp_in v a' b'"
  by (auto simp: fp_in_def)

lemma to_fp_in:
  "a \<le> x \<Longrightarrow> x \<le> b \<Longrightarrow> to_fp a = (Fin a' :: 'p :: len fp) \<Longrightarrow> to_fp b = (Fin b' :: 'p fp) \<Longrightarrow>
   fp_in (to_fp x :: 'p fp) a' b'"
  unfolding fp_in_def by (rule to_fp_between)

lemma fp_in_add:
  fixes x y :: "'p :: len fp"
  assumes "fp_in x a b" "fp_in y c d" "to_fp (a + c) = (Fin l :: 'p fp)" "to_fp (b + d) = (Fin h :: 'p fp)"
  shows "fp_in (x + y) l h"
  using assms(1,2) by (auto simp: fp_in_def [of x] fp_in_def [of y] plus_fp_def intro!: to_fp_in [OF _ _ assms(3,4)])

lemma fp_in_mul:
  fixes x y :: "'p :: len fp"
  assumes "fp_in x a b" "fp_in y c d" "0 \<le> a" "0 \<le> c"
    "to_fp (a * c) = (Fin l :: 'p fp)" "to_fp (b * d) = (Fin h :: 'p fp)"
  shows "fp_in (x * y) l h"
  using assms(1-4) by (auto simp: fp_in_def [of x] fp_in_def [of y] times_fp_def
      intro!: to_fp_in [OF _ _ assms(5,6)] mult_mono)

lemma to_fp_0 [simp]: "to_fp 0 = Fin 0"
  by (simp add: to_fp_def Let_def not_le)

lemma fp_formats [simp]:
  "LENGTH(53) = 53" "LENGTH(24) = 24"
  "fp_emax TYPE(53) = 1024" "fp_emax TYPE(24) = 128" "fp_unit TYPE(53) = 1074" "fp_unit TYPE(24) = 149"
  by (simp_all add: fp_emax_def fp_unit_def)

lemma to_fp_dyadic_f64:
  "\<bar>m\<bar> < 2 ^ 53 \<Longrightarrow> t \<le> 1074 \<Longrightarrow> (to_fp (of_int m / 2 ^ t) :: f64) = Fin (of_int m / 2 ^ t)"
proof (rule to_fp_dyadic)
  assume m: "\<bar>m\<bar> < 2 ^ 53"
  have "\<bar>of_int m\<bar> / 2 ^ t \<le> \<bar>of_int m\<bar> / (1 :: real)"
    by (rule frac_le) simp_all
  then have "\<bar>of_int m / 2 ^ t :: real\<bar> \<le> of_int \<bar>m\<bar>" by simp
  also have "\<dots> < of_int (2 ^ 53)" using m by (simp only: of_int_less_iff)
  also have "\<dots> < (2 :: real) ^ fp_emax TYPE(53)" by simp
  finally show "\<bar>of_int m / 2 ^ t\<bar> < (2 :: real) ^ fp_emax TYPE(53)" .
qed simp_all

lemma to_fp_int_f64: "\<bar>m\<bar> < 2 ^ 53 \<Longrightarrow> (to_fp (of_int m) :: f64) = Fin (of_int m)"
  using to_fp_dyadic_f64 [of m 0] by simp

lemma to_fp_1_f64 [simp]: "(to_fp 1 :: f64) = Fin 1"
  using to_fp_int_f64 [of 1] by simp

lemma to_fp_numeral_f64: "(numeral n :: int) < 2 ^ 53 \<Longrightarrow> (to_fp (numeral n) :: f64) = Fin (numeral n)"
  using to_fp_int_f64 [of "numeral n"] by simp

lemma real_unat_le: "real (unat (n :: u64)) \<le> 18446744073709551616"
proof -
  have "unat n < 2 ^ 64" using unsigned_less [of n] by simp
  then have "real (unat n) < real (2 ^ 64)" by (simp only: of_nat_less_iff)
  then show ?thesis by simp
qed

lemma fp_of_u64_in: "fp_in (fp_of_u64 n :: f64) 0 (2 ^ 64)"
proof -
  have top: "(to_fp (2 ^ 64) :: f64) = Fin (2 ^ 64)"
    by (rule to_fp_Fin) (simp_all add: rnd_exact [of _ _ 1 "64 + 1074"])
  have "real (unat n) \<le> 2 ^ 64" using real_unat_le [of n] by simp
  then show ?thesis unfolding fp_of_u64_def by (rule to_fp_in [OF of_nat_0_le_iff _ to_fp_0 top])
qed

text \<open>A quotient of two integers, the smaller by the larger, lies between 0 and 1.\<close>

lemma fp_ratio_in:
  assumes "0 \<le> x" "x \<le> y" "1 \<le> y" "(to_fp y :: f64) = Fin y'"
  shows "fp_in (to_fp x / to_fp y :: f64) 0 1"
proof -
  obtain x' where x: "(to_fp x :: f64) = Fin x'" "0 \<le> x'" "x' \<le> y'"
    using to_fp_between [OF assms(1,2) to_fp_0 assms(4)] by blast
  obtain z where z: "(to_fp y :: f64) = Fin z" "1 \<le> z"
    using to_fp_between [OF assms(3) order_refl to_fp_1_f64 assms(4)] by blast
  have "0 \<le> x' / y'" "x' / y' \<le> 1" using x z assms(4) by simp_all
  then show ?thesis
    using x z assms(4) by (simp add: divide_fp_def to_fp_in [OF _ _ to_fp_0 to_fp_1_f64])
qed

section \<open>Norms\<close>

text \<open>The square root of the sum of the squares, and the bound of its normalised value.\<close>

definition l2_norm :: "'p :: len fp list \<Rightarrow> 'p fp" where
  "l2_norm xs = fp_sqrt (fp_sum (map (\<lambda>x. x * x) xs))"

fun fp_nn :: "'p fp \<Rightarrow> bool" where
  "fp_nn (Fin r) = (0 \<le> r)"
| "fp_nn NInf = False"
| "fp_nn v = True"

lemma fp_nn_to_fp:
  assumes "0 \<le> x"
  shows "fp_nn (to_fp x :: 'p :: len fp)"
proof -
  have "0 \<le> rnd TYPE('p) x" using rnd_mono [OF assms, of "TYPE('p)"] by simp
  moreover have "0 < (2 :: real) ^ fp_emax TYPE('p)" by simp
  ultimately show ?thesis by (simp add: to_fp_def Let_def)
qed

lemma fp_nn_add: "fp_nn x \<Longrightarrow> fp_nn y \<Longrightarrow> fp_nn (x + y)"
  unfolding plus_fp_def by (cases x; cases y) (auto intro: fp_nn_to_fp)

lemma fp_nn_square: "fp_nn (x * x)"
  unfolding times_fp_def by (cases x) (auto simp: fp_inf_def intro: fp_nn_to_fp)

lemma fp_nn_sum: "\<forall>x \<in> set xs. fp_nn x \<Longrightarrow> fp_nn (fp_sum xs)"
proof -
  have "fp_nn a \<Longrightarrow> \<forall>x \<in> set xs. fp_nn x \<Longrightarrow> fp_nn (foldl (+) a xs)" for a
    by (induction xs arbitrary: a) (auto intro: fp_nn_add)
  then show "\<forall>x \<in> set xs. fp_nn x \<Longrightarrow> fp_nn (fp_sum xs)" by (simp add: fp_sum_def zero_fp_def)
qed

lemma fp_nn_sqrt: "fp_nn x \<Longrightarrow> fp_nn (fp_sqrt x)"
  by (cases x) (auto intro: fp_nn_to_fp)

lemma fp_nn_div: "fp_nn x \<Longrightarrow> 0 < d \<Longrightarrow> fp_nn (x / Fin d)"
  unfolding divide_fp_def by (cases x) (auto simp: fp_inf_def intro: fp_nn_to_fp)

lemma fp_nn_mul: "fp_nn x \<Longrightarrow> fp_nn y \<Longrightarrow> fp_nn (x * y)"
  unfolding times_fp_def by (cases x; cases y) (auto simp: fp_inf_def sgn_if intro: fp_nn_to_fp)

lemma fp_nn_divide: "fp_nn x \<Longrightarrow> fp_nn y \<Longrightarrow> fp_nn (x / y)"
  unfolding divide_fp_def by (cases x; cases y) (auto simp: fp_inf_def intro: fp_nn_to_fp)

lemma fp_in_nn: "fp_in x a b \<Longrightarrow> 0 \<le> a \<Longrightarrow> fp_nn x"
  by (auto simp: fp_in_def)

lemma fp_nn_l2_norm: "fp_nn (l2_norm xs)"
  unfolding l2_norm_def by (intro fp_nn_sqrt fp_nn_sum) (auto intro: fp_nn_square)

lemma fp_nn_min: "fp_nn x \<Longrightarrow> 0 \<le> d \<Longrightarrow> fp_in (fp_min x (Fin d)) 0 d"
  by (cases x) (auto simp: fp_min_def)

lemma unit_norm_in: "fp_in (fp_min (l2_norm xs / to_fp 3) 1 :: f64) 0 1"
  using fp_nn_min [OF fp_nn_div [OF fp_nn_l2_norm [of xs], of 3], of 1]
  by (simp add: to_fp_numeral_f64 one_fp_def)

end
