(* ===== verification/CacheHitRate.thy ===== *)
theory CacheHitRate
  imports SysvarCache Floats
begin

text \<open>
  The hit rate of the sysvar cache, \<open>hit_rate\<close> of \<open>src/optimizer/src/cache.rs\<close>: a quotient of its
  two counters in double precision.
\<close>

definition cache_hit_rate :: "profile \<Rightarrow> 'c sysvar_cache \<Rightarrow> f64 res" where
  "cache_hit_rate p c =
     (let hits = sc_hits c; misses = sc_misses c
      in res_bind (add_u64 p hits misses) (\<lambda>total.
           Inr (if total = 0 then 0 else fp_of_u64 hits / fp_of_u64 total)))"

lemma fp_of_usize_Fin:
  assumes "n < 2 ^ 64"
  shows "\<exists>r. (to_fp (real n) :: f64) = Fin r"
proof -
  have "fp_of_u64 (of_nat n) = (to_fp (real n) :: f64)"
    unfolding fp_of_u64_def unat_of_nat_u64 [OF assms] ..
  then show ?thesis using fp_of_u64_in [of "of_nat n"] by (auto simp: fp_in_def)
qed

lemma hit_ratio_in:
  assumes "h \<le> n" "0 < n" "n < 2 ^ 64"
  shows "fp_in (fp_of_usize h / fp_of_usize n :: f64) 0 1"
proof -
  obtain y where "(to_fp (real n) :: f64) = Fin y" using fp_of_usize_Fin [OF assms(3)] by blast
  then show ?thesis using assms unfolding fp_of_usize_def by (intro fp_ratio_in) auto
qed

text \<open>
  The hit rate after any run with fewer than \<open>2 ^ 64\<close> lookups: the sum of the counters never
  overflows, the rate is the number of lookups that returned a result divided by the number of
  lookups (0 if there were none), rounded as the two conversions and the division round, and it
  lies between 0 and 1.
\<close>

lemma cache_hit_rate_correct:
  assumes lru: "lru_cache ops ok cap"
    and few: "length (cache_answers ops (cache_new ops n epoch slot) as) < 2 ^ 64"
  shows "let answers = cache_answers ops (cache_new ops n epoch slot) as;
             hits = length (filter (\<lambda>a. a \<noteq> None) answers)
    in \<exists>rate. cache_hit_rate p (cache_run ops (cache_new ops n epoch slot) as) = Inr rate \<and>
         rate = (if answers = [] then 0 else fp_of_usize hits / fp_of_usize (length answers)) \<and>
         fp_in rate 0 1"
proof -
  define answers where "answers = cache_answers ops (cache_new ops n epoch slot) as"
  define h where "h = length (filter (\<lambda>a. a \<noteq> None) answers)"
  define m where "m = length (filter (\<lambda>a. a = None) answers)"
  let ?c = "cache_run ops (cache_new ops n epoch slot) as"
  have sum: "h + m = length answers"
    using sum_length_filter_compl [of "\<lambda>a. a \<noteq> None" answers] by (simp add: h_def m_def)
  have c: "sc_hits ?c = of_nat h" "sc_misses ?c = of_nat m"
    using sysvar_lru.run_counters [OF sysvar_lru.intro [OF lru], of n epoch slot as]
    by (simp_all add: h_def m_def answers_def)
  have len: "length answers < 2 ^ 64" using few by (simp add: answers_def)
  have u: "unat (of_nat h :: u64) = h" "unat (of_nat m :: u64) = m" "unat (of_nat (length answers) :: u64) = length answers"
    using len sum by (auto intro!: unat_of_nat_u64)
  have word: "of_nat h + of_nat m = (of_nat (length answers) :: u64)"
    by (simp flip: sum)
  have "add_u64 p (of_nat h) (of_nat m) = Inr (of_nat h + of_nat m)"
    using len u sum by (intro add_u64_fits) simp
  moreover have "(of_nat (length answers) :: u64) = 0 \<longleftrightarrow> answers = []"
  proof
    assume "(of_nat (length answers) :: u64) = 0"
    then have "unat (of_nat (length answers) :: u64) = 0" by simp
    then show "answers = []" unfolding u by simp
  qed simp
  moreover have "fp_of_u64 (of_nat h) = (fp_of_usize h :: f64)"
    "fp_of_u64 (of_nat (length answers)) = (fp_of_usize (length answers) :: f64)"
    unfolding fp_of_u64_def fp_of_usize_def u by (rule refl)+
  ultimately have rate: "cache_hit_rate p ?c =
      Inr (if answers = [] then 0 else fp_of_usize h / fp_of_usize (length answers))"
    by (simp add: cache_hit_rate_def Let_def c word)
  have "fp_in (if answers = [] then 0 else fp_of_usize h / fp_of_usize (length answers) :: f64) 0 1"
    using hit_ratio_in [of h "length answers"] sum len by (simp add: zero_fp_def)
  then show ?thesis
    using rate unfolding Let_def answers_def [symmetric] h_def [symmetric] by blast
qed

end
