(* ===== verification/Batcher.thy ===== *)
theory Batcher
  imports Common
begin

text \<open>
  The batcher of the optimizer, \<open>src/optimizer/src/batcher.rs\<close>.  The groups are a hash map whose
  keys are collected in the map's iteration order and then sorted; the order is an argument.
\<close>

record pending_syscall =
  ps_syscall_id :: syscall_id
  ps_args_hash :: args_hash
  ps_args :: bytes
  ps_sequence_index :: nat

record batched_fetch =
  bf_syscall_ids :: "syscall_id list"
  bf_args_hashes :: "args_hash list"

definition can_batch :: "syscall_id \<Rightarrow> bool" where
  "can_batch sid \<longleftrightarrow> 1 \<le> sid \<and> sid \<le> 9"

type_synonym groups = "(syscall_id, args_hash list) fmap"

text \<open>One iteration of the grouping loop.\<close>

definition add_pending :: "groups \<Rightarrow> pending_syscall \<Rightarrow> groups" where
  "add_pending groups p =
     (if \<not> can_batch (ps_syscall_id p) then groups
      else (let hashes = (case fmlookup groups (ps_syscall_id p) of None \<Rightarrow> [] | Some hs \<Rightarrow> hs);
                hashes' = (if ps_args_hash p \<notin> set hashes then hashes @ [ps_args_hash p] else hashes)
            in fmupd (ps_syscall_id p) hashes' groups))"

text \<open>The loop over the sorted keys, which takes each group out of the map.\<close>

fun take_groups :: "syscall_id list \<Rightarrow> groups \<Rightarrow> batched_fetch list res" where
  "take_groups [] groups = Inr []"
| "take_groups (sid # sids) groups =
     (case fmlookup groups sid of
        None \<Rightarrow> Inl UnwrapOnNone
      | Some hashes \<Rightarrow>
          res_bind (take_groups sids (fmdrop sid groups)) (\<lambda>result.
            Inr (\<lparr>bf_syscall_ids = replicate (length hashes) sid, bf_args_hashes = hashes\<rparr> # result)))"

definition batch_sysvar_reads ::
  "(groups \<Rightarrow> syscall_id list) \<Rightarrow> pending_syscall list \<Rightarrow> batched_fetch list res" where
  "batch_sysvar_reads order pending =
     (let groups = foldl add_pending fmempty pending;
          sorted_ids = sort (order groups)
      in take_groups sorted_ids groups)"

section \<open>The groups after the loop\<close>

text \<open>The distinct elements of a list, in the order of their first occurrences.\<close>

definition first_occurrences :: "'a list \<Rightarrow> 'a list" where
  "first_occurrences xs = rev (remdups (rev xs))"

lemma first_occurrences_snoc:
  "first_occurrences (xs @ [x]) = (if x \<in> set xs then first_occurrences xs else first_occurrences xs @ [x])"
  by (simp add: first_occurrences_def)

lemma set_first_occurrences [simp]: "set (first_occurrences xs) = set xs"
  and distinct_first_occurrences: "distinct (first_occurrences xs)"
  by (simp_all add: first_occurrences_def)

definition hashes_of :: "pending_syscall list \<Rightarrow> syscall_id \<Rightarrow> args_hash list" where
  "hashes_of pending sid = map ps_args_hash (filter (\<lambda>p. ps_syscall_id p = sid) pending)"

definition batchable_ids :: "pending_syscall list \<Rightarrow> syscall_id set" where
  "batchable_ids pending = {sid \<in> ps_syscall_id ` set pending. can_batch sid}"

lemma hashes_of_snoc [simp]:
  "hashes_of [] sid = []"
  "hashes_of (pending @ [p]) sid =
     hashes_of pending sid @ (if ps_syscall_id p = sid then [ps_args_hash p] else [])"
  by (simp_all add: hashes_of_def)

lemma batchable_ids_snoc [simp]:
  "batchable_ids [] = {}"
  "batchable_ids (pending @ [p]) =
     (if can_batch (ps_syscall_id p) then insert (ps_syscall_id p) (batchable_ids pending)
      else batchable_ids pending)"
  by (auto simp: batchable_ids_def)

lemma hashes_of_none: "can_batch sid \<Longrightarrow> sid \<notin> batchable_ids pending \<Longrightarrow> hashes_of pending sid = []"
  by (auto simp: hashes_of_def batchable_ids_def filter_empty_conv)

lemma add_pending_lookup:
  "fmlookup (add_pending g p) sid =
     (if can_batch (ps_syscall_id p) \<and> sid = ps_syscall_id p
      then (let hashes = (case fmlookup g sid of None \<Rightarrow> [] | Some hs \<Rightarrow> hs)
            in Some (if ps_args_hash p \<in> set hashes then hashes else hashes @ [ps_args_hash p]))
      else fmlookup g sid)"
  by (auto simp: add_pending_def Let_def split: option.splits)

lemma batchable_can_batch: "sid \<in> batchable_ids pending \<Longrightarrow> can_batch sid"
  by (simp add: batchable_ids_def)

lemma groups_lookup:
  "fmlookup (foldl add_pending fmempty pending) sid =
     (if sid \<in> batchable_ids pending then Some (first_occurrences (hashes_of pending sid)) else None)"
proof (induction pending arbitrary: sid rule: rev_induct)
  case Nil
  then show ?case by simp
next
  case (snoc p pending)
  then show ?case
    using hashes_of_none [of "ps_syscall_id p" pending]
    by (cases "sid = ps_syscall_id p")
      (auto simp: add_pending_lookup first_occurrences_snoc Let_def batchable_can_batch first_occurrences_def)
qed

lemma take_groups_all:
  assumes "distinct sids" "\<forall>sid \<in> set sids. fmlookup g sid = Some (h sid)"
  shows "take_groups sids g =
    Inr (map (\<lambda>sid. \<lparr>bf_syscall_ids = replicate (length (h sid)) sid, bf_args_hashes = h sid\<rparr>) sids)"
  using assms
proof (induction sids arbitrary: g)
  case Nil
  then show ?case by simp
next
  case (Cons sid sids)
  then have "\<forall>x \<in> set sids. fmlookup (fmdrop sid g) x = Some (h x)" by auto
  then show ?case using Cons by simp
qed

lemma sorted_order:
  assumes "iter_order g ks" and "\<And>sid. fmlookup g sid \<noteq> None \<longleftrightarrow> sid \<in> S"
  shows "sort ks = sorted_list_of_set S"
proof -
  have "set ks = S" using iter_order_mem [OF assms(1)] assms(2) by auto
  then show ?thesis
    using assms(1) by (metis iter_order_def sorted_list_of_set_sort_remdups distinct_remdups_id)
qed

lemma batch_result:
  assumes order: "\<And>m. iter_order m (order m)"
  shows "batch_sysvar_reads order pending = Inr
      (map (\<lambda>sid. let hashes = first_occurrences (hashes_of pending sid)
                  in \<lparr>bf_syscall_ids = replicate (length hashes) sid, bf_args_hashes = hashes\<rparr>)
         (sorted_list_of_set (batchable_ids pending)))"
proof -
  let ?g = "foldl add_pending fmempty pending"
  have fin: "finite (batchable_ids pending)" by (simp add: batchable_ids_def)
  have "sort (order ?g) = sorted_list_of_set (batchable_ids pending)"
    by (rule sorted_order [OF order]) (simp add: groups_lookup)
  moreover have "take_groups (sorted_list_of_set (batchable_ids pending)) ?g = Inr
      (map (\<lambda>sid. \<lparr>bf_syscall_ids = replicate (length (first_occurrences (hashes_of pending sid))) sid,
                   bf_args_hashes = first_occurrences (hashes_of pending sid)\<rparr>)
         (sorted_list_of_set (batchable_ids pending)))"
    by (rule take_groups_all) (simp_all add: fin groups_lookup)
  ultimately show ?thesis by (simp add: batch_sysvar_reads_def Let_def)
qed

section \<open>Properties\<close>

text \<open>
  C22.  The result of the batcher, for every iteration order of the map: one batch for each
  batchable syscall that occurs, in ascending order of the syscall numbers, holding each of its
  argument hashes exactly once, in the order of their first occurrences; the \<open>unwrap\<close> never
  panics.  Hence every batchable read is in exactly one batch, and no other syscall is in one.
\<close>

theorem batch_sysvar_reads_correct:
  assumes order: "\<And>m. iter_order m (order m)"
  shows "batch_sysvar_reads order pending = Inr
      (map (\<lambda>sid. let hashes = first_occurrences (hashes_of pending sid)
                  in \<lparr>bf_syscall_ids = replicate (length hashes) sid, bf_args_hashes = hashes\<rparr>)
         (sorted_list_of_set (batchable_ids pending)))"
  by (rule batch_result [OF order])

definition sample_pending :: "u32 \<Rightarrow> u64 \<Rightarrow> pending_syscall" where
  "sample_pending sid h = \<lparr>ps_syscall_id = sid, ps_args_hash = h, ps_args = [], ps_sequence_index = 0\<rparr>"

theorem batch_sysvar_reads_correct_witness:
  "batch_sysvar_reads (\<lambda>m. sorted_list_of_fset (fmdom m))
     [sample_pending 2 300, sample_pending 1 200, sample_pending 20 0, sample_pending 1 100, sample_pending 1 200] =
   Inr [\<lparr>bf_syscall_ids = [1, 1], bf_args_hashes = [200, 100]\<rparr>, \<lparr>bf_syscall_ids = [2], bf_args_hashes = [300]\<rparr>]"
proof -
  let ?p = "[sample_pending 2 300, sample_pending 1 200, sample_pending 20 0, sample_pending 1 100, sample_pending 1 200]"
  have "batchable_ids ?p = {1, 2}"
    by (auto simp: batchable_ids_def sample_pending_def can_batch_def)
  then show ?thesis
    using batch_sysvar_reads_correct [of "\<lambda>m. sorted_list_of_fset (fmdom m)" ?p, OF sorted_fmdom_order]
    by (simp add: hashes_of_def sample_pending_def first_occurrences_def)
qed

end
