(* ===== verification/Baseline.thy ===== *)
theory Baseline
  imports Common Floats
begin

text \<open>
  The behavioural baseline of a program, \<open>src/anomaly/src/baseline.rs\<close>: frequencies of its
  syscalls, the share of cryptographic calls, the delay between calls and the depth, blended over
  the windows it is shown.  The natural logarithm, whose precision Rust leaves open, is an
  argument \<open>lnf\<close>; so are the iteration orders of the hash maps.
\<close>

section \<open>The baseline\<close>

record program_baseline =
  pb_program_id :: pubkey
  pb_syscall_frequencies :: "(syscall_id, f64) fmap"
  pb_mean_inter_call_delay_ns :: f64
  pb_max_cpi_depth :: u8
  pb_crypto_ratio :: f64
  pb_total_observations :: u64

definition CRYPTO_IDS :: "syscall_id list" where
  "CRYPTO_IDS = [SOL_SHA256, SOL_KECCAK256, SOL_SECP256K1_RECOVER, SOL_ED25519_VERIFY]"

definition baseline_new :: "pubkey \<Rightarrow> program_baseline" where
  "baseline_new program_id = \<lparr>pb_program_id = program_id, pb_syscall_frequencies = fmempty,
     pb_mean_inter_call_delay_ns = 0, pb_max_cpi_depth = 0, pb_crypto_ratio = 0,
     pb_total_observations = 0\<rparr>"

text \<open>The local variables of the counting loop, and one iteration.\<close>

record tally =
  ta_counts :: "(syscall_id, u64) fmap"
  ta_total :: u64
  ta_crypto :: u64
  ta_max_depth :: u8

definition tally_new :: tally where
  "tally_new = \<lparr>ta_counts = fmempty, ta_total = 0, ta_crypto = 0, ta_max_depth = 0\<rparr>"

definition tally_event :: "profile \<Rightarrow> tally \<Rightarrow> trace_event \<Rightarrow> tally res" where
  "tally_event p t e =
     res_bind (bump_entry p (ev_syscall_id e) (ta_counts t)) (\<lambda>counts.
     res_bind (add_u64 p (ta_total t) 1) (\<lambda>tot.
     res_bind (if ev_syscall_id e \<in> set CRYPTO_IDS then add_u64 p (ta_crypto t) 1 else Inr (ta_crypto t))
       (\<lambda>crypto.
        Inr \<lparr>ta_counts = counts, ta_total = tot, ta_crypto = crypto,
             ta_max_depth = (if ta_max_depth t < ev_depth e then ev_depth e else ta_max_depth t)\<rparr>)))"

fun tally_events :: "profile \<Rightarrow> tally \<Rightarrow> trace_event list \<Rightarrow> tally res" where
  "tally_events p t [] = Inr t"
| "tally_events p t (e # es) = res_bind (tally_event p t e) (\<lambda>t'. tally_events p t' es)"

text \<open>The learning rate and the exponential moving average.\<close>

definition alpha :: f64 where
  "alpha = to_fp (1 / 10)"

definition blend :: "f64 \<Rightarrow> f64 \<Rightarrow> f64" where
  "blend old new = (1 - alpha) * old + alpha * new"

definition blend_frequency ::
  "(syscall_id, u64) fmap \<Rightarrow> u64 \<Rightarrow> (syscall_id, f64) fmap \<Rightarrow> syscall_id \<Rightarrow> (syscall_id, f64) fmap" where
  "blend_frequency counts tot freqs sid =
     (let count = (case fmlookup counts sid of None \<Rightarrow> 0 | Some c \<Rightarrow> c);
          new_freq = fp_of_u64 count / fp_of_u64 tot;
          old_freq = (case fmlookup freqs sid of None \<Rightarrow> 0 | Some f \<Rightarrow> f)
      in fmupd sid (blend old_freq new_freq) freqs)"

text \<open>The delays between consecutive events; the subtraction of the time stamps is signed.\<close>

fun delays :: "profile \<Rightarrow> trace_event list \<Rightarrow> f64 list res" where
  "delays p (e0 # e1 # es) =
     res_bind (sub_i64 p (ev_timestamp_ns e1) (ev_timestamp_ns e0)) (\<lambda>d.
       res_bind (delays p (e1 # es)) (\<lambda>ds. Inr (fp_of_u64 (unsigned_abs_i64 d) # ds)))"
| "delays p es = Inr []"

definition blend_delay :: "profile \<Rightarrow> trace_event list \<Rightarrow> f64 \<Rightarrow> f64 res" where
  "blend_delay p events old =
     (if 1 < length events
      then res_bind (delays p events) (\<lambda>ds.
             let mean_delay = fp_sum ds / fp_of_usize (length ds) in Inr (blend old mean_delay))
      else Inr old)"

definition update ::
  "profile \<Rightarrow> ((syscall_id, u64) fmap \<Rightarrow> syscall_id list) \<Rightarrow> program_baseline \<Rightarrow> trace_event list \<Rightarrow>
   program_baseline res" where
  "update p order b events =
     (if events = [] then Inr b
      else res_bind (tally_events p tally_new events) (\<lambda>t.
        let tot = ta_total t;
            freqs = foldl (blend_frequency (ta_counts t) tot) (pb_syscall_frequencies b) (order (ta_counts t));
            b1 = b\<lparr>pb_syscall_frequencies := freqs\<rparr>
        in res_bind (blend_delay p events (pb_mean_inter_call_delay_ns b1)) (\<lambda>delay.
          let b2 = b1\<lparr>pb_mean_inter_call_delay_ns := delay\<rparr>;
              new_crypto_ratio = (if 0 < tot then fp_of_u64 (ta_crypto t) / fp_of_u64 tot else 0);
              b3 = b2\<lparr>pb_crypto_ratio := blend (pb_crypto_ratio b2) new_crypto_ratio\<rparr>;
              b4 = (if pb_max_cpi_depth b3 < ta_max_depth t
                    then b3\<lparr>pb_max_cpi_depth := ta_max_depth t\<rparr> else b3)
          in res_bind (add_u64 p (pb_total_observations b4) tot) (\<lambda>n.
             Inr (b4\<lparr>pb_total_observations := n\<rparr>)))))"

definition epsilon :: f64 where
  "epsilon = to_fp (1 / 10 ^ 10)"

definition kl_term :: "(f64 \<Rightarrow> f64) \<Rightarrow> program_baseline \<Rightarrow> (syscall_id, f64) fmap \<Rightarrow> f64 \<Rightarrow> syscall_id \<Rightarrow> f64" where
  "kl_term lnf b observed kl sid =
     (let p = (case fmlookup observed sid of None \<Rightarrow> 0 | Some x \<Rightarrow> x);
          q = (case fmlookup (pb_syscall_frequencies b) sid of None \<Rightarrow> epsilon | Some x \<Rightarrow> x)
      in if 0 < p then kl + p * lnf (p / fp_max q epsilon) else kl)"

definition kl_divergence ::
  "(f64 \<Rightarrow> f64) \<Rightarrow> ((syscall_id, f64) fmap \<Rightarrow> syscall_id list) \<Rightarrow> program_baseline \<Rightarrow>
   (syscall_id, f64) fmap \<Rightarrow> f64" where
  "kl_divergence lnf order b observed = foldl (kl_term lnf b observed) 0 (order observed)"

text \<open>
  \<open>sort_by\<close> with \<open>partial_cmp(..).unwrap()\<close>, in descending order: with at least two elements each is
  compared, so a NaN panics.
\<close>

fun insert_desc :: "f64 \<Rightarrow> f64 list \<Rightarrow> f64 list" where
  "insert_desc x [] = [x]"
| "insert_desc x (y # ys) = (if x < y then y # insert_desc x ys else x # y # ys)"

definition sort_desc :: "f64 list \<Rightarrow> f64 list res" where
  "sort_desc xs = (if 1 < length xs \<and> NaN \<in> set xs then Inl UnwrapOnNone else Inr (foldr insert_desc xs []))"

definition resize :: "nat \<Rightarrow> 'a \<Rightarrow> 'a list \<Rightarrow> 'a list" where
  "resize n x xs = take n xs @ replicate (n - length xs) x"

definition feature_vector ::
  "((syscall_id, f64) fmap \<Rightarrow> syscall_id list) \<Rightarrow> program_baseline \<Rightarrow> f64 list res" where
  "feature_vector order b =
     (let delay_norm = fp_min (pb_mean_inter_call_delay_ns b / to_fp 1000000) (to_fp 100);
          depth_norm = to_fp (real (unat (pb_max_cpi_depth b))) / to_fp 10;
          diversity = fp_of_usize (hm_len (pb_syscall_frequencies b)) / to_fp 30;
          values = map (\<lambda>sid. case fmlookup (pb_syscall_frequencies b) sid of None \<Rightarrow> 0 | Some f \<Rightarrow> f)
                     (order (pb_syscall_frequencies b))
      in res_bind (sort_desc values) (\<lambda>sorted.
           let freqs = resize 5 0 sorted
           in Inr [pb_crypto_ratio b, depth_norm, delay_norm, diversity,
                   freqs ! 0, freqs ! 1, freqs ! 2, freqs ! 3]))"

section \<open>The store\<close>

type_synonym baseline_store = "(pubkey, program_baseline) fmap"

definition store_new :: baseline_store where
  "store_new = fmempty"

definition store_update_program ::
  "profile \<Rightarrow> ((syscall_id, u64) fmap \<Rightarrow> syscall_id list) \<Rightarrow> baseline_store \<Rightarrow> pubkey \<Rightarrow> trace_event list \<Rightarrow>
   baseline_store res" where
  "store_update_program p order s program_id events =
     (let b = (case fmlookup s program_id of None \<Rightarrow> baseline_new program_id | Some b \<Rightarrow> b)
      in res_bind (update p order b events) (\<lambda>b'. Inr (fmupd program_id b' s)))"

definition store_get :: "baseline_store \<Rightarrow> pubkey \<Rightarrow> program_baseline option" where
  "store_get s program_id = fmlookup s program_id"

definition store_len :: "baseline_store \<Rightarrow> nat" where
  "store_len s = hm_len s"

definition store_is_empty :: "baseline_store \<Rightarrow> bool" where
  "store_is_empty s \<longleftrightarrow> s = fmempty"

definition store_default :: baseline_store where
  "store_default = store_new"

section \<open>The moving average\<close>

lemma alpha_value: "alpha = Fin (7205759403792794 / 2 ^ 56)"
proof -
  have "rne (2 ^ 56 / 10) = 7205759403792794" by (rule rne_unique) simp
  then have "rnd TYPE(53) (2 ^ 56 / 10 / 2 ^ 56) = 7205759403792794 / 2 ^ 56"
    by (subst rnd_scaled) simp_all
  then show ?thesis unfolding alpha_def by (intro to_fp_Fin) simp_all
qed

lemma one_minus_alpha: "1 - alpha = Fin (8106479329266893 / 2 ^ 53)"
proof -
  have "rne (32425917317067571 / 4) = 8106479329266893" by (rule rne_unique) simp
  then have "rnd TYPE(53) (32425917317067571 / 4 / 2 ^ 53) = 8106479329266893 / 2 ^ 53"
    by (subst rnd_scaled) simp_all
  then show ?thesis
    unfolding alpha_value fp_ops fp_neg.simps fp_add.simps by (intro to_fp_Fin) simp_all
qed

text \<open>The two weights round to slightly more than one in sum, but the sum rounds back to one.\<close>

lemma weights_sum: "(to_fp (8106479329266893 / 2 ^ 53 + 7205759403792794 / 2 ^ 56) :: f64) = Fin 1"
proof -
  have "rne (36028797018963969 / 8) = 2 ^ 52" by (rule rne_unique) simp
  then have "rnd TYPE(53) (36028797018963969 / 8 / 2 ^ 52) = 2 ^ 52 / 2 ^ 52"
    by (subst rnd_scaled) simp_all
  then show ?thesis by (intro to_fp_Fin) simp_all
qed

lemma blend_in:
  assumes "fp_in old 0 1" "fp_in new 0 1"
  shows "fp_in (blend old new) 0 1"
proof -
  have "fp_in ((1 - alpha) * old) 0 (8106479329266893 / 2 ^ 53)"
    by (rule fp_in_mul [where a = "8106479329266893 / 2 ^ 53" and b = "8106479329266893 / 2 ^ 53", OF _ assms(1)])
      (use to_fp_dyadic_f64 [of 8106479329266893 53] in \<open>simp_all add: one_minus_alpha\<close>)
  moreover have "fp_in (alpha * new) 0 (7205759403792794 / 2 ^ 56)"
    by (rule fp_in_mul [where a = "7205759403792794 / 2 ^ 56" and b = "7205759403792794 / 2 ^ 56", OF _ assms(2)])
      (use to_fp_dyadic_f64 [of 7205759403792794 56] in \<open>simp_all add: alpha_value\<close>)
  ultimately show ?thesis
    unfolding blend_def by (rule fp_in_add [OF _ _ _ weights_sum]) simp
qed

lemma fp_of_u64_of_nat: "n < 2 ^ 64 \<Longrightarrow> fp_of_u64 (of_nat n) = to_fp (real n)"
  unfolding fp_of_u64_def by (simp only: unat_of_nat_u64)

lemma count_ratio_in:
  assumes "c \<le> n" "0 < n" "n < 2 ^ 64"
  shows "fp_in (fp_of_u64 (of_nat c) / fp_of_u64 (of_nat n) :: f64) 0 1"
proof -
  obtain y where y: "(to_fp (real n) :: f64) = Fin y"
    using fp_of_u64_in [of "of_nat n"] unfolding fp_of_u64_of_nat [OF assms(3)] fp_in_def by blast
  have "fp_in (to_fp (real c) / to_fp (real n) :: f64) 0 1"
    using assms by (intro fp_ratio_in [OF _ _ _ y]) simp_all
  then show ?thesis using assms by (simp add: fp_of_u64_of_nat)
qed

section \<open>The counting loop\<close>

abbreviation is_crypto :: "trace_event \<Rightarrow> bool" where
  "is_crypto e \<equiv> ev_syscall_id e \<in> set CRYPTO_IDS"

definition tallied :: "trace_event list \<Rightarrow> tally \<Rightarrow> bool" where
  "tallied es t \<longleftrightarrow> counts_match (ta_counts t) (map ev_syscall_id es) \<and> ta_total t = of_nat (length es) \<and>
     ta_crypto t = of_nat (length (filter is_crypto es)) \<and>
     ta_max_depth t = foldl max 0 (map ev_depth es)"

lemma tallied_step:
  assumes "tallied es t" "tally_event p t e = Inr t'"
  shows "tallied (es @ [e]) t'"
  using assms counts_match_bump [of "ta_counts t" "map ev_syscall_id es" p "ev_syscall_id e"]
  by (auto simp: tallied_def tally_event_def res_bind_Inr_iff max_def dest!: add_u64_InrD split: if_splits)

lemma tally_fits:
  assumes "tallied es t" "p = Release \<or> Suc (length es) < 2 ^ 64"
  shows "\<exists>t'. tally_event p t e = Inr t'"
proof -
  have l: "length (filter is_crypto es) \<le> length es" by simp
  have b: "\<exists>m'. bump_entry p (ev_syscall_id e) (ta_counts t) = Inr m'"
    using assms bump_entry_fits [of "ta_counts t" "map ev_syscall_id es" p]
      bump_entry_Release [of "ev_syscall_id e" "ta_counts t"]
    by (auto simp: tallied_def)
  have "add_u64 p (ta_total t) 1 = Inr (of_nat (Suc (length es)))"
    "add_u64 p (ta_crypto t) 1 = Inr (of_nat (Suc (length (filter is_crypto es))))"
    using assms le_less_trans [OF l] add_u64_of_nat_Suc by (auto simp: tallied_def)
  then show ?thesis using b by (auto simp: tally_event_def)
qed

lemma tally_events_tallied:
  "tallied es0 t \<Longrightarrow> tally_events p t es = Inr t' \<Longrightarrow> tallied (es0 @ es) t'"
proof (induction es arbitrary: es0 t)
  case (Cons e es)
  then obtain t1 where "tally_event p t e = Inr t1" "tally_events p t1 es = Inr t'"
    by (auto simp: res_bind_Inr_iff)
  then show ?case using Cons.IH [of "es0 @ [e]" t1] tallied_step [OF Cons.prems(1)] by simp
qed simp

lemma tally_events_fits:
  "tallied es0 t \<Longrightarrow> p = Release \<or> length es0 + length es < 2 ^ 64 \<Longrightarrow> \<exists>t'. tally_events p t es = Inr t'"
proof (induction es arbitrary: es0 t)
  case (Cons e es)
  then obtain t1 where t1: "tally_event p t e = Inr t1" using tally_fits [of es0 t p e] by auto
  then show ?case
    using Cons.IH [OF tallied_step [OF Cons.prems(1) t1]] Cons.prems(2) by auto
qed simp

lemma tallied_new: "tallied [] tally_new"
  by (simp add: tallied_def tally_new_def counts_match_def)

section \<open>The update\<close>

definition old_frequency :: "(syscall_id, f64) fmap \<Rightarrow> syscall_id \<Rightarrow> f64" where
  "old_frequency freqs sid = (case fmlookup freqs sid of None \<Rightarrow> 0 | Some f \<Rightarrow> f)"

text \<open>The frequency of a syscall in a window.\<close>

definition window_frequency :: "trace_event list \<Rightarrow> syscall_id \<Rightarrow> f64" where
  "window_frequency es sid =
     fp_of_u64 (of_nat (count_list (map ev_syscall_id es) sid)) / fp_of_u64 (of_nat (length es))"

lemma blend_frequencies_lookup:
  "distinct ks \<Longrightarrow> fmlookup (foldl (blend_frequency counts tot) freqs ks) sid =
     (if sid \<in> set ks
      then Some (blend (old_frequency freqs sid)
        (fp_of_u64 (case fmlookup counts sid of None \<Rightarrow> 0 | Some c \<Rightarrow> c) / fp_of_u64 tot))
      else fmlookup freqs sid)"
  by (induction ks arbitrary: freqs) (auto simp: blend_frequency_def old_frequency_def Let_def)

lemma update_Inr:
  assumes u: "update p order b es = Inr b'" and ne: "es \<noteq> []" and order: "\<And>m. iter_order m (order m)"
  shows "fmlookup (pb_syscall_frequencies b') sid =
      (if sid \<in> ev_syscall_id ` set es
       then Some (blend (old_frequency (pb_syscall_frequencies b) sid) (window_frequency es sid))
       else fmlookup (pb_syscall_frequencies b) sid)"
    and "pb_crypto_ratio b' = blend (pb_crypto_ratio b)
      (if 0 < (of_nat (length es) :: u64)
       then fp_of_u64 (of_nat (length (filter is_crypto es))) / fp_of_u64 (of_nat (length es)) else 0)"
    and "pb_max_cpi_depth b' = max (pb_max_cpi_depth b) (foldl max 0 (map ev_depth es))"
    and "pb_total_observations b' = pb_total_observations b + of_nat (length es)"
    and "pb_program_id b' = pb_program_id b"
proof -
  obtain t where t: "tally_events p tally_new es = Inr t"
    using u ne by (auto simp: update_def res_bind_Inr_iff)
  note b' = u [unfolded update_def t res_bind.simps Let_def, simplified ne if_False]
  have fields: "pb_syscall_frequencies b' =
        foldl (blend_frequency (ta_counts t) (ta_total t)) (pb_syscall_frequencies b) (order (ta_counts t)) \<and>
      pb_crypto_ratio b' = blend (pb_crypto_ratio b)
        (if 0 < ta_total t then fp_of_u64 (ta_crypto t) / fp_of_u64 (ta_total t) else 0) \<and>
      pb_max_cpi_depth b' = max (pb_max_cpi_depth b) (ta_max_depth t) \<and>
      pb_total_observations b' = pb_total_observations b + ta_total t \<and>
      pb_program_id b' = pb_program_id b"
    by (cases "pb_max_cpi_depth b < ta_max_depth t")
      (use b' in \<open>auto simp: res_bind_Inr_iff max_absorb1 max_absorb2 not_less dest!: add_u64_InrD\<close>)
  have ta: "tallied es t" using tally_events_tallied [OF tallied_new t] by simp
  have ks: "distinct (order (ta_counts t))" "set (order (ta_counts t)) = ev_syscall_id ` set es"
    using order [of "ta_counts t"] iter_order_mem [OF order [of "ta_counts t"]] ta
    by (auto simp: iter_order_def tallied_def counts_match_def split: if_splits)
  show "fmlookup (pb_syscall_frequencies b') sid =
      (if sid \<in> ev_syscall_id ` set es
       then Some (blend (old_frequency (pb_syscall_frequencies b) sid) (window_frequency es sid))
       else fmlookup (pb_syscall_frequencies b) sid)"
    using ta by (auto simp: fields blend_frequencies_lookup [OF ks(1)] ks(2) tallied_def counts_match_def
        window_frequency_def)
  show "pb_crypto_ratio b' = blend (pb_crypto_ratio b)
      (if 0 < (of_nat (length es) :: u64)
       then fp_of_u64 (of_nat (length (filter is_crypto es))) / fp_of_u64 (of_nat (length es)) else 0)"
    "pb_max_cpi_depth b' = max (pb_max_cpi_depth b) (foldl max 0 (map ev_depth es))"
    "pb_total_observations b' = pb_total_observations b + of_nat (length es)"
    "pb_program_id b' = pb_program_id b"
    using ta by (simp_all add: fields tallied_def)
qed

lemma uint_small:
  assumes "unat (a :: i64) < 2 ^ 63"
  shows "sint a = uint a" "0 \<le> uint a" "uint a < 2 ^ 63"
proof -
  have "int (unat a) < int (2 ^ 63)" using assms by (simp only: of_nat_less_iff)
  then show u: "uint a < 2 ^ 63" by simp
  have "signed_take_bit 63 (uint a) = uint a"
    by (rule signed_take_bit_int_eq_self) (use u order_trans [of "- (2 ^ 63)" 0 "uint a"] in simp_all)
  then show "sint a = uint a" by (simp add: sint_uint)
qed simp

lemma sub_i64_total:
  assumes "p = Release \<or> unat a < 2 ^ 63 \<and> unat b < 2 ^ 63"
  shows "\<exists>d. sub_i64 p a b = Inr d"
proof (cases "p = Release")
  case False
  then have "unat a < 2 ^ 63" "unat b < 2 ^ 63" using assms by simp_all
  note a = uint_small [OF this(1)] and b = uint_small [OF this(2)]
  have "- (2 ^ 63) \<le> sint a - sint b" "sint a - sint b < 2 ^ 63"
    unfolding a(1) b(1) using a(2,3) b(2,3) by linarith+
  then show ?thesis by (simp add: sub_i64_def)
qed (simp add: sub_i64_def)

lemma delays_total:
  "p = Release \<or> (\<forall>e \<in> set es. unat (ev_timestamp_ns e) < 2 ^ 63) \<Longrightarrow> \<exists>ds. delays p es = Inr ds"
proof (induction p es rule: delays.induct)
  case (1 p e0 e1 es)
  obtain d where "sub_i64 p (ev_timestamp_ns e1) (ev_timestamp_ns e0) = Inr d"
    using sub_i64_total [of p "ev_timestamp_ns e1" "ev_timestamp_ns e0"] "1.prems" by auto
  then show ?case using 1 by auto
qed simp_all

lemma update_total:
  assumes "p = Release \<or> (\<forall>e \<in> set es. unat (ev_timestamp_ns e) < 2 ^ 63) \<and>
    unat (pb_total_observations b) + length es < 2 ^ 64"
  shows "\<exists>b'. update p order b es = Inr b'"
proof (cases "es = []")
  case False
  obtain t where t: "tally_events p tally_new es = Inr t"
    using tally_events_fits [OF tallied_new, of p es] assms by auto
  have "ta_total t = of_nat (length es)"
    using tally_events_tallied [OF tallied_new t] by (simp add: tallied_def)
  then have n: "\<exists>n. add_u64 p (pb_total_observations b) (ta_total t) = Inr n"
    using assms by (auto simp: add_u64_def unat_of_nat_u64)
  have "\<exists>d. blend_delay p es (pb_mean_inter_call_delay_ns b) = Inr d"
    using delays_total [of p es] assms by (auto simp: blend_delay_def)
  then show ?thesis using t n False by (auto simp: update_def Let_def)
qed (simp add: update_def)

section \<open>Runs and the invariant\<close>

fun update_all ::
  "profile \<Rightarrow> ((syscall_id, u64) fmap \<Rightarrow> syscall_id list) \<Rightarrow> program_baseline \<Rightarrow> trace_event list list \<Rightarrow>
   program_baseline res" where
  "update_all p order b [] = Inr b"
| "update_all p order b (w # ws) = res_bind (update p order b w) (\<lambda>b'. update_all p order b' ws)"

definition baseline_ok :: "program_baseline \<Rightarrow> bool" where
  "baseline_ok b \<longleftrightarrow> (\<forall>sid f. fmlookup (pb_syscall_frequencies b) sid = Some f \<longrightarrow> fp_in f 0 1) \<and>
     fp_in (pb_crypto_ratio b) 0 1"

lemma update_ok:
  assumes "baseline_ok b" "update p order b es = Inr b'" "\<And>m. iter_order m (order m)" "length es < 2 ^ 64"
  shows "baseline_ok b'"
proof (cases "es = []")
  case True
  then show ?thesis using assms by (simp add: update_def)
next
  case False
  have l: "0 < length es" using False by simp
  have w: "fp_in (window_frequency es sid) 0 1" for sid
    unfolding window_frequency_def
    using count_ratio_in [OF _ l assms(4), of "count_list (map ev_syscall_id es) sid"]
      count_le_length [of "map ev_syscall_id es" sid] by simp
  have o': "fp_in (old_frequency (pb_syscall_frequencies b) sid) 0 1" for sid
    using assms(1) by (auto simp: baseline_ok_def old_frequency_def zero_fp_def split: option.split)
  have c: "fp_in (if 0 < (of_nat (length es) :: u64)
       then fp_of_u64 (of_nat (length (filter is_crypto es))) / fp_of_u64 (of_nat (length es)) else 0 :: f64) 0 1"
    using count_ratio_in [OF _ l assms(4), of "length (filter is_crypto es)"] by (simp add: zero_fp_def)
  show ?thesis
    using assms(1) update_Inr [OF assms(2) False assms(3)] blend_in [OF o' w] blend_in [OF _ c]
    by (auto simp: baseline_ok_def split: if_splits)
qed

lemma update_all_ok:
  assumes "update_all p order b ws = Inr b'" "baseline_ok b" "\<And>m. iter_order m (order m)"
    "\<forall>w \<in> set ws. length w < 2 ^ 64"
  shows "baseline_ok b' \<and>
    fset (fmdom (pb_syscall_frequencies b')) =
      fset (fmdom (pb_syscall_frequencies b)) \<union> ev_syscall_id ` set (concat ws) \<and>
    pb_max_cpi_depth b' = foldl max (pb_max_cpi_depth b) (map ev_depth (concat ws)) \<and>
    pb_total_observations b' = pb_total_observations b + of_nat (length (concat ws)) \<and>
    pb_program_id b' = pb_program_id b"
  using assms(1,2,4)
proof (induction ws arbitrary: b)
  case (Cons w ws)
  obtain b1 where b1: "update p order b w = Inr b1" "update_all p order b1 ws = Inr b'"
    using Cons.prems(1) by (auto simp: res_bind_Inr_iff)
  have ok: "baseline_ok b1" using update_ok [OF Cons.prems(2) b1(1) assms(3)] Cons.prems(3) by simp
  have fold: "max x (foldl max 0 ds) = foldl max x ds" for x and ds :: "u8 list"
  proof (induction ds rule: rev_induct)
    case (snoc d ds)
    then show ?case by (simp add: max.assoc [symmetric])
  qed simp
  have step: "fset (fmdom (pb_syscall_frequencies b1)) =
        fset (fmdom (pb_syscall_frequencies b)) \<union> ev_syscall_id ` set w \<and>
      pb_max_cpi_depth b1 = foldl max (pb_max_cpi_depth b) (map ev_depth w) \<and>
      pb_total_observations b1 = pb_total_observations b + of_nat (length w) \<and>
      pb_program_id b1 = pb_program_id b"
  proof (cases "w = []")
    case True
    then show ?thesis using b1(1) by (simp add: update_def)
  next
    case False
    note f = update_Inr [OF b1(1) False assms(3)]
    have "sid |\<in>| fmdom (pb_syscall_frequencies b1) \<longleftrightarrow>
        sid |\<in>| fmdom (pb_syscall_frequencies b) \<or> sid \<in> ev_syscall_id ` set w" for sid
      using f(1) [of sid] by (auto simp: fmlookup_dom_iff)
    then show ?thesis using f(3-5) fold by auto
  qed
  show ?case
    using Cons.IH [OF b1(2) ok] Cons.prems(3) step by (auto simp: add.assoc)
qed simp

lemma baseline_new_ok: "baseline_ok (baseline_new pid)"
  by (simp add: baseline_ok_def baseline_new_def zero_fp_def)

lemma update_all_total:
  "p = Release \<or> (\<forall>e \<in> set (concat ws). unat (ev_timestamp_ns e) < 2 ^ 63) \<and>
     unat (pb_total_observations b) + length (concat ws) < 2 ^ 64 \<Longrightarrow>
   (\<And>m. iter_order m (order m)) \<Longrightarrow> \<exists>b'. update_all p order b ws = Inr b'"
proof (induction ws arbitrary: b)
  case (Cons w ws)
  obtain b1 where b1: "update p order b w = Inr b1"
    using update_total [of p w b order] Cons.prems by auto
  have "pb_total_observations b1 = pb_total_observations b + of_nat (length w)"
    using b1 update_Inr(4) [OF b1 _ Cons.prems(2)] by (cases "w = []") (auto simp: update_def)
  then have "p = Release \<or> (\<forall>e \<in> set (concat ws). unat (ev_timestamp_ns e) < 2 ^ 63) \<and>
      unat (pb_total_observations b1) + length (concat ws) < 2 ^ 64"
    using Cons.prems(1) by (auto simp: unat_plus_u64_fits unat_of_nat_u64)
  then show ?case using Cons.IH [OF _ Cons.prems(2)] b1 by simp
qed simp

section \<open>The feature vector\<close>

lemma set_insert_desc [simp]: "set (insert_desc x ys) = insert x (set ys)"
  and length_insert_desc [simp]: "length (insert_desc x ys) = Suc (length ys)"
  by (induction ys) auto

lemma set_sorted [simp]: "set (foldr insert_desc xs []) = set xs"
  and length_sorted [simp]: "length (foldr insert_desc xs []) = length xs"
  by (induction xs) auto

lemma mset_insert_desc [simp]: "mset (insert_desc x ys) = add_mset x (mset ys)"
  by (induction ys) auto

lemma mset_sorted [simp]: "mset (foldr insert_desc xs []) = mset xs"
  by (induction xs) auto

lemma fp_not_less_trans:
  fixes a b c :: f64
  assumes "b \<noteq> NaN" "\<not> a < b" "\<not> b < c"
  shows "\<not> a < c"
  using assms by (cases a; cases b; cases c) (auto simp: less_fp_def)

lemma fp_less_asym: "(x :: f64) < y \<Longrightarrow> \<not> y < x"
  by (cases x; cases y) (auto simp: less_fp_def)

lemma insert_desc_sorted:
  assumes "sorted_wrt (\<lambda>a b. \<not> a < b) ys" "\<forall>y \<in> set ys. y \<noteq> NaN" "x \<noteq> NaN"
  shows "sorted_wrt (\<lambda>a b. \<not> a < b) (insert_desc x ys)"
  using assms by (induction ys) (auto dest: fp_less_asym fp_not_less_trans)

lemma sort_sorted:
  "NaN \<notin> set xs \<Longrightarrow> sorted_wrt (\<lambda>a b. \<not> a < b) (foldr insert_desc xs [])"
  by (induction xs) (auto intro!: insert_desc_sorted)

lemma resize_four:
  "length (resize 5 0 xs) = 5"
  "[resize 5 0 xs ! 0, resize 5 0 xs ! 1, resize 5 0 xs ! 2, resize 5 0 xs ! 3] = resize 4 0 (take 4 xs)"
proof -
  show "length (resize 5 0 xs) = 5" by (simp add: resize_def)
  show "[resize 5 0 xs ! 0, resize 5 0 xs ! 1, resize 5 0 xs ! 2, resize 5 0 xs ! 3] = resize 4 0 (take 4 xs)"
    by (rule nth_equalityI)
      (auto simp: resize_def nth_append nth_Cons less_Suc_eq numeral_2_eq_2 numeral_3_eq_3 split: nat.split)
qed

text \<open>The frequencies a baseline holds, and those of them that the vector shows.\<close>

definition held_frequencies :: "program_baseline \<Rightarrow> f64 multiset" where
  "held_frequencies b = image_mset (\<lambda>sid. the (fmlookup (pb_syscall_frequencies b) sid))
     (mset_set (fset (fmdom (pb_syscall_frequencies b))))"

lemma held_frequencies_order:
  assumes "iter_order (pb_syscall_frequencies b) ks"
  shows "mset (map (\<lambda>sid. case fmlookup (pb_syscall_frequencies b) sid of None \<Rightarrow> 0 | Some f \<Rightarrow> f) ks) =
    held_frequencies b"
proof -
  have ks: "mset ks = mset_set (fset (fmdom (pb_syscall_frequencies b)))"
    using assms mset_set_set [of ks] by (simp add: iter_order_def)
  have "map (\<lambda>sid. case fmlookup (pb_syscall_frequencies b) sid of None \<Rightarrow> 0 | Some f \<Rightarrow> f) ks =
      map (\<lambda>sid. the (fmlookup (pb_syscall_frequencies b) sid)) ks"
    using iter_order_mem [OF assms] by auto
  from arg_cong [OF this, of mset] show ?thesis unfolding mset_map held_frequencies_def ks by simp
qed

lemma top_four:
  assumes "NaN \<notin> set xs"
  defines "s \<equiv> foldr insert_desc xs []"
  shows "sorted_wrt (\<lambda>a b. \<not> a < b) (take 4 s)" "\<forall>f \<in># mset (drop 4 s). \<forall>g \<in> set (take 4 s). \<not> g < f"
    and "mset xs = mset (take 4 s) + mset (drop 4 s)"
proof -
  have split: "sorted_wrt (\<lambda>a b. \<not> a < b) (take 4 s @ drop 4 s)" using sort_sorted [OF assms(1)] by (simp add: s_def)
  then show "sorted_wrt (\<lambda>a b. \<not> a < b) (take 4 s)" "\<forall>f \<in># mset (drop 4 s). \<forall>g \<in> set (take 4 s). \<not> g < f"
    unfolding sorted_wrt_append by auto
  have "mset (take 4 s) + mset (drop 4 s) = mset s" by (metis append_take_drop_id mset_append)
  then show "mset xs = mset (take 4 s) + mset (drop 4 s)" by (simp add: s_def)
qed

section \<open>Properties\<close>

text \<open>
  C28.  A baseline built from any list of windows: in a release build, or when no time stamp
  reaches \<open>2 ^ 63\<close> and fewer than \<open>2 ^ 64\<close> events are seen, no update panics; every frequency and
  the crypto ratio stay finite and between 0 and 1 through all rounding; a frequency is held for
  exactly the syscalls seen, the depth is the largest seen and the observations are counted.
\<close>

theorem baseline_correct:
  assumes "\<And>m. iter_order m (order m)" and "\<forall>w \<in> set ws. length w < 2 ^ 64"
    and "p = Release \<or> (\<forall>e \<in> set (concat ws). unat (ev_timestamp_ns e) < 2 ^ 63) \<and> length (concat ws) < 2 ^ 64"
  shows "\<exists>b. update_all p order (baseline_new pid) ws = Inr b \<and>
    (\<forall>sid f. fmlookup (pb_syscall_frequencies b) sid = Some f \<longrightarrow> fp_in f 0 1) \<and>
    fp_in (pb_crypto_ratio b) 0 1 \<and>
    fset (fmdom (pb_syscall_frequencies b)) = ev_syscall_id ` set (concat ws) \<and>
    pb_max_cpi_depth b = foldl max 0 (map ev_depth (concat ws)) \<and>
    pb_total_observations b = of_nat (length (concat ws)) \<and> pb_program_id b = pid"
proof -
  obtain b where b: "update_all p order (baseline_new pid) ws = Inr b"
    using update_all_total [of p ws "baseline_new pid" order] assms(1,3) by (auto simp: baseline_new_def)
  from update_all_ok [OF b baseline_new_ok assms(1,2)] b show ?thesis
    by (simp add: baseline_ok_def) (simp add: baseline_new_def)
qed

text \<open>
  C30.  The feature vector of any baseline so built exists (the sort meets no NaN, so its
  \<open>unwrap\<close> does not panic) and has eight elements: the crypto ratio, the depth over 10, the mean delay
  in milliseconds but at most 100, and the number of syscalls held over 30; then the largest four of the
  frequencies held, as often as each is held, in descending order, and zeros if fewer than four are held.
  The frequencies that are left out exceed none of those; the ratio and the frequencies are between 0 and 1.
\<close>

theorem feature_vector_correct:
  assumes "update_all p order (baseline_new pid) ws = Inr b" and "\<And>m. iter_order m (order m)"
    and "\<forall>w \<in> set ws. length w < 2 ^ 64" and "iter_order (pb_syscall_frequencies b) (order' (pb_syscall_frequencies b))"
  shows "\<exists>top rest.
    feature_vector order' b = Inr ([pb_crypto_ratio b, to_fp (real (unat (pb_max_cpi_depth b))) / to_fp 10,
      fp_min (pb_mean_inter_call_delay_ns b / to_fp 1000000) (to_fp 100),
      fp_of_usize (hm_len (pb_syscall_frequencies b)) / to_fp 30] @ top @ replicate (4 - length top) 0) \<and>
    held_frequencies b = mset top + rest \<and> length top = min 4 (hm_len (pb_syscall_frequencies b)) \<and>
    sorted_wrt (\<lambda>a b. \<not> a < b) top \<and> (\<forall>f \<in># rest. \<forall>g \<in> set top. \<not> g < f) \<and>
    fp_in (pb_crypto_ratio b) 0 1 \<and> (\<forall>f \<in> set top. fp_in f 0 1)"
proof -
  let ?freqs = "pb_syscall_frequencies b"
  let ?vs = "map (\<lambda>sid. case fmlookup ?freqs sid of None \<Rightarrow> 0 | Some f \<Rightarrow> f) (order' ?freqs)"
  let ?s = "foldr insert_desc ?vs []"
  have ok: "baseline_ok b" using update_all_ok [OF assms(1) baseline_new_ok assms(2,3)] by simp
  have in01: "\<forall>x \<in> set ?vs. fp_in x 0 1"
    using ok by (auto simp: baseline_ok_def zero_fp_def split: option.split)
  then have nan: "NaN \<notin> set ?vs" by (metis fp_in_NaN)
  then have sort: "sort_desc ?vs = Inr ?s" by (simp add: sort_desc_def)
  have "resize 4 0 (take 4 ?s) = take 4 ?s @ replicate (4 - length (take 4 ?s)) 0"
    by (simp add: resize_def)
  then have fv: "feature_vector order' b = Inr ([pb_crypto_ratio b, to_fp (real (unat (pb_max_cpi_depth b))) / to_fp 10,
      fp_min (pb_mean_inter_call_delay_ns b / to_fp 1000000) (to_fp 100),
      fp_of_usize (hm_len ?freqs) / to_fp 30] @ take 4 ?s @ replicate (4 - length (take 4 ?s)) 0)"
    using resize_four(2) [of ?s] by (simp add: feature_vector_def Let_def sort)
  have "length (take 4 ?s) = min 4 (hm_len ?freqs)"
    using iter_order_length [OF assms(4)] by simp
  moreover have "\<forall>f \<in> set (take 4 ?s). fp_in f 0 1"
    using in01 in_set_takeD [of _ 4 ?s] by auto
  ultimately show ?thesis
    using fv top_four [OF nan] held_frequencies_order [OF assms(4)] ok unfolding baseline_ok_def by metis
qed

definition sample_window :: "trace_event list" where
  "sample_window = map (\<lambda>(sid, ts, d). \<lparr>ev_program_id = zero_pubkey, ev_syscall_id = sid, ev_args_hash = 0,
     ev_timestamp_ns = ts, ev_slot = 1, ev_transaction_id = zero_tx_id, ev_depth = d\<rparr>)
     [(SOL_SHA256, 100, 1), (SOL_GET_CLOCK_SYSVAR, 300, 2)]"

theorem baseline_correct_witness:
  "\<exists>b. update_all Debug (\<lambda>m. sorted_list_of_fset (fmdom m)) (baseline_new zero_pubkey) [sample_window, sample_window] = Inr b \<and>
     fp_in (pb_crypto_ratio b) 0 1 \<and> pb_max_cpi_depth b = 2 \<and> pb_total_observations b = 4"
proof -
  have "\<forall>w \<in> set [sample_window, sample_window]. length w < 2 ^ 64"
    and "Debug = Release \<or> (\<forall>e \<in> set (concat [sample_window, sample_window]). unat (ev_timestamp_ns e) < 2 ^ 63) \<and>
      length (concat [sample_window, sample_window]) < 2 ^ 64"
    by (auto simp: sample_window_def)
  from baseline_correct [of "\<lambda>m. sorted_list_of_fset (fmdom m)", OF sorted_fmdom_order this, of zero_pubkey]
  obtain b where b: "update_all Debug (\<lambda>m. sorted_list_of_fset (fmdom m)) (baseline_new zero_pubkey)
      [sample_window, sample_window] = Inr b" "fp_in (pb_crypto_ratio b) 0 1"
    "pb_max_cpi_depth b = foldl max 0 (map ev_depth (concat [sample_window, sample_window]))"
    "pb_total_observations b = of_nat (length (concat [sample_window, sample_window]))" by blast
  then show ?thesis by (intro exI [of _ b]) (simp add: sample_window_def max_def)
qed

text \<open>Two syscalls are held, so two zeros are filled in.\<close>

theorem feature_vector_correct_witness:
  "\<exists>b f g. update_all Debug (\<lambda>m. sorted_list_of_fset (fmdom m)) (baseline_new zero_pubkey) [sample_window] = Inr b \<and>
     feature_vector (\<lambda>m. sorted_list_of_fset (fmdom m)) b = Inr [pb_crypto_ratio b, to_fp 2 / to_fp 10,
       fp_min (pb_mean_inter_call_delay_ns b / to_fp 1000000) (to_fp 100), fp_of_usize 2 / to_fp 30, f, g, 0, 0] \<and>
     held_frequencies b = {#f, g#} \<and> \<not> f < g"
proof -
  have w: "\<forall>w \<in> set [sample_window]. length w < 2 ^ 64" by (simp add: sample_window_def)
  obtain b where b: "update_all Debug (\<lambda>m. sorted_list_of_fset (fmdom m)) (baseline_new zero_pubkey) [sample_window] = Inr b"
    using update_all_total [of Debug "[sample_window]" "baseline_new zero_pubkey", OF _ sorted_fmdom_order]
    by (auto simp: sample_window_def baseline_new_def)
  note run = update_all_ok [OF b baseline_new_ok sorted_fmdom_order w]
  have depth: "pb_max_cpi_depth b = 2"
    using run by (simp add: baseline_new_def sample_window_def max_def)
  have "fset (fmdom (pb_syscall_frequencies b)) = {SOL_SHA256, SOL_GET_CLOCK_SYSVAR}"
    using run by (simp add: baseline_new_def sample_window_def)
  then have two: "hm_len (pb_syscall_frequencies b) = 2"
    by (simp add: hm_len_def fcard.rep_eq syscall_ids)
  obtain top rest where fv: "feature_vector (\<lambda>m. sorted_list_of_fset (fmdom m)) b =
      Inr ([pb_crypto_ratio b, to_fp (real (unat (pb_max_cpi_depth b))) / to_fp 10,
        fp_min (pb_mean_inter_call_delay_ns b / to_fp 1000000) (to_fp 100),
        fp_of_usize (hm_len (pb_syscall_frequencies b)) / to_fp 30] @ top @ replicate (4 - length top) 0)"
    and held: "held_frequencies b = mset top + rest" and len: "length top = min 4 (hm_len (pb_syscall_frequencies b))"
    and sorted: "sorted_wrt (\<lambda>a b. \<not> a < b) top"
    using feature_vector_correct [of Debug "\<lambda>m. sorted_list_of_fset (fmdom m)", OF b sorted_fmdom_order w,
        of "\<lambda>m. sorted_list_of_fset (fmdom m)", OF sorted_fmdom_order] by blast
  obtain f g where top: "top = [f, g]" using len two by (auto simp: length_Suc_conv numeral_2_eq_2)
  have "size (held_frequencies b) = 2"
    using two by (simp add: held_frequencies_def hm_len_def fcard.rep_eq)
  then have "rest = {#}" using held top by simp
  moreover have "replicate (4 - length top) (0 :: f64) = [0, 0]"
    by (simp add: top numeral_2_eq_2 [symmetric]) (simp add: numeral_2_eq_2)
  ultimately show ?thesis
    using b fv held sorted top by (intro exI [of _ b] exI [of _ f] exI [of _ g]) (simp add: two depth)
qed

end
