(* ===== verification/AnomalyPolicy.thy ===== *)
theory AnomalyPolicy
  imports Common Floats
begin

text \<open>
  The anomaly policy, \<open>src/anomaly/src/policy.rs\<close>: when the two scores of a program make an event,
  and the risk it carries.
\<close>

datatype anomaly_action = Log | Throttle | Halt

record anomaly_event =
  ae_program_id :: pubkey
  ae_risk_score :: f64
  ae_kl_divergence :: f64
  ae_isolation_score :: f64
  ae_timestamp_ns :: u64
  ae_action_taken :: anomaly_action

definition is_high_risk :: "anomaly_event \<Rightarrow> bool" where
  "is_high_risk ev \<longleftrightarrow> to_fp (8 / 10) < ae_risk_score ev"

record anomaly_policy =
  ap_action :: anomaly_action
  ap_kl_threshold :: f64
  ap_isolation_threshold :: f64

definition policy_new :: "anomaly_action \<Rightarrow> f64 \<Rightarrow> f64 \<Rightarrow> anomaly_policy" where
  "policy_new action kl_threshold isolation_threshold =
     \<lparr>ap_action = action, ap_kl_threshold = kl_threshold, ap_isolation_threshold = isolation_threshold\<rparr>"

definition evaluate ::
  "nat option \<Rightarrow> anomaly_policy \<Rightarrow> pubkey \<Rightarrow> f64 \<Rightarrow> f64 \<Rightarrow> anomaly_event option" where
  "evaluate clock policy program_id kl_div isolation_score =
     (let kl_triggered = ap_kl_threshold policy < kl_div;
          iso_triggered = ap_isolation_threshold policy < isolation_score
      in if \<not> kl_triggered \<and> \<not> iso_triggered then None
         else (let risk_score = fp_min (kl_div / (ap_kl_threshold policy + 1) * to_fp (1 / 2)
                                        + isolation_score * to_fp (1 / 2)) 1
               in Some \<lparr>ae_program_id = program_id, ae_risk_score = risk_score,
                        ae_kl_divergence = kl_div, ae_isolation_score = isolation_score,
                        ae_timestamp_ns = clock_ns clock, ae_action_taken = ap_action policy\<rparr>))"

definition default_policy :: anomaly_policy where
  "default_policy = policy_new Log (to_fp (5 / 2)) (to_fp (7 / 10))"

section \<open>Properties\<close>

lemma min_one_bounded: "fp_min x (1 :: f64) \<noteq> NaN \<and> \<not> 1 < fp_min x 1"
  by (cases x) (auto simp: fp_min_def one_fp_def less_fp_def)

lemma risk_nonneg:
  assumes "fp_nn kl" "fp_nn isolation" "fp_nn t"
  shows "fp_in (fp_min (kl / (t + 1) * to_fp (1 / 2) + isolation * to_fp (1 / 2)) (1 :: f64)) 0 1"
proof -
  have one: "fp_nn (1 :: f64)" by (simp add: one_fp_def)
  have half: "fp_nn (to_fp (1 / 2) :: f64)" by (rule fp_nn_to_fp) simp
  have "fp_nn (kl / (t + 1) * to_fp (1 / 2) + isolation * to_fp (1 / 2))"
    by (intro fp_nn_add fp_nn_mul fp_nn_divide assms one half)
  from fp_nn_min [OF this, of 1] show ?thesis by (simp add: one_fp_def)
qed

text \<open>
  An event is made exactly when one of the scores exceeds its threshold (a NaN exceeds
  nothing), and it carries the scores, the action and the time.  Its risk is never NaN and never
  above 1; when neither score nor the threshold is negative it lies between 0 and 1, even if the
  division or the sum overflows or is not a number.
\<close>

lemma evaluate_correct:
  assumes "fp_nn kl" and "fp_nn isolation" and "fp_nn (ap_kl_threshold policy)"
  shows "(evaluate clock policy pid kl isolation = None \<longleftrightarrow>
      \<not> ap_kl_threshold policy < kl \<and> \<not> ap_isolation_threshold policy < isolation) \<and>
   (case evaluate clock policy pid kl isolation of None \<Rightarrow> True
    | Some ev \<Rightarrow> ae_program_id ev = pid \<and> ae_kl_divergence ev = kl \<and> ae_isolation_score ev = isolation \<and>
        ae_action_taken ev = ap_action policy \<and> ae_timestamp_ns ev = clock_ns clock \<and>
        fp_in (ae_risk_score ev) 0 1)"
  using risk_nonneg [OF assms] by (simp add: evaluate_def Let_def)

end
