(* ===== verification/AnomalyDetector.thy ===== *)
theory AnomalyDetector
  imports Baseline AnomalyPolicy
begin

text \<open>
  The anomaly detector, \<open>src/anomaly/src/detector.rs\<close>: baselines per program, the scores of a
  window against its program's baseline, and the log of the events found.  The iteration orders of
  the hash maps are arguments: \<open>order\<close> of the counts, \<open>orderf\<close> of the frequencies; so are the
  logarithm and the clock.  The log messages are not modelled.
\<close>

record anomaly_detector =
  ad_baseline_store :: baseline_store
  ad_policy :: anomaly_policy
  ad_contamination_threshold :: f64
  ad_events_log :: "anomaly_event list"

definition detector_new :: "anomaly_policy \<Rightarrow> f64 \<Rightarrow> anomaly_detector" where
  "detector_new policy contamination_threshold =
     \<lparr>ad_baseline_store = store_new, ad_policy = policy,
      ad_contamination_threshold = contamination_threshold, ad_events_log = []\<rparr>"

definition ingest_window ::
  "profile \<Rightarrow> ((syscall_id, u64) fmap \<Rightarrow> syscall_id list) \<Rightarrow> anomaly_detector \<Rightarrow> pubkey \<Rightarrow> trace_event list \<Rightarrow>
   anomaly_detector res" where
  "ingest_window p order d program_id events =
     res_bind (store_update_program p order (ad_baseline_store d) program_id events) (\<lambda>s.
       Inr (d\<lparr>ad_baseline_store := s\<rparr>))"

text \<open>The observed frequencies; the scores of them against a baseline.\<close>

fun count_ids :: "profile \<Rightarrow> (syscall_id, u64) fmap \<Rightarrow> trace_event list \<Rightarrow> (syscall_id, u64) fmap res" where
  "count_ids p counts [] = Inr counts"
| "count_ids p counts (e # es) =
     res_bind (bump_entry p (ev_syscall_id e) counts) (\<lambda>counts'. count_ids p counts' es)"

definition observed_freqs :: "profile \<Rightarrow> f64 \<Rightarrow> trace_event list \<Rightarrow> (syscall_id, f64) fmap res" where
  "observed_freqs p tot events =
     res_bind (count_ids p fmempty events) (\<lambda>counts. Inr (fmmap (\<lambda>c. fp_of_u64 c / tot) counts))"

definition isolation ::
  "((syscall_id, f64) fmap \<Rightarrow> syscall_id list) \<Rightarrow> program_baseline \<Rightarrow> f64 res" where
  "isolation orderf b =
     res_bind (feature_vector orderf b) (\<lambda>fv. Inr (fp_min (l2_norm fv / to_fp 3) 1))"

definition score_program ::
  "(f64 \<Rightarrow> f64) \<Rightarrow> profile \<Rightarrow> ((syscall_id, f64) fmap \<Rightarrow> syscall_id list) \<Rightarrow> anomaly_detector \<Rightarrow> pubkey \<Rightarrow>
   trace_event list \<Rightarrow> f64 res" where
  "score_program lnf p orderf d program_id events =
     (case store_get (ad_baseline_store d) program_id of
        None \<Rightarrow> Inr 0
      | Some baseline \<Rightarrow>
          (let tot = fp_of_usize (length events)
           in if fp_eq tot 0 then Inr 0
              else res_bind (observed_freqs p tot events) (\<lambda>observed.
                let kl_div = kl_divergence lnf orderf baseline observed
                in res_bind (isolation orderf baseline) (\<lambda>isolation_score.
                  let kl_component = fp_min (kl_div / to_fp 5) 1;
                      score = to_fp (6 / 10) * kl_component + to_fp (4 / 10) * isolation_score
                  in Inr (fp_min score 1)))))"

definition check_anomaly ::
  "(f64 \<Rightarrow> f64) \<Rightarrow> profile \<Rightarrow> ((syscall_id, f64) fmap \<Rightarrow> syscall_id list) \<Rightarrow> nat option \<Rightarrow> anomaly_detector \<Rightarrow>
   pubkey \<Rightarrow> trace_event list \<Rightarrow> (anomaly_event option \<times> anomaly_detector) res" where
  "check_anomaly lnf p orderf clock d program_id events =
     (case store_get (ad_baseline_store d) program_id of
        None \<Rightarrow> Inr (None, d)
      | Some baseline \<Rightarrow>
          (let tot = fp_of_usize (length events)
           in if fp_eq tot 0 then Inr (None, d)
              else res_bind (observed_freqs p tot events) (\<lambda>observed.
                let kl_div = kl_divergence lnf orderf baseline observed
                in res_bind (isolation orderf baseline) (\<lambda>isolation_score.
                  let result = evaluate clock (ad_policy d) program_id kl_div isolation_score
                  in Inr (result, case result of
                       Some ev \<Rightarrow> d\<lparr>ad_events_log := ad_events_log d @ [ev]\<rparr>
                     | None \<Rightarrow> d)))))"

definition event_log :: "anomaly_detector \<Rightarrow> anomaly_event list" where
  "event_log d = ad_events_log d"

section \<open>Runs\<close>

datatype detector_op =
    IngestWindow pubkey "trace_event list"
  | CheckAnomaly "nat option" pubkey "trace_event list"

fun detector_run ::
  "(f64 \<Rightarrow> f64) \<Rightarrow> profile \<Rightarrow> ((syscall_id, u64) fmap \<Rightarrow> syscall_id list) \<Rightarrow>
   ((syscall_id, f64) fmap \<Rightarrow> syscall_id list) \<Rightarrow> detector_op list \<Rightarrow> anomaly_detector \<Rightarrow>
   (anomaly_event option list \<times> anomaly_detector) res" where
  "detector_run lnf p order orderf [] d = Inr ([], d)"
| "detector_run lnf p order orderf (IngestWindow pid es # os) d =
     res_bind (ingest_window p order d pid es) (\<lambda>d'. detector_run lnf p order orderf os d')"
| "detector_run lnf p order orderf (CheckAnomaly clock pid es # os) d =
     res_bind (check_anomaly lnf p orderf clock d pid es) (\<lambda>(r, d').
       res_bind (detector_run lnf p order orderf os d') (\<lambda>(rs, d''). Inr (r # rs, d'')))"

fun op_window :: "detector_op \<Rightarrow> trace_event list" where
  "op_window (IngestWindow pid es) = es"
| "op_window (CheckAnomaly clock pid es) = es"

fun ingested :: "pubkey \<Rightarrow> detector_op list \<Rightarrow> trace_event list list" where
  "ingested pid [] = []"
| "ingested pid (IngestWindow pid' es # os) = (if pid' = pid then [es] else []) @ ingested pid os"
| "ingested pid (CheckAnomaly clock pid' es # os) = ingested pid os"

text \<open>The events a list of results holds.\<close>

definition events_of :: "anomaly_event option list \<Rightarrow> anomaly_event list" where
  "events_of rs = List.map_filter (\<lambda>r. r) rs"

definition bounded_risk :: "anomaly_policy \<Rightarrow> anomaly_event \<Rightarrow> bool" where
  "bounded_risk policy ev \<longleftrightarrow> ae_action_taken ev = ap_action policy \<and>
     ae_risk_score ev \<noteq> NaN \<and> \<not> 1 < ae_risk_score ev"

definition detector_ok :: "anomaly_detector \<Rightarrow> bool" where
  "detector_ok d \<longleftrightarrow> (\<forall>pid b. fmlookup (ad_baseline_store d) pid = Some b \<longrightarrow> baseline_ok b \<and> pb_program_id b = pid)"

section \<open>No panic, and what the scores are\<close>

lemma count_ids_Release: "\<exists>counts. count_ids Release m es = Inr counts"
  by (induction es arbitrary: m) (auto simp: bump_entry_Release)

lemma observed_Release: "\<exists>o'. observed_freqs Release tot es = Inr o'"
  using count_ids_Release [of fmempty es] by (auto simp: observed_freqs_def)

lemma feature_vector_ok:
  assumes "baseline_ok b"
  shows "\<exists>fv. feature_vector orderf b = Inr fv"
proof -
  let ?vs = "map (\<lambda>sid. case fmlookup (pb_syscall_frequencies b) sid of None \<Rightarrow> 0 | Some f \<Rightarrow> f)
    (orderf (pb_syscall_frequencies b))"
  have "\<forall>x \<in> set ?vs. fp_in x 0 1"
    using assms by (auto simp: baseline_ok_def zero_fp_def split: option.split)
  then have "NaN \<notin> set ?vs" by auto
  then show ?thesis by (simp add: feature_vector_def sort_desc_def Let_def)
qed

lemma isolation_ok: "baseline_ok b \<Longrightarrow> \<exists>i. isolation orderf b = Inr i \<and> fp_in i 0 1"
  using feature_vector_ok [of b orderf] unit_norm_in by (auto simp: isolation_def)

lemma update_Release:
  assumes "baseline_ok b" "\<And>m. iter_order m (order m)" "length es < 2 ^ 64"
  obtains b' where "update Release order b es = Inr b'" "baseline_ok b'" "pb_program_id b' = pb_program_id b"
proof -
  obtain b' where b': "update Release order b es = Inr b'" using update_total [of Release es b order] by auto
  moreover have "pb_program_id b' = pb_program_id b"
    using b' update_Inr(5) [OF b' _ assms(2)] by (cases "es = []") (auto simp: update_def)
  ultimately show thesis using update_ok [OF assms(1) b' assms(2,3)] that by blast
qed

lemma evaluate_bounded: "evaluate clock policy pid kl i = Some ev \<Longrightarrow> bounded_risk policy ev"
  using min_one_bounded by (auto simp: evaluate_def bounded_risk_def Let_def split: if_splits)

lemma ingest_window_ok:
  assumes "detector_ok d" "\<And>m. iter_order m (order m)" "length es < 2 ^ 64"
  shows "\<exists>d'. ingest_window Release order d pid es = Inr d' \<and> detector_ok d' \<and>
    ad_policy d' = ad_policy d \<and> event_log d' = event_log d"
proof -
  let ?b = "case fmlookup (ad_baseline_store d) pid of None \<Rightarrow> baseline_new pid | Some b \<Rightarrow> b"
  have ok: "baseline_ok ?b" "pb_program_id ?b = pid"
    using assms(1) baseline_new_ok by (auto simp: detector_ok_def baseline_new_def split: option.split)
  obtain b' where b': "update Release order ?b es = Inr b'" "baseline_ok b'" "pb_program_id b' = pid"
    using update_Release [OF ok(1) assms(2,3)] ok(2) by auto
  have "ingest_window Release order d pid es = Inr (d\<lparr>ad_baseline_store := fmupd pid b' (ad_baseline_store d)\<rparr>)"
    using b'(1) by (simp add: ingest_window_def store_update_program_def Let_def)
  then show ?thesis using assms(1) b' by (auto simp: detector_ok_def event_log_def)
qed

lemma check_anomaly_ok:
  assumes "detector_ok d"
  shows "\<exists>r d'. check_anomaly lnf Release orderf clock d pid es = Inr (r, d') \<and> detector_ok d' \<and>
    ad_policy d' = ad_policy d \<and> event_log d' = event_log d @ events_of [r] \<and>
    (\<forall>ev \<in> set (events_of [r]). bounded_risk (ad_policy d) ev)"
proof (cases "store_get (ad_baseline_store d) pid = None \<or> fp_eq (fp_of_usize (length es) :: f64) 0")
  case True
  then show ?thesis
    using assms by (auto simp: check_anomaly_def events_of_def map_filter_simps split: option.split)
next
  case False
  then obtain b where b: "store_get (ad_baseline_store d) pid = Some b" by auto
  then have "baseline_ok b" using assms by (auto simp: detector_ok_def store_get_def)
  then obtain i where i: "isolation orderf b = Inr i" using isolation_ok by blast
  obtain ob where ob: "observed_freqs Release (fp_of_usize (length es)) es = Inr ob"
    using observed_Release by blast
  let ?r = "evaluate clock (ad_policy d) pid (kl_divergence lnf orderf b ob) i"
  have "\<forall>ev. ?r = Some ev \<longrightarrow> bounded_risk (ad_policy d) ev" using evaluate_bounded by blast
  moreover have "detector_ok (d\<lparr>ad_events_log := l\<rparr>)" for l
    using assms by (simp add: detector_ok_def)
  ultimately show ?thesis
    using assms b i ob False
    by (cases ?r) (auto simp: check_anomaly_def Let_def events_of_def map_filter_simps event_log_def)
qed

lemma detector_run_ok:
  assumes "\<And>m. iter_order m (order m)"
  shows "detector_ok d \<Longrightarrow> \<forall>a \<in> set os. length (op_window a) < 2 ^ 64 \<Longrightarrow>
    \<exists>rs d'. detector_run lnf Release order orderf os d = Inr (rs, d') \<and> detector_ok d' \<and>
      ad_policy d' = ad_policy d \<and> event_log d' = event_log d @ events_of rs \<and>
      (\<forall>ev \<in> set (events_of rs). bounded_risk (ad_policy d) ev)"
proof (induction os arbitrary: d)
  case Nil
  then show ?case by (simp add: events_of_def map_filter_simps)
next
  case (Cons a os)
  show ?case
  proof (cases a)
    case (IngestWindow pid es)
    then obtain d1 where "ingest_window Release order d pid es = Inr d1" "detector_ok d1"
      "ad_policy d1 = ad_policy d" "event_log d1 = event_log d"
      using ingest_window_ok [OF Cons.prems(1) assms, of es pid] Cons.prems(2) by auto
    then show ?thesis using Cons.IH [of d1] Cons.prems(2) IngestWindow by simp
  next
    case (CheckAnomaly clock pid es)
    obtain r d1 where d1: "check_anomaly lnf Release orderf clock d pid es = Inr (r, d1)" "detector_ok d1"
      "ad_policy d1 = ad_policy d" "event_log d1 = event_log d @ events_of [r]"
      "\<forall>ev \<in> set (events_of [r]). bounded_risk (ad_policy d) ev"
      using check_anomaly_ok [OF Cons.prems(1), of lnf orderf clock pid es] by blast
    then show ?thesis
      using Cons.IH [OF d1(2)] Cons.prems(2) CheckAnomaly
      by (auto simp: events_of_def map_filter_simps split: option.split)
  qed
qed

section \<open>Properties\<close>

text \<open>
  C32.  The detector never panics in a release build: any sequence of ingested and checked windows
  from a new detector runs to its end, the sort of the feature vector included.  Its log holds
  exactly the events that the checks returned, in order, and every one has the policy's action and
  a risk that is not NaN and not above 1.
\<close>

theorem detector_log:
  assumes "\<And>m. iter_order m (order m)" and "\<forall>a \<in> set os. length (op_window a) < 2 ^ 64"
  shows "\<exists>rs d. detector_run lnf Release order orderf os (detector_new policy c) = Inr (rs, d) \<and>
    event_log d = events_of rs \<and> (\<forall>ev \<in> set (event_log d). bounded_risk policy ev)"
proof -
  have "detector_ok (detector_new policy c)" by (simp add: detector_ok_def detector_new_def store_new_def)
  from detector_run_ok [OF assms(1) this assms(2), of lnf orderf] show ?thesis
    by (auto simp: detector_new_def event_log_def)
qed

text \<open>The weighted sum of a divergence that is not negative and an isolation score.\<close>

lemma score_in_range:
  assumes "fp_nn (kl :: f64)" "fp_in (i :: f64) 0 1"
  shows "fp_in (fp_min (to_fp (6 / 10) * fp_min (kl / to_fp 5) 1 + to_fp (4 / 10) * i) 1) 0 1"
proof -
  have w: "fp_nn (to_fp (6 / 10) :: f64)" "fp_nn (to_fp (4 / 10) :: f64)" "fp_nn (to_fp 5 :: f64)"
    by (rule fp_nn_to_fp, simp)+
  have "fp_in (fp_min (kl / to_fp 5) (Fin 1)) 0 1"
    by (rule fp_nn_min [OF fp_nn_divide [OF assms(1) w(3)]]) simp
  then have "fp_nn (to_fp (6 / 10) * fp_min (kl / to_fp 5) 1 + to_fp (4 / 10) * i)"
    by (intro fp_nn_add fp_nn_mul w fp_in_nn [OF assms(2)]) (simp_all add: one_fp_def fp_in_nn)
  from fp_nn_min [OF this, of 1] show ?thesis by (simp add: one_fp_def)
qed

text \<open>
  C33.  The risk score of a program, in any detector reached by a run: it exists, is not NaN and is
  at most 1; it is 0 for a program without a baseline and for an empty window; and it lies between
  0 and 1, as the documentation says, whenever the divergence is not negative (which the code does
  not ensure, since the held frequencies need not sum to one).
\<close>

theorem score_program_range:
  assumes "\<And>m. iter_order m (order m)" and "\<forall>a \<in> set os. length (op_window a) < 2 ^ 64"
    and "detector_run lnf Release order orderf os (detector_new policy c) = Inr (rs, d)"
  shows "\<exists>s. score_program lnf Release orderf d pid events = Inr s \<and> s \<noteq> NaN \<and> \<not> 1 < s \<and>
    (store_get (ad_baseline_store d) pid = None \<or> events = [] \<longrightarrow> s = 0) \<and>
    (\<forall>b observed. store_get (ad_baseline_store d) pid = Some b \<longrightarrow>
       observed_freqs Release (fp_of_usize (length events)) events = Inr observed \<longrightarrow>
       fp_nn (kl_divergence lnf orderf b observed) \<longrightarrow> fp_in s 0 1)"
proof -
  have zero: "(0 :: f64) \<noteq> NaN" "\<not> (1 :: f64) < 0" "fp_in (0 :: f64) 0 1"
    by (simp_all add: zero_fp_def one_fp_def less_fp_def)
  have "detector_ok (detector_new policy c)" by (simp add: detector_ok_def detector_new_def store_new_def)
  then have ok: "detector_ok d" using detector_run_ok [OF assms(1) _ assms(2), of "detector_new policy c" lnf orderf] assms(3) by auto
  show ?thesis
  proof (cases "store_get (ad_baseline_store d) pid")
    case None
    then show ?thesis using zero by (simp add: score_program_def)
  next
    case (Some b)
    then obtain i where i: "isolation orderf b = Inr i" "fp_in i 0 1"
      using ok isolation_ok [of b orderf] by (auto simp: detector_ok_def store_get_def)
    obtain ob where ob: "observed_freqs Release (fp_of_usize (length events)) events = Inr ob"
      using observed_Release by blast
    let ?kl = "kl_divergence lnf orderf b ob"
    let ?score = "to_fp (6 / 10) * fp_min (?kl / to_fp 5) 1 + to_fp (4 / 10) * i :: f64"
    note range = score_in_range [OF _ i(2), of ?kl]
    have empty: "fp_eq (fp_of_usize (length events) :: f64) 0" if "events = []"
      using that by (simp add: fp_of_usize_def fp_eq_def zero_fp_def)
    show ?thesis
    proof (cases "fp_eq (fp_of_usize (length events) :: f64) 0")
      case True
      then show ?thesis using Some zero by (simp add: score_program_def)
    next
      case False
      then have "score_program lnf Release orderf d pid events = Inr (fp_min ?score 1)"
        using Some i(1) ob by (simp add: score_program_def Let_def)
      then show ?thesis using min_one_bounded [of ?score] empty False Some ob range by auto
    qed
  qed
qed

definition sample_detector_ops :: "detector_op list" where
  "sample_detector_ops = [IngestWindow zero_pubkey sample_window, CheckAnomaly (Some 7) zero_pubkey sample_window]"

lemma sample_detector_small: "\<forall>a \<in> set sample_detector_ops. length (op_window a) < 2 ^ 64"
  by (simp add: sample_detector_ops_def sample_window_def)

theorem detector_log_witness:
  "\<exists>rs d. detector_run (\<lambda>x. 0) Release (\<lambda>m. sorted_list_of_fset (fmdom m)) (\<lambda>m. sorted_list_of_fset (fmdom m))
     sample_detector_ops (detector_new default_policy 0) = Inr (rs, d) \<and> event_log d = events_of rs"
  using detector_log [of "\<lambda>m. sorted_list_of_fset (fmdom m)" sample_detector_ops "\<lambda>x. 0"
      "\<lambda>m. sorted_list_of_fset (fmdom m)" default_policy 0, OF sorted_fmdom_order sample_detector_small] by blast

text \<open>
  A detector that has ingested a window, and the score of that window, with a logarithm that is
  nowhere negative, so that the score is between 0 and 1.
\<close>

lemma kl_divergence_nn:
  assumes "\<And>x. fp_nn (lnf x)"
  shows "fp_nn (kl_divergence lnf orderf b observed)"
proof -
  have pos: "fp_nn x" if "0 < x" for x :: f64
    using that by (cases x) (auto simp: less_fp_def zero_fp_def)
  have "fp_nn (kl_term lnf b observed kl sid)" if "fp_nn kl" for kl sid
    using that by (simp add: kl_term_def Let_def fp_nn_add fp_nn_mul pos assms)
  then have "fp_nn kl \<Longrightarrow> fp_nn (foldl (kl_term lnf b observed) kl sids)" for kl sids
    by (induction sids arbitrary: kl) simp_all
  then show ?thesis by (simp add: kl_divergence_def zero_fp_def)
qed

theorem score_program_range_witness:
  "\<exists>d b s. detector_run (\<lambda>x. 1) Release (\<lambda>m. sorted_list_of_fset (fmdom m)) (\<lambda>m. sorted_list_of_fset (fmdom m))
      [IngestWindow zero_pubkey sample_window] (detector_new default_policy 0) = Inr ([], d) \<and>
     store_get (ad_baseline_store d) zero_pubkey = Some b \<and> pb_total_observations b = 2 \<and>
     score_program (\<lambda>x. 1) Release (\<lambda>m. sorted_list_of_fset (fmdom m)) d zero_pubkey sample_window = Inr s \<and> fp_in s 0 1"
proof -
  let ?order = "\<lambda>m :: (syscall_id, u64) fmap. sorted_list_of_fset (fmdom m)"
  let ?orderf = "\<lambda>m :: (syscall_id, f64) fmap. sorted_list_of_fset (fmdom m)"
  let ?d = "detector_new default_policy 0"
  have len: "length sample_window < 2 ^ 64" "sample_window \<noteq> []" "length sample_window = 2"
    by (simp_all add: sample_window_def)
  obtain b where b: "update Release ?order (baseline_new zero_pubkey) sample_window = Inr b"
    using update_Release [OF baseline_new_ok sorted_fmdom_order len(1)] by metis
  have two: "pb_total_observations b = 2"
    using update_Inr(4) [OF b len(2) sorted_fmdom_order] by (simp add: baseline_new_def len(3))
  let ?d' = "?d\<lparr>ad_baseline_store := fmupd zero_pubkey b (ad_baseline_store ?d)\<rparr>"
  have run: "detector_run (\<lambda>x. 1) Release ?order ?orderf [IngestWindow zero_pubkey sample_window] ?d = Inr ([], ?d')"
    using b by (simp add: ingest_window_def store_update_program_def detector_new_def store_new_def Let_def)
  have get: "store_get (ad_baseline_store ?d') zero_pubkey = Some b" by (simp add: store_get_def)
  have small: "\<forall>a \<in> set [IngestWindow zero_pubkey sample_window]. length (op_window a) < 2 ^ 64"
    using len(1) by simp
  have nn: "fp_nn (kl_divergence (\<lambda>x. 1) ?orderf b' ob)" for b' ob
    by (rule kl_divergence_nn) (simp add: one_fp_def)
  obtain ob where "observed_freqs Release (fp_of_usize (length sample_window)) sample_window = Inr ob"
    using observed_Release by blast
  then show ?thesis
    using score_program_range [OF sorted_fmdom_order small run, of zero_pubkey sample_window] run get two nn by blast
qed

end
