(* ===== verification/FloatErrors.thy ===== *)
theory FloatErrors
  imports Floats
begin

text \<open>
  Rounding errors of the floating-point operations: every rounding of a number below two is off by
  at most \<open>2 ^ - 53\<close> in double precision, and sums and products are off by what their arguments
  are off and one rounding more.
\<close>

section \<open>One rounding\<close>

lemma excess_le:
  assumes "\<bar>s\<bar> < 2 ^ (p + e)"
  shows "excess p s \<le> e"
proof -
  have "\<lfloor>\<bar>s\<bar>\<rfloor> < 2 ^ (p + e)"
    using assms by (simp add: floor_less_iff)
  then have "nat \<lfloor>\<bar>s\<bar>\<rfloor> < 2 ^ (p + e)"
    by (simp add: nat_less_iff)
  then have "nbits (nat \<lfloor>\<bar>s\<bar>\<rfloor>) \<le> p + e" by (simp only: nbits_le_iff)
  then show ?thesis by (simp add: excess_def)
qed

lemma round_units_error:
  assumes "\<bar>s\<bar> < 2 ^ (p + e)"
  shows "\<bar>round_units p s - s\<bar> \<le> 2 ^ e / 2"
proof -
  define k where "k = excess p s"
  define y where "y = s / 2 ^ k"
  have s: "s = y * 2 ^ k" by (simp add: y_def)
  have "\<bar>of_int (rne y) - y\<bar> \<le> 1 / 2" using rne_near [of y] by linarith
  moreover have "round_units p s - s = (of_int (rne y) - y) * 2 ^ k"
    by (simp add: round_units_def k_def [symmetric] y_def algebra_simps)
  ultimately have "\<bar>round_units p s - s\<bar> \<le> 1 / 2 * 2 ^ k"
    using mult_right_mono [of "\<bar>of_int (rne y) - y\<bar>" "1 / 2" "2 ^ k"] by (simp add: abs_mult)
  also have "\<dots> \<le> 2 ^ e / 2"
    using excess_le [OF assms] power_increasing [of k e "2 :: real"] by (simp add: k_def)
  finally show ?thesis .
qed

lemma rnd_error:
  assumes "\<bar>x\<bar> < 2"
  shows "\<bar>rnd TYPE(53) x - x\<bar> \<le> 1 / 2 ^ 53"
proof -
  define u :: real where "u = 2 ^ 1074"
  have u: "0 < u" "2 * u = 2 ^ (53 + 1022)" "2 ^ 1022 / 2 = 1 / 2 ^ 53 * u" by (simp_all add: u_def)
  have "\<bar>x * u\<bar> < 2 * u" using assms u(1) by (simp add: abs_mult)
  then have "\<bar>round_units 53 (x * u) - x * u\<bar> \<le> 1 / 2 ^ 53 * u"
    unfolding u(2) u(3) [symmetric] by (rule round_units_error)
  moreover have "rnd TYPE(53) x - x = (round_units 53 (x * u) - x * u) / u"
  proof -
    have "rnd TYPE(53) x = round_units 53 (x * u) / u" by (simp only: rnd_def u_def fp_formats)
    then show ?thesis using u(1) by (simp add: diff_divide_distrib)
  qed
  ultimately show ?thesis using u(1) by (simp add: pos_divide_le_eq del: power_numeral)
qed

section \<open>Values near a real\<close>

text \<open>\<open>near e v x\<close>: the value is finite and differs from the real \<open>x\<close> by at most \<open>e\<close>.\<close>

definition near :: "real \<Rightarrow> f64 \<Rightarrow> real \<Rightarrow> bool" where
  "near e v x \<longleftrightarrow> (\<exists>r. v = Fin r \<and> \<bar>r - x\<bar> \<le> e)"

lemma near_Fin [simp]: "near e (Fin r) x \<longleftrightarrow> \<bar>r - x\<bar> \<le> e"
  by (simp add: near_def)

lemma near_mono: "near e v x \<Longrightarrow> e \<le> e' \<Longrightarrow> near e' v x"
  by (auto simp: near_def)

lemma near_to_fp:
  assumes "\<bar>y - x\<bar> \<le> e" "\<bar>y\<bar> < 2"
  shows "near (e + 1 / 2 ^ 53) (to_fp y) x"
proof -
  have r: "\<bar>rnd TYPE(53) y - y\<bar> \<le> 1 / 2 ^ 53" by (rule rnd_error [OF assms(2)])
  have "1 / 2 ^ 53 \<le> (1 :: real)" by simp
  with r assms(2) have "\<bar>rnd TYPE(53) y\<bar> < 4" by linarith
  moreover have "(4 :: real) \<le> 2 ^ 1024" by simp
  ultimately have "\<bar>rnd TYPE(53) y\<bar> < 2 ^ fp_emax TYPE(53)" by simp
  then have "(to_fp y :: f64) = Fin (rnd TYPE(53) y)" by (rule to_fp_Fin [OF refl])
  moreover have "\<bar>rnd TYPE(53) y - x\<bar> \<le> e + 1 / 2 ^ 53" using r assms(1) by linarith
  ultimately show ?thesis by simp
qed

lemma near_add:
  assumes "near d u x" "near e v y" "\<bar>x + y\<bar> + d + e < 2"
  shows "near (d + e + 1 / 2 ^ 53) (u + v) (x + y)"
proof -
  obtain r s where r: "u = Fin r" "\<bar>r - x\<bar> \<le> d" and s: "v = Fin s" "\<bar>s - y\<bar> \<le> e"
    using assms by (auto simp: near_def)
  have "\<bar>(r + s) - (x + y)\<bar> \<le> d + e" "\<bar>r + s\<bar> < 2" using r(2) s(2) assms(3) by linarith+
  from near_to_fp [OF this] show ?thesis by (simp add: r s plus_fp_def)
qed

text \<open>Scaling by a constant weight.\<close>

lemma near_scale:
  assumes "near e v y" "\<bar>c - c'\<bar> \<le> d" "0 \<le> c" "c \<le> 1" "0 \<le> y" "y \<le> 1" "e < 1"
  shows "near (c * e + d + 1 / 2 ^ 53) (Fin c * v) (c' * y)"
proof -
  obtain r where r: "v = Fin r" "\<bar>r - y\<bar> \<le> e" using assms(1) by (auto simp: near_def)
  have "c * r - c' * y = c * (r - y) + (c - c') * y" by (simp add: algebra_simps)
  moreover have "\<bar>c * (r - y)\<bar> \<le> c * e"
    using mult_left_mono [OF r(2) assms(3)] assms(3) by (simp add: abs_mult)
  moreover have "\<bar>(c - c') * y\<bar> \<le> d * 1"
    unfolding abs_mult using assms(2,5,6) by (intro mult_mono) auto
  ultimately have err: "\<bar>c * r - c' * y\<bar> \<le> c * e + d" by linarith
  have "\<bar>c * r\<bar> \<le> 1 * \<bar>r\<bar>" unfolding abs_mult using assms(3,4) by (intro mult_right_mono) auto
  then have "\<bar>c * r\<bar> < 2" using r(2) assms(5-7) by linarith
  from near_to_fp [OF err this] show ?thesis by (simp add: r times_fp_def)
qed

section \<open>Quotients of integers\<close>

lemma to_fp_nat_exact: "n < 2 ^ 53 \<Longrightarrow> (to_fp (real n) :: f64) = Fin (real n)"
  using to_fp_int_f64 [of "int n"] by simp

lemma near_ratio:
  assumes "c \<le> n" "0 < n" "n < 2 ^ 53"
  shows "near (1 / 2 ^ 53) (fp_of_usize c / fp_of_usize n) (real c / real n)"
proof -
  have "fp_of_usize c = (Fin (real c) :: f64)" "fp_of_usize n = (Fin (real n) :: f64)"
    using assms unfolding fp_of_usize_def by (auto intro!: to_fp_nat_exact)
  moreover have "0 \<le> real c / real n" "real c / real n \<le> 1" using assms by simp_all
  then have "\<bar>real c / real n\<bar> < 2" by linarith
  from near_to_fp [OF _ this, of "real c / real n" 0] have
    "near (1 / 2 ^ 53) (to_fp (real c / real n)) (real c / real n)" by simp
  ultimately show ?thesis using assms(2) by (simp add: divide_fp_def)
qed

section \<open>Products, sums and roots\<close>

lemma near_mul:
  assumes "near d u x" "near e v y" "\<bar>x\<bar> \<le> 1" "\<bar>y\<bar> \<le> 1" "d + e + d * e < 1"
  shows "near (d + e + d * e + 1 / 2 ^ 53) (u * v) (x * y)"
proof -
  obtain r s where r: "u = Fin r" "\<bar>r - x\<bar> \<le> d" and s: "v = Fin s" "\<bar>s - y\<bar> \<le> e"
    using assms by (auto simp: near_def)
  have "r * s - x * y = (r - x) * y + x * (s - y) + (r - x) * (s - y)" by (simp add: algebra_simps)
  moreover have "\<bar>(r - x) * y\<bar> \<le> d * 1" "\<bar>x * (s - y)\<bar> \<le> 1 * e" "\<bar>(r - x) * (s - y)\<bar> \<le> d * e"
    unfolding abs_mult using r(2) s(2) assms(3,4) by (intro mult_mono; simp)+
  ultimately have err: "\<bar>r * s - x * y\<bar> \<le> d + e + d * e" by linarith
  have "\<bar>x * y\<bar> \<le> 1 * 1" unfolding abs_mult using assms(3,4) by (intro mult_mono) auto
  then have "\<bar>r * s\<bar> < 2" using err assms(5) by linarith
  from near_to_fp [OF err this] show ?thesis by (simp add: r s times_fp_def)
qed

text \<open>A sum of a list, each element of it off by at most \<open>e\<close>.\<close>

lemma near_sum:
  assumes "list_all2 (near e) vs xs" "near d s y" "0 \<le> d" "0 \<le> e"
    and "\<bar>y\<bar> + d + (\<Sum>x\<leftarrow>xs. \<bar>x\<bar>) + real (length xs) * (e + 1 / 2 ^ 53) < 2"
  shows "near (d + real (length xs) * (e + 1 / 2 ^ 53)) (foldl (+) s vs) (y + sum_list xs)"
  using assms
proof (induction vs xs arbitrary: s y d rule: list_all2_induct)
  case (Cons v vs x xs)
  have pos: "0 \<le> (\<Sum>x\<leftarrow>xs. \<bar>x\<bar>)" "0 \<le> real (length xs) * (e + 1 / 2 ^ 53)"
    using Cons.prems(3) by (auto intro!: sum_list_nonneg)
  have len: "real (length (x # xs)) * (e + 1 / 2 ^ 53) = real (length xs) * (e + 1 / 2 ^ 53) + (e + 1 / 2 ^ 53)"
    by (simp add: algebra_simps)
  have "\<bar>y + x\<bar> + d + e < 2"
    using Cons.prems(4) pos abs_triangle_ineq [of y x] unfolding len by simp
  then have step: "near (d + e + 1 / 2 ^ 53) (s + v) (y + x)" by (rule near_add [OF Cons.prems(1) Cons.hyps(1)])
  have "near (d + e + 1 / 2 ^ 53 + real (length xs) * (e + 1 / 2 ^ 53)) (foldl (+) (s + v) vs) (y + x + sum_list xs)"
    using Cons.prems pos abs_triangle_ineq [of y x] unfolding len
    by (intro Cons.IH [OF step]) simp_all
  then show ?case unfolding len by (simp add: add.assoc add.left_commute add.commute)
qed simp

lemma near_sqrt:
  assumes "near e v y" "0 < e" "0 \<le> a" "a\<^sup>2 \<le> y - e" "y + e \<le> b\<^sup>2" "b < 2" "0 \<le> b"
  shows "\<exists>r. fp_sqrt v = Fin r \<and> a - 1 / 2 ^ 53 \<le> r \<and> r \<le> b + 1 / 2 ^ 53"
proof -
  obtain s where s: "v = Fin s" "\<bar>s - y\<bar> \<le> e" using assms(1) by (auto simp: near_def)
  then have le: "a\<^sup>2 \<le> s" "s \<le> b\<^sup>2" using assms(4,5) by linarith+
  then have "a \<le> sqrt s" "sqrt s \<le> b" using assms(3,7) by (auto intro: real_le_rsqrt real_le_lsqrt)
  moreover have "0 \<le> s" using le(1) by (rule order_trans [rotated]) simp
  moreover have "near (0 + 1 / 2 ^ 53) (to_fp (sqrt s)) (sqrt s)"
    using calculation assms(6) by (intro near_to_fp) simp_all
  then obtain r where "to_fp (sqrt s) = (Fin r :: f64)" "\<bar>r - sqrt s\<bar> \<le> 1 / 2 ^ 53"
    unfolding near_def by auto
  moreover from calculation have "a - 1 / 2 ^ 53 \<le> r" "r \<le> b + 1 / 2 ^ 53" by linarith+
  ultimately show ?thesis unfolding s(1) by (metis fp_sqrt.simps(1) not_less)
qed

end
