(* ===== verification/BaselineAverage.thy ===== *)
theory BaselineAverage
  imports Baseline FloatErrors
begin

text \<open>
  What the frequencies of a baseline (\<open>src/anomaly/src/baseline.rs\<close>) are meant to be, over the reals:
  moving averages with weight 1/10.  A frequency moves only in windows that contain its syscall,
  as in the code; the crypto ratio moves in every window that is not empty.
\<close>

section \<open>The averages\<close>

fun average :: "('a \<Rightarrow> 'a \<Rightarrow> 'a) \<Rightarrow> ('w \<Rightarrow> 'a option) \<Rightarrow> 'a \<Rightarrow> 'w list \<Rightarrow> 'a" where
  "average bl new q [] = q"
| "average bl new q (w # ws) =
     average bl new (case new w of None \<Rightarrow> q | Some x \<Rightarrow> bl q x) ws"

definition exact_blend :: "real \<Rightarrow> real \<Rightarrow> real" where
  "exact_blend q x = 9 / 10 * q + 1 / 10 * x"

definition share :: "(trace_event \<Rightarrow> bool) \<Rightarrow> trace_event list \<Rightarrow> real" where
  "share P w = real (length (filter P w)) / real (length w)"

definition exact_frequency :: "syscall_id \<Rightarrow> trace_event list list \<Rightarrow> real" where
  "exact_frequency sid ws = average exact_blend
     (\<lambda>w. if sid \<in> ev_syscall_id ` set w then Some (share (\<lambda>e. ev_syscall_id e = sid) w) else None) 0 ws"

definition exact_crypto_ratio :: "trace_event list list \<Rightarrow> real" where
  "exact_crypto_ratio ws = average exact_blend (\<lambda>w. if w = [] then None else Some (share is_crypto w)) 0 ws"

section \<open>The averages of the code\<close>

text \<open>The same averages with the rounded operations: what the baseline holds.\<close>

definition float_share :: "(trace_event \<Rightarrow> bool) \<Rightarrow> trace_event list \<Rightarrow> f64" where
  "float_share P w = fp_of_usize (length (filter P w)) / fp_of_usize (length w)"

lemma count_list_filter: "count_list (map f xs) y = length (filter (\<lambda>x. f x = y) xs)"
  by (induction xs) auto

lemma window_frequency_share:
  "length w < 2 ^ 64 \<Longrightarrow> window_frequency w sid = float_share (\<lambda>e. ev_syscall_id e = sid) w"
  using le_less_trans [OF length_filter_le, of w "2 ^ 64" "\<lambda>e. ev_syscall_id e = sid"]
  unfolding window_frequency_def float_share_def count_list_filter fp_of_usize_def
  by (simp only: fp_of_u64_of_nat)

lemma update_all_lookup:
  assumes "update_all p order b ws = Inr b'" "\<And>m. iter_order m (order m)" "\<forall>w \<in> set ws. length w < 2 ^ 64"
  shows "old_frequency (pb_syscall_frequencies b') sid = average blend
      (\<lambda>w. if sid \<in> ev_syscall_id ` set w then Some (float_share (\<lambda>e. ev_syscall_id e = sid) w) else None)
      (old_frequency (pb_syscall_frequencies b) sid) ws \<and>
    pb_crypto_ratio b' = average blend (\<lambda>w. if w = [] then None else Some (float_share is_crypto w))
      (pb_crypto_ratio b) ws"
  using assms(1,3)
proof (induction ws arbitrary: b)
  case (Cons w ws)
  obtain b1 where b1: "update p order b w = Inr b1" "update_all p order b1 ws = Inr b'"
    using Cons.prems(1) by (auto simp: res_bind_Inr_iff)
  have w: "length w < 2 ^ 64" using Cons.prems(2) by simp
  show ?case
  proof (cases "w = []")
    case True
    then have "b1 = b" using b1(1) by (simp add: update_def)
    then show ?thesis using Cons.IH [OF b1(2)] Cons.prems(2) True by simp
  next
    case False
    have pos: "0 < (of_nat (length w) :: u64)"
    proof -
      have "unat (of_nat (length w) :: u64) \<noteq> 0" unfolding unat_of_nat_u64 [OF w] using False by simp
      then show ?thesis by (metis unat_0 word_greater_zero_iff)
    qed
    have crypto: "fp_of_u64 (of_nat (length (filter is_crypto w))) / fp_of_u64 (of_nat (length w)) = float_share is_crypto w"
      using le_less_trans [OF length_filter_le w, of is_crypto] w
      unfolding float_share_def fp_of_usize_def by (simp only: fp_of_u64_of_nat)
    note f = update_Inr [OF b1(1) False assms(2)]
    have "old_frequency (pb_syscall_frequencies b1) sid =
        (if sid \<in> ev_syscall_id ` set w
         then blend (old_frequency (pb_syscall_frequencies b) sid) (float_share (\<lambda>e. ev_syscall_id e = sid) w)
         else old_frequency (pb_syscall_frequencies b) sid)"
      using f(1) [of sid] by (simp add: old_frequency_def window_frequency_share [OF w])
    moreover have "pb_crypto_ratio b1 = blend (pb_crypto_ratio b) (float_share is_crypto w)"
      using f(2) pos crypto by simp
    ultimately show ?thesis using Cons.IH [OF b1(2)] Cons.prems(2) False by auto
  qed
qed simp

section \<open>The distance between the two\<close>

lemma share_near: "w \<noteq> [] \<Longrightarrow> length w < 2 ^ 53 \<Longrightarrow> near (1 / 2 ^ 53) (float_share P w) (share P w)"
  unfolding float_share_def share_def by (rule near_ratio) simp_all

lemma share_near': "x \<in> set w \<Longrightarrow> length w < 2 ^ 53 \<Longrightarrow> near (1 / 2 ^ 53) (float_share P w) (share P w)"
  by (rule share_near) auto

lemma share_in: "0 \<le> share P w" "share P w \<le> 1"
  by (simp_all add: share_def divide_le_eq_1)

text \<open>One step: nine tenths of the old error, and less than four roundings.\<close>

lemma blend_near:
  assumes "near (1 / 2 ^ 47) old q" "near (1 / 2 ^ 53) new x" "0 \<le> q" "q \<le> 1" "0 \<le> x" "x \<le> 1"
  shows "near (1 / 2 ^ 47) (blend old new) (exact_blend q x)"
proof -
  let ?b = "8106479329266893 / 2 ^ 53 :: real" and ?a = "7205759403792794 / 2 ^ 56 :: real"
  have "near (?b * (1 / 2 ^ 47) + 1 / 2 ^ 54 + 1 / 2 ^ 53) (Fin ?b * old) (9 / 10 * q)"
    by (rule near_scale [OF assms(1) _ _ _ assms(3,4)]) simp_all
  moreover have "near (?a * (1 / 2 ^ 53) + 1 / 2 ^ 56 + 1 / 2 ^ 53) (Fin ?a * new) (1 / 10 * x)"
    by (rule near_scale [OF assms(2) _ _ _ assms(5,6)]) simp_all
  ultimately have "near ((?b * (1 / 2 ^ 47) + 1 / 2 ^ 54 + 1 / 2 ^ 53) + (?a * (1 / 2 ^ 53) + 1 / 2 ^ 56 + 1 / 2 ^ 53) + 1 / 2 ^ 53)
      (Fin ?b * old + Fin ?a * new) (9 / 10 * q + 1 / 10 * x)"
    using assms(3-6) by (intro near_add) (simp_all add: abs_le_iff)
  then have "near ((?b * (1 / 2 ^ 47) + 1 / 2 ^ 54 + 1 / 2 ^ 53) + (?a * (1 / 2 ^ 53) + 1 / 2 ^ 56 + 1 / 2 ^ 53) + 1 / 2 ^ 53)
      (blend old new) (exact_blend q x)"
    unfolding blend_def exact_blend_def one_minus_alpha unfolding alpha_value .
  then show ?thesis by (rule near_mono) simp
qed

lemma average_near:
  assumes "near (1 / 2 ^ 47) f q" "0 \<le> q" "q \<le> 1"
    and "\<forall>w \<in> set ws. (case (new w, new' w) of
       (None, None) \<Rightarrow> True | (Some g, Some x) \<Rightarrow> near (1 / 2 ^ 53) g x \<and> 0 \<le> x \<and> x \<le> 1 | _ \<Rightarrow> False)"
  shows "near (1 / 2 ^ 47) (average blend new f ws) (average exact_blend new' q ws)"
  using assms
proof (induction ws arbitrary: f q)
  case (Cons w ws)
  have head: "case (new w, new' w) of
       (None, None) \<Rightarrow> True | (Some g, Some x) \<Rightarrow> near (1 / 2 ^ 53) g x \<and> 0 \<le> x \<and> x \<le> 1 | _ \<Rightarrow> False"
    using Cons.prems(4) by simp
  show ?case
  proof (cases "new w")
    case None
    then have "new' w = None" using head by (simp split: option.splits)
    then show ?thesis using Cons None by simp
  next
    case (Some g)
    then obtain x where x: "new' w = Some x" "near (1 / 2 ^ 53) g x" "0 \<le> x" "x \<le> 1"
      using head by (simp split: option.splits)
    have "0 \<le> exact_blend q x" "exact_blend q x \<le> 1"
      using x Cons.prems(2,3) by (simp_all add: exact_blend_def)
    then show ?thesis
      using Cons.IH [OF blend_near [OF Cons.prems(1) x(2) Cons.prems(2,3) x(3,4)]] Cons.prems(4) Some x(1) by simp
  qed
qed simp

section \<open>Properties\<close>

text \<open>
  C29.  Accuracy without drift: after any list of windows of fewer than \<open>2 ^ 53\<close> events, every frequency
  that the baseline holds, and the crypto ratio, is within \<open>2 ^ - 47\<close> of the moving average over the
  reals, however many windows there were; the rounding errors of the updates do not add up.
\<close>

theorem baseline_accurate:
  assumes "update_all p order (baseline_new pid) ws = Inr b" and "\<And>m. iter_order m (order m)"
    and "\<forall>w \<in> set ws. length w < 2 ^ 53"
  shows "(\<forall>sid f. fmlookup (pb_syscall_frequencies b) sid = Some f \<longrightarrow> near (1 / 2 ^ 47) f (exact_frequency sid ws)) \<and>
    near (1 / 2 ^ 47) (pb_crypto_ratio b) (exact_crypto_ratio ws)"
proof -
  have small: "\<forall>w \<in> set ws. length w < 2 ^ 64" using assms(3) by auto
  note held = update_all_lookup [OF assms(1,2) small]
  have start: "old_frequency (pb_syscall_frequencies (baseline_new pid)) sid = Fin 0"
    "pb_crypto_ratio (baseline_new pid) = Fin 0" for sid
    by (simp_all add: baseline_new_def old_frequency_def zero_fp_def)
  have "near (1 / 2 ^ 47) (old_frequency (pb_syscall_frequencies b) sid) (exact_frequency sid ws)" for sid
    unfolding held [THEN conjunct1] exact_frequency_def start
    using assms(3) share_near' share_in by (intro average_near) auto
  then have "near (1 / 2 ^ 47) f (exact_frequency sid ws)" if "fmlookup (pb_syscall_frequencies b) sid = Some f" for sid f
    using that by (metis old_frequency_def option.case(2))
  moreover have "near (1 / 2 ^ 47) (pb_crypto_ratio b) (exact_crypto_ratio ws)"
    unfolding held [THEN conjunct2] exact_crypto_ratio_def start
    using assms(3) share_near share_in by (intro average_near) auto
  ultimately show ?thesis by blast
qed

theorem baseline_accurate_witness:
  "\<exists>b. update_all Debug (\<lambda>m. sorted_list_of_fset (fmdom m)) (baseline_new zero_pubkey) [sample_window, sample_window] = Inr b \<and>
     near (1 / 2 ^ 47) (pb_crypto_ratio b) (19 / 200)"
proof -
  obtain b where b: "update_all Debug (\<lambda>m. sorted_list_of_fset (fmdom m)) (baseline_new zero_pubkey)
      [sample_window, sample_window] = Inr b"
    using update_all_total [of Debug "[sample_window, sample_window]" "baseline_new zero_pubkey"
        "\<lambda>m. sorted_list_of_fset (fmdom m)"] sorted_fmdom_order
    by (auto simp: sample_window_def baseline_new_def)
  have "exact_crypto_ratio [sample_window, sample_window] = 19 / 200"
    by (simp add: exact_crypto_ratio_def exact_blend_def share_def sample_window_def CRYPTO_IDS_def syscall_ids)
  moreover have "\<forall>w \<in> set [sample_window, sample_window]. length w < 2 ^ 53" by (simp add: sample_window_def)
  ultimately show ?thesis
    using baseline_accurate [OF b sorted_fmdom_order] b by metis
qed

end
