(* ===== verification/NegativeScore.thy ===== *)
theory NegativeScore
  imports AnomalyDetector BaselineAverage
begin

text \<open>
  The score of \<open>AnomalyDetector::score_program\<close> (\<open>src/anomaly/src/detector.rs\<close>) can be negative.  The
  frequencies of a baseline are not a distribution: the frequency of a syscall is blended only in
  windows that contain the syscall, so the held frequencies can sum to more than one, and the
  divergence from them can be below zero.
\<close>

section \<open>The history\<close>

text \<open>Every syscall is seen alone in two windows; then all of them once in one window.\<close>

definition lone_event :: "syscall_id \<Rightarrow> trace_event" where
  "lone_event sid = \<lparr>ev_program_id = zero_pubkey, ev_syscall_id = sid, ev_args_hash = 0,
     ev_timestamp_ns = 0, ev_slot = 0, ev_transaction_id = zero_tx_id, ev_depth = 0\<rparr>"

definition lone_windows :: "syscall_id list \<Rightarrow> trace_event list list" where
  "lone_windows ids = concat (map (\<lambda>sid. [[lone_event sid], [lone_event sid]]) ids)"

lemma lone_windows_set: "w \<in> set (lone_windows ids) \<Longrightarrow> \<exists>sid \<in> set ids. w = [lone_event sid]"
  by (auto simp: lone_windows_def)

lemma lone_event_id [simp]: "ev_syscall_id (lone_event sid) = sid"
  by (simp add: lone_event_def)

section \<open>The baseline\<close>

lemma average_fixed:
  "\<forall>w \<in> set ws. (case new w of None \<Rightarrow> True | Some x \<Rightarrow> bl q x = q) \<Longrightarrow> average bl new q ws = q"
  by (induction ws) (auto split: option.splits)

lemma average_append: "average bl new q (ws @ ws') = average bl new (average bl new q ws) ws'"
  by (induction ws arbitrary: q) simp_all

lemma average_lone:
  assumes "distinct ids" "sid \<in> set ids"
  shows "average bl (\<lambda>w. if sid \<in> ev_syscall_id ` set w then Some (g w) else None) q (lone_windows ids) =
    bl (bl q (g [lone_event sid])) (g [lone_event sid])"
proof -
  let ?new = "\<lambda>w. if sid \<in> ev_syscall_id ` set w then Some (g w) else None"
  obtain as bs where ids: "ids = as @ sid # bs" using assms(2) by (meson split_list)
  have other: "average bl ?new r (lone_windows xs) = r" if "sid \<notin> set xs" for r xs
    using that by (intro average_fixed) (auto dest!: lone_windows_set)
  have "lone_windows ids = lone_windows as @ [[lone_event sid], [lone_event sid]] @ lone_windows bs"
    by (simp add: ids lone_windows_def)
  then show ?thesis using assms(1) by (simp add: ids average_append other)
qed

lemma update_one_delay:
  "update p order b [e] = Inr b' \<Longrightarrow> pb_mean_inter_call_delay_ns b' = pb_mean_inter_call_delay_ns b"
  by (auto simp: update_def res_bind_Inr_iff blend_delay_def Let_def)

lemma update_all_delay:
  "update_all p order b ws = Inr b' \<Longrightarrow> \<forall>w \<in> set ws. length w = 1 \<Longrightarrow>
   pb_mean_inter_call_delay_ns b' = pb_mean_inter_call_delay_ns b"
proof (induction ws arbitrary: b)
  case (Cons w ws)
  obtain e where w: "w = [e]" using Cons.prems(2) by (cases w) auto
  obtain b1 where "update p order b [e] = Inr b1" "update_all p order b1 ws = Inr b'"
    using Cons.prems(1) by (auto simp: res_bind_Inr_iff w)
  then show ?case using Cons.IH [of b1] Cons.prems(2) update_one_delay [of p order b e b1] by simp
qed simp

lemma share_one:
  "float_share P [e] = (if P e then Fin 1 else Fin 0)"
proof -
  have one: "(fp_of_usize 1 :: f64) = Fin 1" "(fp_of_usize 0 :: f64) = Fin 0"
    unfolding fp_of_usize_def using to_fp_nat_exact [of 1] to_fp_nat_exact [of 0] by simp_all
  then show ?thesis using one by (auto simp: float_share_def divide_fp_def)
qed

lemma blend_zero: "blend 0 (Fin 0) = 0"
proof -
  have "(to_fp 0 :: f64) = Fin 0" using to_fp_nat_exact [of 0] by simp
  then show ?thesis unfolding blend_def one_minus_alpha unfolding alpha_value fp_ops by simp
qed

lemma blend_twice: "near (1 / 2 ^ 47) (blend (blend 0 (Fin 1)) (Fin 1)) (19 / 100)"
proof -
  have "near (1 / 2 ^ 47) (blend 0 (Fin 1)) (exact_blend 0 1)"
    by (rule blend_near) (simp_all add: zero_fp_def)
  then have "near (1 / 2 ^ 47) (blend 0 (Fin 1)) (1 / 10)" by (simp add: exact_blend_def)
  then have "near (1 / 2 ^ 47) (blend (blend 0 (Fin 1)) (Fin 1)) (exact_blend (1 / 10) 1)"
    by (rule blend_near) simp_all
  then show ?thesis by (simp add: exact_blend_def)
qed

text \<open>What the history leaves: sixteen frequencies of about 0.19, and nothing else.\<close>

abbreviation held :: f64 where
  "held \<equiv> blend (blend 0 (Fin 1)) (Fin 1)"

lemma lone_baseline:
  assumes "update_all Release order (baseline_new pid) (lone_windows ids) = Inr b" "\<And>m. iter_order m (order m)"
    and "distinct ids" "set ids \<inter> set CRYPTO_IDS = {}"
  shows "fmlookup (pb_syscall_frequencies b) sid = (if sid \<in> set ids then Some held else None)"
    and "pb_crypto_ratio b = 0" "pb_mean_inter_call_delay_ns b = 0" "pb_max_cpi_depth b = 0"
proof -
  have small: "\<forall>w \<in> set (lone_windows ids). length w < 2 ^ 64" by (auto dest!: lone_windows_set)
  have one: "\<forall>w \<in> set (lone_windows ids). length w = 1" by (auto dest!: lone_windows_set)
  note ok = update_all_ok [OF assms(1) baseline_new_ok assms(2) small]
  note avg = update_all_lookup [OF assms(1,2) small]
  have ids: "ev_syscall_id ` set (concat (lone_windows ids)) = set ids" by (force simp: lone_windows_def)
  have dom: "sid \<in> set ids \<longleftrightarrow> fmlookup (pb_syscall_frequencies b) sid \<noteq> None"
    using ok ids by (simp add: baseline_new_def flip: fmlookup_dom_iff)
  have "old_frequency (pb_syscall_frequencies b) sid = held" if "sid \<in> set ids"
    unfolding avg [THEN conjunct1] average_lone [OF assms(3) that] share_one
    by (simp add: baseline_new_def old_frequency_def)
  then show "fmlookup (pb_syscall_frequencies b) sid = (if sid \<in> set ids then Some held else None)"
    using dom by (auto simp: old_frequency_def)
  show "pb_crypto_ratio b = 0"
    unfolding avg [THEN conjunct2]
    by (subst average_fixed)
      (use assms(4) in \<open>auto simp: baseline_new_def share_one blend_zero dest!: lone_windows_set\<close>)
  show "pb_mean_inter_call_delay_ns b = 0"
    using update_all_delay [OF assms(1) one] by (simp add: baseline_new_def)
  have "foldl max 0 (map ev_depth (concat (lone_windows ids))) = 0"
  proof -
    have zero: "foldl max 0 xs = 0" if "set xs \<subseteq> {0}" for xs :: "u8 list" using that by (induction xs) auto
    show ?thesis by (rule zero) (auto simp: lone_windows_def lone_event_def)
  qed
  then show "pb_max_cpi_depth b = 0" using ok by (simp add: baseline_new_def)
qed

section \<open>The window with all of them\<close>

lemma count_ids_match:
  "counts_match m seen \<Longrightarrow> count_ids p m es = Inr m' \<Longrightarrow> counts_match m' (seen @ map ev_syscall_id es)"
proof (induction es arbitrary: m seen)
  case (Cons e es)
  then obtain m1 where "bump_entry p (ev_syscall_id e) m = Inr m1" "count_ids p m1 es = Inr m'"
    by (auto simp: res_bind_Inr_iff)
  then show ?case using Cons.IH [OF counts_match_bump [OF Cons.prems(1)]] by simp
qed simp

lemma observed_once:
  assumes "distinct ids" "length ids = 16"
    and "observed_freqs p (fp_of_usize (length (map lone_event ids))) (map lone_event ids) = Inr ob"
  shows "fmlookup ob sid = (if sid \<in> set ids then Some (Fin (1 / 16)) else None)"
proof -
  obtain counts where c: "count_ids p fmempty (map lone_event ids) = Inr counts"
    "ob = fmmap (\<lambda>c. fp_of_u64 c / fp_of_usize 16) counts"
    using assms(2,3) by (auto simp: observed_freqs_def res_bind_Inr_iff)
  have "counts_match fmempty []" by (simp add: counts_match_def)
  from count_ids_match [OF this c(1)] have "counts_match counts ids" by (simp add: comp_def)
  moreover have "count_list ids sid = 1" if "sid \<in> set ids"
    using assms(1) that by (induction ids) auto
  moreover have "(fp_of_u64 1 / fp_of_usize 16 :: f64) = Fin (1 / 16)"
  proof -
    have "(fp_of_u64 1 :: f64) = Fin 1" "(fp_of_usize 16 :: f64) = Fin 16"
      unfolding fp_of_u64_def fp_of_usize_def using to_fp_nat_exact [of 1] to_fp_nat_exact [of 16] by simp_all
    then show ?thesis using to_fp_dyadic_f64 [of 1 4] by (simp add: divide_fp_def)
  qed
  ultimately show ?thesis by (simp add: c(2) counts_match_def)
qed

text \<open>What is needed of the logarithm: that it is within 1/1024 of the real one.\<close>

definition ln_near :: "(f64 \<Rightarrow> f64) \<Rightarrow> bool" where
  "ln_near lnf \<longleftrightarrow> (\<forall>x > 0. near (1 / 1024) (lnf (Fin x)) (ln x))"

lemma held_value: "\<exists>q. held = Fin q \<and> \<bar>q - 19 / 100\<bar> \<le> 1 / 2 ^ 47"
  using blend_twice by (simp add: near_def)

lemma max_epsilon:
  assumes "1 / 100 \<le> q"
  shows "fp_max (Fin q) epsilon = Fin q"
proof -
  have "near (0 + 1 / 2 ^ 53) epsilon (1 / 10 ^ 10)" unfolding epsilon_def by (rule near_to_fp) simp_all
  then obtain e where e: "epsilon = Fin e" "\<bar>e - 1 / 10 ^ 10\<bar> \<le> 0 + 1 / 2 ^ 53" unfolding near_def by blast
  have "1 / 2 ^ 53 \<le> (1 / 1000 :: real)" "1 / 10 ^ 10 \<le> (1 / 1000 :: real)" by simp_all
  with e(2) assms have "e \<le> q" by linarith
  then show ?thesis by (simp add: e(1) fp_max_def)
qed

text \<open>The logarithm of the quotient of 1/16 and the held frequency lies between -1.51 and -0.99.\<close>

lemma ratio_ln:
  assumes "ln_near lnf"
  shows "\<exists>l. lnf (Fin (1 / 16) / fp_max held epsilon) = Fin l \<and> - 151 / 100 \<le> l \<and> l \<le> - 99 / 100"
proof -
  obtain q where q: "held = Fin q" "\<bar>q - 19 / 100\<bar> \<le> 1 / 2 ^ 47" using held_value by blast
  have "1 / 2 ^ 47 \<le> (1 / 10000 :: real)" by simp
  with q(2) have b: "1899 / 10000 \<le> q" "q \<le> 1901 / 10000" by linarith+
  have "1 / 16 / q \<le> 329 / 1000 + 1 / 4000" "329 / 1000 - 1 / 4000 \<le> 1 / 16 / q"
    using b by (simp_all add: field_simps)
  then have r: "\<bar>1 / 16 / q - 329 / 1000\<bar> \<le> 1 / 4000" "\<bar>1 / 16 / q\<bar> < 2" by linarith+
  have "near (1 / 4000 + 1 / 2 ^ 53) (to_fp (1 / 16 / q)) (329 / 1000)" by (rule near_to_fp [OF r])
  then obtain x where x: "to_fp (1 / 16 / q) = (Fin x :: f64)" "\<bar>x - 329 / 1000\<bar> \<le> 1 / 4000 + 1 / 2 ^ 53"
    by (auto simp: near_def)
  have "1 / 2 ^ 53 \<le> (1 / 4000 :: real)" by simp
  with x(2) have xb: "16 / 49 \<le> x" "x \<le> 1 / 3" by linarith+
  have "- 3 / 2 \<le> ln (16 / 49 :: real)"
  proof -
    have "1 - 7 / 4 \<le> ln (4 / 7 :: real)" using ln_add_one_self_le_self2 [of "3 / 4 :: real"] ln_div [of 4 "7 :: real"] by (simp add: ln_div)
    moreover have "ln (16 / 49 :: real) = 2 * ln (4 / 7)"
      using ln_realpow [of "4 / 7 :: real" 2] by (simp add: power2_eq_square)
    ultimately show ?thesis by simp
  qed
  also have "\<dots> \<le> ln x" using xb by simp
  finally have lo: "- 3 / 2 \<le> ln x" .
  have "ln x \<le> ln (1 / 3)" using xb by simp
  also have "\<dots> \<le> - 1"
  proof -
    have "1 \<le> ln (3 :: real)" using exp_le by (simp add: ln_ge_iff)
    then show ?thesis by (simp add: ln_div)
  qed
  finally have hi: "ln x \<le> - 1" .
  have "near (1 / 1024) (lnf (Fin x)) (ln x)" using assms xb by (simp add: ln_near_def)
  then obtain l where l: "lnf (Fin x) = Fin l" "\<bar>l - ln x\<bar> \<le> 1 / 1024" unfolding near_def by blast
  then have "- 151 / 100 \<le> l" "l \<le> - 99 / 100" using lo hi by linarith+
  moreover have "Fin (1 / 16) / fp_max held epsilon = Fin x"
    using b x(1) unfolding q(1) by (simp add: max_epsilon divide_fp_def)
  ultimately show ?thesis using l(1) by auto
qed

section \<open>The scores\<close>

text \<open>The divergence: sixteen times a sixteenth of the logarithm.\<close>

lemma add_sixteenths:
  assumes "near (1 / 2 ^ 53) t (l / 16)" "\<bar>l\<bar> \<le> 151 / 100" "length xs \<le> 16"
  shows "near (real (length xs) / 2 ^ 52) (foldl (\<lambda>a _. a + t) 0 xs) (real (length xs) * l / 16)"
proof -
  let ?n = "length xs"
  have "foldl (\<lambda>a _. a + t) s xs = foldl (+) s (replicate (length xs) t)" for s
    by (induction xs arbitrary: s) simp_all
  moreover have "near (0 + real (length (replicate ?n (l / 16))) * (1 / 2 ^ 53 + 1 / 2 ^ 53))
      (foldl (+) 0 (replicate ?n t)) (0 + sum_list (replicate ?n (l / 16)))"
  proof (rule near_sum)
    show "list_all2 (near (1 / 2 ^ 53)) (replicate ?n t) (replicate ?n (l / 16))"
      using assms(1) by (simp add: list_all2_conv_all_nth)
    have "real ?n * \<bar>l\<bar> / 16 \<le> 16 * (151 / 100) / 16"
      using assms(2,3) by (intro divide_right_mono mult_mono) simp_all
    moreover have "real ?n * (1 / 2 ^ 53 + 1 / 2 ^ 53) \<le> 16 * (1 / 2 ^ 53 + 1 / 2 ^ 53)"
      using assms(3) by (intro mult_right_mono) simp_all
    moreover have "16 * (151 / 100) / 16 + 16 * (1 / 2 ^ 53 + 1 / 2 ^ 53) < (2 :: real)" by simp
    ultimately have less: "real ?n * \<bar>l\<bar> / 16 + real ?n * (1 / 2 ^ 53 + 1 / 2 ^ 53) < 2" by linarith
    have sums: "(\<Sum>x\<leftarrow>replicate ?n (l / 16). \<bar>x\<bar>) = real ?n * \<bar>l\<bar> / 16"
      by (simp add: sum_list_replicate)
    show "\<bar>0\<bar> + 0 + (\<Sum>x\<leftarrow>replicate ?n (l / 16). \<bar>x\<bar>) +
        real (length (replicate ?n (l / 16))) * (1 / 2 ^ 53 + 1 / 2 ^ 53) < 2"
      unfolding sums length_replicate abs_zero add_0 by (rule less)
  qed (simp_all add: zero_fp_def)
  moreover have "0 + real (length (replicate ?n (l / 16))) * (1 / 2 ^ 53 + 1 / 2 ^ 53) = real ?n / 2 ^ 52"
    by simp
  moreover have "0 + sum_list (replicate ?n (l / 16)) = real ?n * l / 16" by (simp add: sum_list_replicate)
  ultimately show ?thesis by metis
qed

lemma divergence_negative:
  assumes "ln_near lnf" "\<And>sid. fmlookup (pb_syscall_frequencies b) sid = (if sid \<in> set ids then Some held else None)"
    and "\<And>sid. fmlookup ob sid = (if sid \<in> set ids then Some (Fin (1 / 16)) else None)"
    and "iter_order ob (orderf ob)" "distinct ids" "length ids = 16"
  shows "\<exists>k. kl_divergence lnf orderf b ob = Fin k \<and> - 152 / 100 \<le> k \<and> k \<le> - 98 / 100"
proof -
  obtain l where l: "lnf (Fin (1 / 16) / fp_max held epsilon) = Fin l" "- 151 / 100 \<le> l" "l \<le> - 99 / 100"
    using ratio_ln [OF assms(1)] by blast
  let ?t = "Fin (1 / 16) * Fin l"
  have "\<bar>l / 16\<bar> < 2" using l(2,3) by linarith
  then have "near (0 + 1 / 2 ^ 53) (to_fp (l / 16)) (l / 16)" by (intro near_to_fp) simp_all
  then have t: "near (1 / 2 ^ 53) ?t (l / 16)" by (simp add: times_fp_def)
  have ks: "set (orderf ob) = set ids" using iter_order_mem [OF assms(4)] assms(3) by (auto split: if_splits)
  have len: "length (orderf ob) = 16"
    using ks assms(4-6) by (metis distinct_card iter_order_def)
  have step: "kl_term lnf b ob a sid = a + ?t" if "sid \<in> set (orderf ob)" for a sid
    using that l(1) unfolding ks by (simp add: kl_term_def assms(2,3) Let_def zero_fp_def less_fp_def)
  have "kl_divergence lnf orderf b ob = foldl (\<lambda>a _. a + ?t) 0 (orderf ob)"
    unfolding kl_divergence_def by (rule foldl_cong) (simp_all add: step)
  moreover have "near (real (length (orderf ob)) / 2 ^ 52) (foldl (\<lambda>a _. a + ?t) 0 (orderf ob))
      (real (length (orderf ob)) * l / 16)"
    using l(2,3) len by (intro add_sixteenths [OF t]) (simp_all add: abs_le_iff)
  ultimately obtain k where k: "kl_divergence lnf orderf b ob = Fin k" "\<bar>k - l\<bar> \<le> 16 / 2 ^ 52"
    unfolding len near_def by auto
  have "16 / 2 ^ 52 \<le> (1 / 100 :: real)" by simp
  with k(2) l(2,3) have "- 152 / 100 \<le> k" "k \<le> - 98 / 100" by linarith+
  with k(1) show ?thesis by blast
qed

text \<open>The isolation score: the norm of a vector with 16/30 and four frequencies of about 0.19.\<close>

lemma sorted_replicate: "foldr insert_desc (replicate n x) [] = replicate n x"
proof (rule replicate_eqI)
  show "length (foldr insert_desc (replicate n x) []) = n" by (simp only: length_sorted length_replicate)
  show "y = x" if "y \<in> set (foldr insert_desc (replicate n x) [])" for y
    using that unfolding set_sorted by (auto split: if_splits)
qed

lemma lone_feature_vector:
  assumes "\<And>sid. fmlookup (pb_syscall_frequencies b) sid = (if sid \<in> set ids then Some held else None)"
    and "pb_crypto_ratio b = 0" "pb_mean_inter_call_delay_ns b = 0" "pb_max_cpi_depth b = 0"
    and "iter_order (pb_syscall_frequencies b) (orderf (pb_syscall_frequencies b))" "distinct ids" "length ids = 16"
  shows "\<exists>dv. feature_vector orderf b = Inr [Fin 0, Fin 0, Fin 0, dv, held, held, held, held] \<and>
    near (1 / 2 ^ 53) dv (8 / 15)"
proof -
  let ?ks = "orderf (pb_syscall_frequencies b)"
  let ?vals = "map (\<lambda>sid. case fmlookup (pb_syscall_frequencies b) sid of None \<Rightarrow> 0 | Some f \<Rightarrow> f) ?ks"
  have ks: "set ?ks = set ids" using iter_order_mem [OF assms(5)] assms(1) by (auto split: if_splits)
  then have len: "length ?ks = 16" using assms(5-7) by (metis distinct_card iter_order_def)
  have "?vals = map (\<lambda>sid. held) ?ks" using ks assms(1) by (intro map_cong) auto
  then have vals: "?vals = replicate 16 held" by (simp add: map_replicate_const len)
  have "held \<noteq> NaN" using held_value by auto
  then have sorted: "sort_desc (replicate 16 held) = Inr (replicate 16 held)"
    unfolding sort_desc_def sorted_replicate by simp
  have nums: "(to_fp 0 :: f64) = Fin 0" "(to_fp 10 :: f64) = Fin 10" "(to_fp 1000000 :: f64) = Fin 1000000"
    "(to_fp 100 :: f64) = Fin 100" "(to_fp 30 :: f64) = Fin 30"
    using to_fp_nat_exact [of 0] to_fp_nat_exact [of 10] to_fp_nat_exact [of 1000000] to_fp_nat_exact [of 100]
      to_fp_nat_exact [of 30] by simp_all
  have "hm_len (pb_syscall_frequencies b) = 16" using iter_order_length [OF assms(5)] len by simp
  moreover have "near (1 / 2 ^ 53) (fp_of_usize 16 / to_fp 30) (16 / 30)"
    using near_ratio [of 16 30] by (simp add: fp_of_usize_def)
  ultimately show ?thesis
    using vals sorted
    by (simp add: feature_vector_def Let_def assms(2-4) nums resize_def zero_fp_def divide_fp_def fp_min_def
        nth_append)
qed

lemma lone_isolation:
  assumes "feature_vector orderf b = Inr [Fin 0, Fin 0, Fin 0, dv, held, held, held, held]" "near (1 / 2 ^ 53) dv (8 / 15)"
  shows "\<exists>i. isolation orderf b = Inr (Fin i) \<and> 0 \<le> i \<and> i \<le> 23 / 100"
proof -
  let ?vs = "[Fin 0, Fin 0, Fin 0, dv, held, held, held, held]"
  let ?xs = "[0, 0, 0, 64 / 225, 361 / 10000, 361 / 10000, 361 / 10000, 361 / 10000] :: real list"
  let ?e = "1 / 2 ^ 44 :: real"
  have z: "near ?e (Fin 0 * Fin 0) 0" using to_fp_nat_exact [of 0] by (simp add: times_fp_def)
  have "near (1 / 2 ^ 53 + 1 / 2 ^ 53 + 1 / 2 ^ 53 * (1 / 2 ^ 53) + 1 / 2 ^ 53) (dv * dv) (8 / 15 * (8 / 15))"
    by (rule near_mul [OF assms(2,2)]) simp_all
  then have d: "near ?e (dv * dv) (64 / 225)" by (simp add: near_mono)
  have "near (1 / 2 ^ 47 + 1 / 2 ^ 47 + 1 / 2 ^ 47 * (1 / 2 ^ 47) + 1 / 2 ^ 53) (held * held) (19 / 100 * (19 / 100))"
    by (rule near_mul [OF blend_twice blend_twice]) simp_all
  then have h: "near ?e (held * held) (361 / 10000)" by (simp add: near_mono)
  have "near (0 + real (length ?xs) * (?e + 1 / 2 ^ 53)) (foldl (+) 0 (map (\<lambda>x. x * x) ?vs)) (0 + sum_list ?xs)"
    by (rule near_sum) (use z d h in \<open>simp_all add: zero_fp_def\<close>)
  then have "near (1 / 2 ^ 40) (fp_sum (map (\<lambda>x. x * x) ?vs)) (sum_list ?xs)"
    unfolding fp_sum_def by (simp add: near_mono)
  then have "\<exists>r. fp_sqrt (fp_sum (map (\<lambda>x. x * x) ?vs)) = Fin r \<and> 1 / 2 - 1 / 2 ^ 53 \<le> r \<and> r \<le> 66 / 100 + 1 / 2 ^ 53"
    by (rule near_sqrt) (simp_all add: power2_eq_square)
  then obtain r where r: "l2_norm ?vs = Fin r" "1 / 2 - 1 / 2 ^ 53 \<le> r" "r \<le> 66 / 100 + 1 / 2 ^ 53"
    unfolding l2_norm_def by blast
  have small: "1 / 2 ^ 53 \<le> (1 / 1000 :: real)" by simp
  with r have "0 \<le> r" "r / 3 \<le> 221 / 1000" "\<bar>r / 3\<bar> < 2" by linarith+
  then have "near (0 + 1 / 2 ^ 53) (to_fp (r / 3)) (r / 3)" by (intro near_to_fp) simp_all
  then obtain i where i: "to_fp (r / 3) = (Fin i :: f64)" "\<bar>i - r / 3\<bar> \<le> 0 + 1 / 2 ^ 53"
    unfolding near_def by blast
  with small r have ib: "0 \<le> i" "i \<le> 23 / 100" by linarith+
  have "(to_fp 3 :: f64) = Fin 3" using to_fp_nat_exact [of 3] by simp
  then have "fp_min (l2_norm ?vs / to_fp 3) 1 = Fin i"
    unfolding r(1) using i(1) ib by (simp add: divide_fp_def fp_min_def one_fp_def)
  then show ?thesis using assms(1) ib by (simp add: isolation_def)
qed

text \<open>The two weighted parts: at most -0.11 and at most 0.095.\<close>

lemma weighted_sum_negative:
  assumes "- 152 / 100 \<le> k" "k \<le> - 98 / 100" "0 \<le> i" "i \<le> 23 / 100"
  shows "fp_min (to_fp (6 / 10) * fp_min (Fin k / to_fp 5) 1 + to_fp (4 / 10) * Fin i) 1 < (0 :: f64)"
proof -
  let ?e = "1 / 2 ^ 53 :: real"
  have small: "?e \<le> 1 / 1000" by simp
  have "near (0 + ?e) (to_fp (6 / 10)) (6 / 10)" "near (0 + ?e) (to_fp (4 / 10)) (4 / 10)"
    by (rule near_to_fp; simp)+
  then obtain w v where w: "(to_fp (6 / 10) :: f64) = Fin w" "\<bar>w - 6 / 10\<bar> \<le> 0 + ?e"
    and v: "(to_fp (4 / 10) :: f64) = Fin v" "\<bar>v - 4 / 10\<bar> \<le> 0 + ?e" unfolding near_def by blast
  have five: "(to_fp 5 :: f64) = Fin 5" using to_fp_nat_exact [of 5] by simp
  have "\<bar>k / 5\<bar> < 2" using assms by linarith
  then have "near (0 + ?e) (to_fp (k / 5)) (k / 5)" by (intro near_to_fp) simp_all
  then obtain a where a: "(to_fp (k / 5) :: f64) = Fin a" "\<bar>a - k / 5\<bar> \<le> 0 + ?e" unfolding near_def by blast
  have ab: "- 306 / 1000 \<le> a" "a \<le> - 195 / 1000" using a(2) small assms(1,2) by linarith+
  have wb: "599 / 1000 \<le> w" "w \<le> 601 / 1000" and vb: "399 / 1000 \<le> v" "v \<le> 401 / 1000"
    using w(2) v(2) small by linarith+
  have "w * a \<le> w * (- 195 / 1000)" "w * (- 306 / 1000) \<le> w * a"
    using ab wb by (intro mult_left_mono; simp)+
  then have wa: "w * a \<le> - 116 / 1000" "\<bar>w * a\<bar> < 2" using wb by linarith+
  have "near (0 + ?e) (to_fp (w * a)) (w * a)" using wa(2) by (intro near_to_fp) simp_all
  then obtain p where p: "(to_fp (w * a) :: f64) = Fin p" "\<bar>p - w * a\<bar> \<le> 0 + ?e" unfolding near_def by blast
  have "v * i \<le> 401 / 1000 * (23 / 100)" "0 \<le> v * i" using vb assms by (intro mult_mono mult_nonneg_nonneg; simp)+
  then have vi: "v * i \<le> 93 / 1000" "\<bar>v * i\<bar> < 2" by linarith+
  have "near (0 + ?e) (to_fp (v * i)) (v * i)" using vi(2) by (intro near_to_fp) simp_all
  then obtain s where s: "(to_fp (v * i) :: f64) = Fin s" "\<bar>s - v * i\<bar> \<le> 0 + ?e" unfolding near_def by blast
  have ps: "p + s \<le> - 21 / 1000" "\<bar>p + s\<bar> < 2"
    using p(2) s(2) wa vi small \<open>0 \<le> v * i\<close> \<open>w * (- 306 / 1000) \<le> w * a\<close> wb by linarith+
  have "near (0 + ?e) (to_fp (p + s)) (p + s)" using ps(2) by (intro near_to_fp) simp_all
  then obtain r where r: "(to_fp (p + s) :: f64) = Fin r" "\<bar>r - (p + s)\<bar> \<le> 0 + ?e" unfolding near_def by blast
  have "r < 0" using r(2) ps small by linarith
  moreover have "fp_min (Fin k / to_fp 5) 1 = (Fin a :: f64)"
    using ab by (simp add: five divide_fp_def a(1) fp_min_def one_fp_def)
  ultimately show ?thesis
    unfolding w(1) v(1) times_fp_def plus_fp_def by (simp add: p(1) s(1) r(1) fp_min_def one_fp_def zero_fp_def less_fp_def)
qed

lemma run_ingest:
  "update_all Release order (case fmlookup (ad_baseline_store d) pid of None \<Rightarrow> baseline_new pid | Some b \<Rightarrow> b) ws =
     Inr b' \<Longrightarrow> ws \<noteq> [] \<Longrightarrow>
   \<exists>d'. detector_run lnf Release order orderf (map (IngestWindow pid) ws) d = Inr ([], d') \<and>
     store_get (ad_baseline_store d') pid = Some b'"
proof (induction ws arbitrary: d)
  case (Cons w ws)
  let ?b = "case fmlookup (ad_baseline_store d) pid of None \<Rightarrow> baseline_new pid | Some b \<Rightarrow> b"
  obtain b1 where b1: "update Release order ?b w = Inr b1" "update_all Release order b1 ws = Inr b'"
    using Cons.prems(1) by (auto simp: res_bind_Inr_iff)
  let ?d = "d\<lparr>ad_baseline_store := fmupd pid b1 (ad_baseline_store d)\<rparr>"
  have d: "ingest_window Release order d pid w = Inr ?d"
    using b1(1) by (simp add: ingest_window_def store_update_program_def Let_def)
  show ?case
  proof (cases "ws = []")
    case True
    then show ?thesis using b1(2) d by (simp add: store_get_def)
  next
    case False
    then show ?thesis using Cons.IH [of ?d] b1(2) d by simp
  qed
qed simp

section \<open>Property\<close>

text \<open>
  C34.  A negative score: show a new detector any sixteen different syscalls that are not
  cryptographic, each alone in two windows, and then score the window that has each of them once.
  The score exists and is below zero, whatever the orders of the hash maps are, and for every
  logarithm that is within 1/1024 of the real one; the documentation promises a score between 0 and 1.
\<close>

theorem score_can_be_negative:
  assumes "\<And>m. iter_order m (order m)" and "\<And>m. iter_order m (orderf m)" and "ln_near lnf"
    and "distinct ids" and "length ids = 16" and "set ids \<inter> set CRYPTO_IDS = {}"
  shows "\<exists>d s. detector_run lnf Release order orderf (map (IngestWindow pid) (lone_windows ids)) (detector_new policy c) =
      Inr ([], d) \<and> score_program lnf Release orderf d pid (map lone_event ids) = Inr s \<and> s < 0"
proof -
  obtain b where b: "update_all Release order (baseline_new pid) (lone_windows ids) = Inr b"
    using update_all_total [of Release "lone_windows ids" "baseline_new pid" order] assms(1) by auto
  then have "update_all Release order (case fmlookup (ad_baseline_store (detector_new policy c)) pid of
      None \<Rightarrow> baseline_new pid | Some b \<Rightarrow> b) (lone_windows ids) = Inr b"
    by (simp add: detector_new_def store_new_def)
  moreover have "lone_windows ids \<noteq> []" using assms(5) by (cases ids) (auto simp: lone_windows_def)
  ultimately obtain d where d: "detector_run lnf Release order orderf (map (IngestWindow pid) (lone_windows ids))
      (detector_new policy c) = Inr ([], d)" "store_get (ad_baseline_store d) pid = Some b"
    using run_ingest by blast
  note base = lone_baseline [OF b assms(1,4,6)]
  obtain ob where ob: "observed_freqs Release (fp_of_usize (length (map lone_event ids))) (map lone_event ids) = Inr ob"
    using observed_Release by blast
  obtain k where k: "kl_divergence lnf orderf b ob = Fin k" "- 152 / 100 \<le> k" "k \<le> - 98 / 100"
    using divergence_negative [where orderf = orderf, OF assms(3) base(1) observed_once [OF assms(4,5) ob] assms(2,4,5)] by blast
  obtain i where i: "isolation orderf b = Inr (Fin i)" "0 \<le> i" "i \<le> 23 / 100"
    using lone_feature_vector [where orderf = orderf, OF base assms(2,4,5)] lone_isolation by blast
  have "(fp_of_usize (length (map lone_event ids)) :: f64) = Fin 16"
    using to_fp_nat_exact [of 16] by (simp add: fp_of_usize_def assms(5))
  then have "score_program lnf Release orderf d pid (map lone_event ids) =
      Inr (fp_min (to_fp (6 / 10) * fp_min (Fin k / to_fp 5) 1 + to_fp (4 / 10) * Fin i) 1)"
    using ob i(1) k(1) by (simp add: score_program_def d(2) Let_def fp_eq_def zero_fp_def)
  then show ?thesis using d(1) weighted_sum_negative [OF k(2,3) i(2,3)] by blast
qed

definition real_ln :: "f64 \<Rightarrow> f64" where
  "real_ln v = (case v of Fin x \<Rightarrow> Fin (ln x) | _ \<Rightarrow> NaN)"

theorem score_can_be_negative_witness:
  "\<exists>d s. detector_run real_ln Release (\<lambda>m. sorted_list_of_fset (fmdom m)) (\<lambda>m. sorted_list_of_fset (fmdom m))
      (map (IngestWindow zero_pubkey) (lone_windows [1, 2, 3, 4, 5, 6, 10, 11, 12, 13, 30, 40, 41, 50, 51, 52]))
      (detector_new default_policy 0) = Inr ([], d) \<and>
    score_program real_ln Release (\<lambda>m. sorted_list_of_fset (fmdom m)) d zero_pubkey
      (map lone_event [1, 2, 3, 4, 5, 6, 10, 11, 12, 13, 30, 40, 41, 50, 51, 52]) = Inr s \<and> s < 0"
proof (rule score_can_be_negative)
  show "ln_near real_ln" by (simp add: ln_near_def real_ln_def)
  show "set [1, 2, 3, 4, 5, 6, 10, 11, 12, 13, 30, 40, 41, 50, 51, 52] \<inter> set CRYPTO_IDS = {}"
    by (simp add: CRYPTO_IDS_def syscall_ids)
qed (simp_all add: sorted_fmdom_order)

end
