(* ===== verification/AnomalyScorer.thy ===== *)
theory AnomalyScorer
  imports Common Floats
begin

text \<open>
  The anomaly scorer, \<open>src/ml/inference/src/anomaly_inference.rs\<close>: a deterministic stand-in for an
  exported model.
\<close>

record onnx_anomaly_scorer =
  os_model_path :: string
  os_contamination :: f64

definition scorer_new :: "string \<Rightarrow> f64 \<Rightarrow> onnx_anomaly_scorer" where
  "scorer_new model_path contamination =
     \<lparr>os_model_path = model_path, os_contamination = fp_clamp contamination 0 (to_fp (1 / 2))\<rparr>"

definition scorer_score :: "onnx_anomaly_scorer \<Rightarrow> f64 list \<Rightarrow> f64" where
  "scorer_score s fv =
     (if fv = [] then 0
      else (let l2 = l2_norm fv in fp_min (l2 / to_fp 3) 1))"

definition scorer_is_anomalous :: "onnx_anomaly_scorer \<Rightarrow> f64 list \<Rightarrow> bool" where
  "scorer_is_anomalous s fv \<longleftrightarrow> 1 - os_contamination s < scorer_score s fv"

definition scorer_model_path :: "onnx_anomaly_scorer \<Rightarrow> string" where
  "scorer_model_path s = os_model_path s"

definition scorer_contamination :: "onnx_anomaly_scorer \<Rightarrow> f64" where
  "scorer_contamination s = os_contamination s"

section \<open>Properties\<close>

lemma to_fp_half: "(to_fp (1 / 2) :: f64) = Fin (1 / 2)"
  using to_fp_dyadic_f64 [of 1 1] by simp

lemma clamp_in:
  assumes "c \<noteq> NaN"
  shows "fp_in (fp_clamp c 0 (to_fp (1 / 2)) :: f64) 0 (1 / 2)"
  using assms by (cases c) (auto simp: fp_clamp_def to_fp_half zero_fp_def)

lemma scorer_score_in: "fp_in (scorer_score s fv) 0 1"
  using unit_norm_in [of fv] by (simp add: scorer_score_def Let_def zero_fp_def)

text \<open>
  C31.  The scorer: whatever the feature vector holds, infinities and NaN included, the score is a
  finite number between 0 and 1, as the documentation promises; and for any contamination that is
  not NaN, only a vector whose score is at least one half is ever called anomalous, and none is
  when the contamination is not positive.
\<close>

theorem scorer_in_range:
  assumes "c \<noteq> NaN"
  shows "fp_in (scorer_score (scorer_new path c) fv) 0 1 \<and>
    fp_in (scorer_contamination (scorer_new path c)) 0 (1 / 2) \<and>
    (scorer_is_anomalous (scorer_new path c) fv \<longrightarrow>
       0 < c \<and> fp_in (scorer_score (scorer_new path c) fv) (1 / 2) 1)"
proof -
  let ?s = "scorer_new path c"
  obtain k where k: "os_contamination ?s = Fin k" "0 \<le> k" "k \<le> 1 / 2"
    using clamp_in [OF assms] by (auto simp: scorer_new_def fp_in_def)
  obtain r where r: "scorer_score ?s fv = Fin r" "0 \<le> r" "r \<le> 1"
    using scorer_score_in [of ?s fv] by (auto simp: fp_in_def)
  have sub: "1 - os_contamination ?s = to_fp (1 - k)"
    by (simp add: k(1) minus_fp_def one_fp_def)
  have half: "fp_in (to_fp (1 - k) :: f64) (1 / 2) 1"
    using k by (intro to_fp_in [OF _ _ to_fp_half to_fp_1_f64]) simp_all
  have "0 < c" if "scorer_is_anomalous ?s fv"
  proof (rule ccontr)
    assume "\<not> 0 < c"
    then have "k = 0"
      using k(1) assms by (cases c) (auto simp: scorer_new_def fp_clamp_def less_fp_def zero_fp_def to_fp_half split: if_splits)
    then show False using that r by (simp add: scorer_is_anomalous_def sub less_fp_def)
  qed
  moreover have "1 / 2 \<le> r" if "scorer_is_anomalous ?s fv"
    using that half by (auto simp: scorer_is_anomalous_def sub r(1) less_fp_def fp_in_def)
  ultimately show ?thesis
    using clamp_in [OF assms] r by (simp add: scorer_contamination_def) (simp add: scorer_new_def)
qed

theorem scorer_in_range_witness:
  "fp_in (scorer_score (scorer_new ''model.onnx'' (Fin 3)) [NaN, PInf, Fin 2]) 0 1 \<and>
   fp_in (scorer_contamination (scorer_new ''model.onnx'' (Fin 3))) 0 (1 / 2)"
  using scorer_in_range [of "Fin 3" "''model.onnx''" "[NaN, PInf, Fin 2]"] by blast

end
