(* ===== verification/Prefetcher.thy ===== *)
theory Prefetcher
  imports Common Floats
begin

text \<open>
  The speculative prefetcher of the optimizer, \<open>src/optimizer/src/prefetcher.rs\<close>.  Each operation
  takes the lock of the buffer for each access; run by one thread, as here, the accesses of an
  operation are not interleaved with those of another (\<open>PrefetcherConcurrent\<close> interleaves them).
\<close>

section \<open>The prefetcher\<close>

definition simulate_fetch :: "syscall_id \<Rightarrow> bytes" where
  "simulate_fetch sid =
     (if sid = SOL_GET_CLOCK_SYSVAR \<or> sid = SOL_GET_RENT_SYSVAR \<or> sid = SOL_GET_EPOCH_SCHEDULE_SYSVAR
      then replicate 64 0
      else if sid = SOL_SHA256 \<or> sid = SOL_KECCAK256 then replicate 32 0
      else if sid = SOL_SECP256K1_RECOVER then replicate 64 0
      else if sid = SOL_ED25519_VERIFY then [1]
      else [])"

record prefetch_entry =
  pe_syscall_id :: syscall_id
  pe_args_hash :: args_hash
  pe_result :: bytes
  pe_is_ready :: bool

type_synonym prefetch_key = "syscall_id \<times> args_hash"

record speculative_prefetcher =
  sp_buffer :: "(prefetch_key, prefetch_entry) fmap"
  sp_confidence_threshold :: f32
  sp_hits :: u64
  sp_misses :: u64

definition prefetcher_new :: "f32 \<Rightarrow> speculative_prefetcher" where
  "prefetcher_new confidence_threshold =
     \<lparr>sp_buffer = fmempty, sp_confidence_threshold = confidence_threshold, sp_hits = 0, sp_misses = 0\<rparr>"

fun trigger_one :: "speculative_prefetcher \<Rightarrow> syscall_id \<times> args_hash \<times> f32 \<Rightarrow> speculative_prefetcher" where
  "trigger_one pf (sid, h, confidence) =
     (if confidence < sp_confidence_threshold pf then pf
      else (let key = (sid, h)
            in if fmlookup (sp_buffer pf) key \<noteq> None then pf
               else (let result = simulate_fetch sid;
                         entry = \<lparr>pe_syscall_id = sid, pe_args_hash = h, pe_result = result, pe_is_ready = True\<rparr>
                     in pf\<lparr>sp_buffer := fmupd key entry (sp_buffer pf)\<rparr>)))"

definition trigger :: "speculative_prefetcher \<Rightarrow> (syscall_id \<times> args_hash \<times> f32) list \<Rightarrow> speculative_prefetcher" where
  "trigger pf predictions = foldl trigger_one pf predictions"

definition consume ::
  "speculative_prefetcher \<Rightarrow> syscall_id \<Rightarrow> args_hash \<Rightarrow> speculative_prefetcher \<times> bytes option" where
  "consume pf sid h =
     (case fmlookup (sp_buffer pf) (sid, h) of
        None \<Rightarrow> (pf, None)
      | Some entry \<Rightarrow>
          (let pf1 = pf\<lparr>sp_buffer := fmdrop (sid, h) (sp_buffer pf)\<rparr>
           in if pe_is_ready entry
              then (pf1\<lparr>sp_hits := sp_hits pf1 + 1\<rparr>, Some (pe_result entry))
              else (pf1\<lparr>sp_misses := sp_misses pf1 + 1\<rparr>, None)))"

definition prefetcher_stats :: "speculative_prefetcher \<Rightarrow> u64 \<times> u64" where
  "prefetcher_stats pf = (sp_hits pf, sp_misses pf)"

definition buffer_len :: "speculative_prefetcher \<Rightarrow> nat" where
  "buffer_len pf = hm_len (sp_buffer pf)"

section \<open>Runs and their specification\<close>

datatype prefetch_op =
    Trigger "(syscall_id \<times> args_hash \<times> f32) list"
  | Consume syscall_id args_hash

fun prefetch_run ::
  "prefetch_op list \<Rightarrow> speculative_prefetcher \<Rightarrow> bytes option list \<times> speculative_prefetcher" where
  "prefetch_run [] pf = ([], pf)"
| "prefetch_run (Trigger ps # os) pf = prefetch_run os (trigger pf ps)"
| "prefetch_run (Consume sid h # os) pf =
     (let (pf', r) = consume pf sid h; (rs, pf'') = prefetch_run os pf' in (r # rs, pf''))"

text \<open>
  A call is prefetched when, since it was last consumed, a prediction of it came whose confidence
  was not below the threshold.  The past is given latest first.
\<close>

fun prefetched :: "f32 \<Rightarrow> prefetch_op list \<Rightarrow> syscall_id \<Rightarrow> args_hash \<Rightarrow> bool" where
  "prefetched t [] sid h = False"
| "prefetched t (Trigger ps # past) sid h =
     ((\<exists>(sid', h', c) \<in> set ps. sid' = sid \<and> h' = h \<and> \<not> c < t) \<or> prefetched t past sid h)"
| "prefetched t (Consume sid' h' # past) sid h =
     (\<not> (sid' = sid \<and> h' = h) \<and> prefetched t past sid h)"

fun prefetch_answers :: "f32 \<Rightarrow> prefetch_op list \<Rightarrow> prefetch_op list \<Rightarrow> bytes option list" where
  "prefetch_answers t past [] = []"
| "prefetch_answers t past (Trigger ps # os) = prefetch_answers t (Trigger ps # past) os"
| "prefetch_answers t past (Consume sid h # os) =
     (if prefetched t past sid h then Some (simulate_fetch sid) else None)
     # prefetch_answers t (Consume sid h # past) os"

text \<open>The invariant: the buffer holds the prefetched calls, ready, with their results.\<close>

definition ready_entry :: "syscall_id \<Rightarrow> args_hash \<Rightarrow> prefetch_entry" where
  "ready_entry sid h = \<lparr>pe_syscall_id = sid, pe_args_hash = h, pe_result = simulate_fetch sid, pe_is_ready = True\<rparr>"

definition buffered :: "(syscall_id \<Rightarrow> args_hash \<Rightarrow> bool) \<Rightarrow> speculative_prefetcher \<Rightarrow> bool" where
  "buffered P pf \<longleftrightarrow> (\<forall>sid h. fmlookup (sp_buffer pf) (sid, h) = (if P sid h then Some (ready_entry sid h) else None))"

lemma buffered_trigger_one:
  assumes "buffered P pf"
  shows "buffered (\<lambda>sid h. sid = s \<and> h = a \<and> \<not> c < sp_confidence_threshold pf \<or> P sid h) (trigger_one pf (s, a, c))"
  using assms by (auto simp: buffered_def ready_entry_def Let_def)

lemma trigger_one_fields [simp]:
  "sp_confidence_threshold (trigger_one pf x) = sp_confidence_threshold pf"
  "sp_hits (trigger_one pf x) = sp_hits pf" "sp_misses (trigger_one pf x) = sp_misses pf"
  by (cases x; simp add: Let_def)+

lemma buffered_trigger:
  "buffered P pf \<Longrightarrow>
   buffered (\<lambda>sid h. (\<exists>(sid', h', c) \<in> set ps. sid' = sid \<and> h' = h \<and> \<not> c < sp_confidence_threshold pf) \<or> P sid h)
     (trigger pf ps) \<and>
   sp_confidence_threshold (trigger pf ps) = sp_confidence_threshold pf \<and>
   sp_hits (trigger pf ps) = sp_hits pf \<and> sp_misses (trigger pf ps) = sp_misses pf"
proof (induction ps arbitrary: P pf)
  case Nil
  then show ?case by (simp add: trigger_def)
next
  case (Cons x ps)
  obtain s a c where x: "x = (s, a, c)" by (cases x)
  have eq: "(\<lambda>sid h. (\<exists>(sid', h', c') \<in> set ps. sid' = sid \<and> h' = h \<and> \<not> c' < sp_confidence_threshold pf) \<or>
        (sid = s \<and> h = a \<and> \<not> c < sp_confidence_threshold pf \<or> P sid h)) =
      (\<lambda>sid h. (\<exists>(sid', h', c') \<in> set (x # ps). sid' = sid \<and> h' = h \<and> \<not> c' < sp_confidence_threshold pf) \<or> P sid h)"
    by (intro ext) (auto simp: x)
  show ?case
    using Cons.IH [OF buffered_trigger_one [OF Cons.prems, of s a c]]
    unfolding eq [symmetric] by (simp add: trigger_def x del: trigger_one.simps)
qed

lemma prefetch_run_answers:
  assumes "buffered (prefetched t past) pf" "sp_confidence_threshold pf = t" "sp_misses pf = 0"
  shows "fst (prefetch_run os pf) = prefetch_answers t past os \<and>
    buffered (prefetched t (rev os @ past)) (snd (prefetch_run os pf)) \<and>
    sp_misses (snd (prefetch_run os pf)) = 0 \<and>
    sp_hits (snd (prefetch_run os pf)) =
      sp_hits pf + of_nat (length (filter (\<lambda>a. a \<noteq> None) (prefetch_answers t past os)))"
  using assms
proof (induction os arbitrary: past pf)
  case Nil
  then show ?case by simp
next
  case (Cons a os)
  show ?case
  proof (cases a)
    case (Trigger ps)
    have "buffered (prefetched t (Trigger ps # past)) (trigger pf ps)"
      using buffered_trigger [OF Cons.prems(1), of ps] Cons.prems(2) by (simp add: buffered_def)
    then show ?thesis
      using Cons.IH [of "Trigger ps # past" "trigger pf ps"] buffered_trigger [OF Cons.prems(1), of ps] Cons.prems
      by (simp add: Trigger)
  next
    case (Consume sid h)
    let ?pf = "fst (consume pf sid h)"
    have look: "fmlookup (sp_buffer pf) (sid, h) =
        (if prefetched t past sid h then Some (ready_entry sid h) else None)"
      using Cons.prems(1) by (simp add: buffered_def)
    have ans: "snd (consume pf sid h) = (if prefetched t past sid h then Some (simulate_fetch sid) else None)"
      "sp_hits ?pf = sp_hits pf + (if prefetched t past sid h then 1 else 0)"
      "sp_misses ?pf = 0" "sp_confidence_threshold ?pf = t"
      using look Cons.prems(2,3) by (simp_all add: consume_def Let_def ready_entry_def)
    have "buffered (prefetched t (Consume sid h # past)) ?pf"
      using Cons.prems(1) look by (auto simp: buffered_def consume_def Let_def ready_entry_def)
    from Cons.IH [OF this ans(4,3)] ans show ?thesis
      by (auto simp: Consume split_def Let_def)
  qed
qed

section \<open>Properties\<close>

text \<open>
  C24.  The prefetcher, for every sequence of operations from a new one: \<open>consume\<close> returns a result
  exactly when a prediction of that call, with a confidence not below the threshold, came since the
  call was last consumed; so a result is handed out at most once per prediction.  The hit counter is
  the number of results handed out.  The miss counter stays 0, though calls that were not prefetched
  are answered with nothing: every buffered entry is ready.
\<close>

theorem prefetcher_correct:
  "fst (prefetch_run os (prefetcher_new t)) = prefetch_answers t [] os \<and>
   prefetcher_stats (snd (prefetch_run os (prefetcher_new t))) =
     (of_nat (length (filter (\<lambda>a. a \<noteq> None) (prefetch_answers t [] os))), 0)"
proof -
  have "buffered (prefetched t []) (prefetcher_new t)"
    by (simp add: buffered_def prefetcher_new_def)
  from prefetch_run_answers [OF this] show ?thesis
    by (simp add: prefetcher_new_def prefetcher_stats_def)
qed

end
