(* ===== verification/PrefetcherConcurrent.thy ===== *)
theory PrefetcherConcurrent
  imports Prefetcher
begin

text \<open>
  The speculative prefetcher (\<open>src/optimizer/src/prefetcher.rs\<close>) shared by several threads.
  \<open>trigger\<close> takes the read lock to look for the key, releases it, and takes the write lock to
  insert, so another thread may insert or consume the key between the two; \<open>consume\<close> removes the
  entry under the write lock and counts afterwards.  A step of \<open>prefetch_step\<close> is one critical
  section, one atomic increment, or one step of a thread on its own.

  Ghosts: the history has each prediction and each consumption, with its thread, in the order in
  which they took effect; a thread records what it was asked to do and what it returned.
\<close>

section \<open>Threads and state\<close>

type_synonym speculation = "syscall_id \<times> args_hash \<times> f32"

datatype prefetch_pc =
    FIdle
  | FLoop "speculation list"                                 \<comment> \<open>at the head of the loop of \<open>trigger\<close>\<close>
  | FAbsent syscall_id args_hash f32 "speculation list"      \<comment> \<open>key not found: about to insert\<close>
  | FConsume syscall_id args_hash                           \<comment> \<open>about to remove\<close>
  | FRemoved prefetch_entry                                 \<comment> \<open>removed: about to count\<close>

record prefetch_thread =
  pt_pc :: prefetch_pc
  pt_called :: "prefetch_op list"
  pt_returned :: "bytes option list"

record prefetch_sys =
  fc_prefetcher :: speculative_prefetcher
  fc_threads :: "prefetch_thread list"
  fc_history :: "(nat \<times> prefetch_op) list"

definition prefetch_init :: "f32 \<Rightarrow> nat \<Rightarrow> prefetch_sys" where
  "prefetch_init t n = \<lparr>fc_prefetcher = prefetcher_new t,
     fc_threads = replicate n \<lparr>pt_pc = FIdle, pt_called = [], pt_returned = []\<rparr>, fc_history = []\<rparr>"

definition set_thread :: "nat \<Rightarrow> prefetch_thread \<Rightarrow> prefetch_sys \<Rightarrow> prefetch_sys" where
  "set_thread i th s = s\<lparr>fc_threads := (fc_threads s)[i := th]\<rparr>"

definition effect :: "nat \<Rightarrow> prefetch_op \<Rightarrow> prefetch_sys \<Rightarrow> prefetch_sys" where
  "effect i a s = s\<lparr>fc_history := fc_history s @ [(i, a)]\<rparr>"

definition runs :: "prefetch_sys \<Rightarrow> nat \<Rightarrow> prefetch_thread \<Rightarrow> bool" where
  "runs s i th \<longleftrightarrow> i < length (fc_threads s) \<and> fc_threads s ! i = th"

inductive prefetch_step :: "prefetch_sys \<Rightarrow> prefetch_sys \<Rightarrow> bool" where
  call_trigger:
    "runs s i th \<Longrightarrow> pt_pc th = FIdle \<Longrightarrow>
     prefetch_step s (set_thread i (th\<lparr>pt_pc := FLoop ps, pt_called := pt_called th @ map (\<lambda>x. Trigger [x]) ps\<rparr>) s)"
| loop_end:
    "runs s i th \<Longrightarrow> pt_pc th = FLoop [] \<Longrightarrow> prefetch_step s (set_thread i (th\<lparr>pt_pc := FIdle\<rparr>) s)"
| low_confidence:
    "runs s i th \<Longrightarrow> pt_pc th = FLoop ((sid, h, c) # ps) \<Longrightarrow> c < sp_confidence_threshold (fc_prefetcher s) \<Longrightarrow>
     prefetch_step s (effect i (Trigger [(sid, h, c)]) (set_thread i (th\<lparr>pt_pc := FLoop ps\<rparr>) s))"
| already_in_flight:
    "runs s i th \<Longrightarrow> pt_pc th = FLoop ((sid, h, c) # ps) \<Longrightarrow> \<not> c < sp_confidence_threshold (fc_prefetcher s) \<Longrightarrow>
     fmlookup (sp_buffer (fc_prefetcher s)) (sid, h) \<noteq> None \<Longrightarrow>
     prefetch_step s (effect i (Trigger [(sid, h, c)]) (set_thread i (th\<lparr>pt_pc := FLoop ps\<rparr>) s))"
| key_absent:
    "runs s i th \<Longrightarrow> pt_pc th = FLoop ((sid, h, c) # ps) \<Longrightarrow> \<not> c < sp_confidence_threshold (fc_prefetcher s) \<Longrightarrow>
     fmlookup (sp_buffer (fc_prefetcher s)) (sid, h) = None \<Longrightarrow>
     prefetch_step s (set_thread i (th\<lparr>pt_pc := FAbsent sid h c ps\<rparr>) s)"
| insert_entry:
    "runs s i th \<Longrightarrow> pt_pc th = FAbsent sid h c ps \<Longrightarrow> pf = fc_prefetcher s \<Longrightarrow>
     entry = \<lparr>pe_syscall_id = sid, pe_args_hash = h, pe_result = simulate_fetch sid, pe_is_ready = True\<rparr> \<Longrightarrow>
     prefetch_step s (effect i (Trigger [(sid, h, c)]) (set_thread i (th\<lparr>pt_pc := FLoop ps\<rparr>)
       (s\<lparr>fc_prefetcher := pf\<lparr>sp_buffer := fmupd (sid, h) entry (sp_buffer pf)\<rparr>\<rparr>)))"
| call_consume:
    "runs s i th \<Longrightarrow> pt_pc th = FIdle \<Longrightarrow>
     prefetch_step s (set_thread i (th\<lparr>pt_pc := FConsume sid h, pt_called := pt_called th @ [Consume sid h]\<rparr>) s)"
| remove_nothing:
    "runs s i th \<Longrightarrow> pt_pc th = FConsume sid h \<Longrightarrow> fmlookup (sp_buffer (fc_prefetcher s)) (sid, h) = None \<Longrightarrow>
     prefetch_step s (effect i (Consume sid h)
       (set_thread i (th\<lparr>pt_pc := FIdle, pt_returned := pt_returned th @ [None]\<rparr>) s))"
| remove_entry:
    "runs s i th \<Longrightarrow> pt_pc th = FConsume sid h \<Longrightarrow> pf = fc_prefetcher s \<Longrightarrow>
     fmlookup (sp_buffer pf) (sid, h) = Some entry \<Longrightarrow>
     prefetch_step s (effect i (Consume sid h) (set_thread i (th\<lparr>pt_pc := FRemoved entry\<rparr>)
       (s\<lparr>fc_prefetcher := pf\<lparr>sp_buffer := fmdrop (sid, h) (sp_buffer pf)\<rparr>\<rparr>)))"
| count_hit:
    "runs s i th \<Longrightarrow> pt_pc th = FRemoved entry \<Longrightarrow> pe_is_ready entry \<Longrightarrow> pf = fc_prefetcher s \<Longrightarrow>
     prefetch_step s (set_thread i (th\<lparr>pt_pc := FIdle, pt_returned := pt_returned th @ [Some (pe_result entry)]\<rparr>)
       (s\<lparr>fc_prefetcher := pf\<lparr>sp_hits := sp_hits pf + 1\<rparr>\<rparr>))"
| count_miss:
    "runs s i th \<Longrightarrow> pt_pc th = FRemoved entry \<Longrightarrow> \<not> pe_is_ready entry \<Longrightarrow> pf = fc_prefetcher s \<Longrightarrow>
     prefetch_step s (set_thread i (th\<lparr>pt_pc := FIdle, pt_returned := pt_returned th @ [None]\<rparr>)
       (s\<lparr>fc_prefetcher := pf\<lparr>sp_misses := sp_misses pf + 1\<rparr>\<rparr>))"

inductive prefetch_reachable :: "f32 \<Rightarrow> nat \<Rightarrow> prefetch_sys \<Rightarrow> bool" for t n where
  prefetch_start: "prefetch_reachable t n (prefetch_init t n)"
| prefetch_move: "prefetch_reachable t n s \<Longrightarrow> prefetch_step s s' \<Longrightarrow> prefetch_reachable t n s'"

section \<open>What the history says\<close>

text \<open>The operations of one thread, and the answers it gets when the history is run by one thread.\<close>

definition ops_of :: "nat \<Rightarrow> (nat \<times> prefetch_op) list \<Rightarrow> prefetch_op list" where
  "ops_of i hist = map snd (filter (\<lambda>x. fst x = i) hist)"

fun answers_of :: "nat \<Rightarrow> (nat \<times> prefetch_op) list \<Rightarrow> speculative_prefetcher \<Rightarrow> bytes option list" where
  "answers_of i [] pf = []"
| "answers_of i ((j, Trigger ps) # hist) pf = answers_of i hist (trigger pf ps)"
| "answers_of i ((j, Consume sid h) # hist) pf =
     (let (pf', r) = consume pf sid h in (if j = i then [r] else []) @ answers_of i hist pf')"

text \<open>What a thread has been asked and has not done yet, and the answer it is about to return.\<close>

fun to_do :: "prefetch_pc \<Rightarrow> prefetch_op list" where
  "to_do (FLoop ps) = map (\<lambda>x. Trigger [x]) ps"
| "to_do (FAbsent sid h c ps) = Trigger [(sid, h, c)] # map (\<lambda>x. Trigger [x]) ps"
| "to_do (FConsume sid h) = [Consume sid h]"
| "to_do _ = []"

fun to_return :: "prefetch_pc \<Rightarrow> bytes option list" where
  "to_return (FRemoved entry) = [if pe_is_ready entry then Some (pe_result entry) else None]"
| "to_return _ = []"

fun counting :: "bool \<Rightarrow> prefetch_pc \<Rightarrow> bool" where
  "counting ready (FRemoved entry) = (pe_is_ready entry = ready)"
| "counting ready _ = False"

fun confident :: "f32 \<Rightarrow> prefetch_pc \<Rightarrow> bool" where
  "confident t (FAbsent sid h c ps) = (\<not> c < t)"
| "confident t _ = True"

definition counts_due :: "bool \<Rightarrow> prefetch_sys \<Rightarrow> nat" where
  "counts_due ready s = length (filter (\<lambda>th. counting ready (pt_pc th)) (fc_threads s))"

text \<open>The prefetcher once the threads that removed an entry have counted it.\<close>

definition settled :: "prefetch_sys \<Rightarrow> speculative_prefetcher" where
  "settled s = (fc_prefetcher s)
     \<lparr>sp_hits := sp_hits (fc_prefetcher s) + of_nat (counts_due True s),
      sp_misses := sp_misses (fc_prefetcher s) + of_nat (counts_due False s)\<rparr>"

definition after :: "f32 \<Rightarrow> (nat \<times> prefetch_op) list \<Rightarrow> speculative_prefetcher" where
  "after t hist = snd (prefetch_run (map snd hist) (prefetcher_new t))"

lemma prefetch_run_append:
  "prefetch_run (os @ os') pf =
     (fst (prefetch_run os pf) @ fst (prefetch_run os' (snd (prefetch_run os pf))),
      snd (prefetch_run os' (snd (prefetch_run os pf))))"
proof (induction os arbitrary: pf)
  case (Cons a os)
  then show ?case by (cases a) (simp_all add: split_def Let_def)
qed simp

lemma after_Trigger [simp]: "after t (hist @ [(i, Trigger [x])]) = trigger_one (after t hist) x"
  by (simp add: after_def prefetch_run_append trigger_def)

lemma after_Consume [simp]: "after t (hist @ [(i, Consume sid h)]) = fst (consume (after t hist) sid h)"
  by (simp add: after_def prefetch_run_append split_def Let_def)

lemma answers_of_append:
  "answers_of i (hist @ hist') pf =
     answers_of i hist pf @ answers_of i hist' (snd (prefetch_run (map snd hist) pf))"
proof (induction hist arbitrary: pf)
  case (Cons x hist)
  obtain j a where x: "x = (j, a)" by (cases x)
  show ?case using Cons.IH by (cases a) (simp_all add: x split_def Let_def)
qed simp

lemma answers_of_other: "\<forall>x \<in> set hist. fst x \<noteq> i \<Longrightarrow> answers_of i hist pf = []"
proof (induction hist arbitrary: pf)
  case (Cons x hist)
  obtain j a where x: "x = (j, a)" by (cases x)
  show ?case using Cons by (cases a) (simp_all add: x split_def Let_def)
qed simp

lemma ops_of_append [simp]: "ops_of i (hist @ hist') = ops_of i hist @ ops_of i hist'"
  by (simp add: ops_of_def)

lemma ops_of_other: "\<forall>x \<in> set hist. fst x \<noteq> i \<Longrightarrow> ops_of i hist = []"
  by (auto simp: ops_of_def filter_empty_conv)

lemma ops_of_self [simp]: "ops_of i [(i, a)] = [a]" "ops_of i [] = []"
  by (simp_all add: ops_of_def)

text \<open>The buffer after any history holds ready entries with their results.\<close>

lemma consume_threshold [simp]: "sp_confidence_threshold (fst (consume pf sid h)) = sp_confidence_threshold pf"
  by (simp add: consume_def Let_def split: option.splits)

lemma trigger_threshold [simp]: "sp_confidence_threshold (trigger pf ps) = sp_confidence_threshold pf"
  unfolding trigger_def by (induction ps arbitrary: pf) simp_all

lemma run_threshold: "sp_confidence_threshold (snd (prefetch_run os pf)) = sp_confidence_threshold pf"
proof (induction os arbitrary: pf)
  case (Cons a os)
  then show ?case by (cases a) (simp_all add: split_def Let_def)
qed simp

lemma after_threshold [simp]: "sp_confidence_threshold (after t hist) = t"
  by (simp add: after_def run_threshold prefetcher_new_def)

lemma after_ready:
  assumes "fmlookup (sp_buffer (after t hist)) (sid, h) = Some entry"
  shows "entry = ready_entry sid h"
proof -
  have "buffered (prefetched t []) (prefetcher_new t)" by (simp add: buffered_def prefetcher_new_def)
  from prefetch_run_answers [OF this] have "buffered (prefetched t (rev (map snd hist))) (after t hist)"
    by (simp add: after_def prefetcher_new_def)
  with assms show ?thesis unfolding buffered_def by (metis option.distinct(1) option.inject)
qed

section \<open>The invariant\<close>

definition thread_ok :: "f32 \<Rightarrow> (nat \<times> prefetch_op) list \<Rightarrow> nat \<Rightarrow> prefetch_thread \<Rightarrow> bool" where
  "thread_ok t hist i th \<longleftrightarrow>
     pt_called th = ops_of i hist @ to_do (pt_pc th) \<and>
     answers_of i hist (prefetcher_new t) = pt_returned th @ to_return (pt_pc th)"

definition linearized :: "f32 \<Rightarrow> prefetch_sys \<Rightarrow> bool" where
  "linearized t s \<longleftrightarrow> after t (fc_history s) = settled s \<and>
     (\<forall>i th. runs s i th \<longrightarrow> thread_ok t (fc_history s) i th \<and> confident t (pt_pc th))"

lemma linearized_move:
  assumes "linearized t s" "runs s i th"
    and "fc_threads s' = (fc_threads s)[i := th']" "fc_history s' = fc_history s @ hist" "\<forall>x \<in> set hist. fst x = i"
    and "thread_ok t (fc_history s') i th'" "confident t (pt_pc th')" "after t (fc_history s') = settled s'"
  shows "linearized t s'"
proof -
  have "thread_ok t (fc_history s') j th0 \<and> confident t (pt_pc th0)" if j: "runs s' j th0" for j th0
  proof (cases "j = i")
    case True
    then show ?thesis using j assms(3,6,7) by (auto simp: runs_def)
  next
    case False
    then have "runs s j th0" using j assms(3) by (simp add: runs_def)
    moreover have "\<forall>x \<in> set hist. fst x \<noteq> j" using assms(5) False by auto
    ultimately show ?thesis
      using assms(1) by (simp add: linearized_def thread_ok_def assms(4) answers_of_append answers_of_other ops_of_other)
  qed
  then show ?thesis using assms(8) by (simp add: linearized_def)
qed

lemma set_thread_fields [simp]:
  "fc_prefetcher (set_thread i th s) = fc_prefetcher s" "fc_history (set_thread i th s) = fc_history s"
  "fc_threads (set_thread i th s) = (fc_threads s)[i := th]"
  by (simp_all add: set_thread_def)

lemma effect_fields [simp]:
  "fc_prefetcher (effect i a s) = fc_prefetcher s" "fc_history (effect i a s) = fc_history s @ [(i, a)]"
  "fc_threads (effect i a s) = fc_threads s"
  by (simp_all add: effect_def)

lemma settled_fields [simp]:
  "sp_buffer (settled s) = sp_buffer (fc_prefetcher s)"
  "sp_confidence_threshold (settled s) = sp_confidence_threshold (fc_prefetcher s)"
  by (simp_all add: settled_def)

lemma answers_of_snoc [simp]:
  "answers_of i (hist @ [(i, Trigger ps)]) (prefetcher_new t) = answers_of i hist (prefetcher_new t)"
  "answers_of i (hist @ [(i, Consume sid h)]) (prefetcher_new t) =
     answers_of i hist (prefetcher_new t) @ [snd (consume (after t hist) sid h)]"
  by (simp_all add: answers_of_append after_def split_def Let_def)

lemma linearized_init: "linearized t (prefetch_init t n)"
  by (auto simp: linearized_def prefetch_init_def after_def settled_def counts_due_def runs_def
      thread_ok_def ops_of_def prefetcher_new_def filter_empty_conv in_set_conv_nth)

text \<open>
  A step sets one thread, and perhaps takes effect on the prefetcher.  What remains to show for it
  concerns that thread and the counts only.
\<close>

definition due :: "bool \<Rightarrow> prefetch_thread \<Rightarrow> u64" where
  "due r th = of_bool (counting r (pt_pc th))"

lemma counts_due_set:
  assumes "runs s i th" "fc_threads s1 = fc_threads s"
  shows "(of_nat (counts_due r (set_thread i th' s1)) :: u64) = of_nat (counts_due r s) + due r th' - due r th"
proof -
  have "counts_due r (set_thread i th' s1) + of_bool (counting r (pt_pc th)) =
      counts_due r s + of_bool (counting r (pt_pc th'))"
    using length_filter_update [of i "fc_threads s" "\<lambda>th. counting r (pt_pc th)" th'] assms
    by (auto simp: counts_due_def runs_def of_bool_def set_thread_def)
  from arg_cong [OF this, of "of_nat :: nat \<Rightarrow> u64"] show ?thesis
    by (simp add: due_def eq_diff_eq)
qed

definition settled_from :: "speculative_prefetcher \<Rightarrow> prefetch_thread \<Rightarrow> prefetch_thread \<Rightarrow> prefetch_sys \<Rightarrow> speculative_prefetcher" where
  "settled_from pf th th' s =
     pf\<lparr>sp_hits := sp_hits pf + (of_nat (counts_due True s) + due True th' - due True th),
        sp_misses := sp_misses pf + (of_nat (counts_due False s) + due False th' - due False th)\<rparr>"

lemma settled_set:
  assumes "runs s i th" "fc_threads s1 = fc_threads s"
  shows "settled (set_thread i th' s1) = settled_from (fc_prefetcher s1) th th' s"
    and "settled (effect i a (set_thread i th' s1)) = settled_from (fc_prefetcher s1) th th' s"
proof -
  have "counts_due r (effect i a s') = counts_due r s'" for r s' by (simp add: counts_due_def)
  then show "settled (set_thread i th' s1) = settled_from (fc_prefetcher s1) th th' s"
    "settled (effect i a (set_thread i th' s1)) = settled_from (fc_prefetcher s1) th th' s"
    using counts_due_set [OF assms] by (simp_all add: settled_def settled_from_def)
qed

lemma linearized_set_thread:
  assumes "linearized t s" "runs s i th" "fc_threads s1 = fc_threads s" "fc_history s1 = fc_history s"
    and "thread_ok t (fc_history s) i th' \<and> confident t (pt_pc th')"
    and "settled s = settled_from (fc_prefetcher s1) th th' s"
  shows "linearized t (set_thread i th' s1)"
  by (rule linearized_move [OF assms(1,2), where th' = th' and hist = "[]"])
    (use assms settled_set(1) [OF assms(2,3), of th'] in \<open>simp_all add: linearized_def\<close>)

lemma linearized_effect:
  assumes "linearized t s" "runs s i th" "fc_threads s1 = fc_threads s" "fc_history s1 = fc_history s"
    and "thread_ok t (fc_history s @ [(i, a)]) i th' \<and> confident t (pt_pc th')"
    and "after t (fc_history s @ [(i, a)]) = settled_from (fc_prefetcher s1) th th' s"
  shows "linearized t (effect i a (set_thread i th' s1))"
  by (rule linearized_move [OF assms(1,2), where th' = th' and hist = "[(i, a)]"])
    (use assms settled_set(2) [OF assms(2,3), of a th'] in simp_all)

lemma linearized_step:
  assumes "prefetch_step s s'" "linearized t s"
  shows "linearized t s'"
proof -
  note inv = assms(2)
  have now: "after t (fc_history s) = settled s" using inv by (simp add: linearized_def)
  have ok: "thread_ok t (fc_history s) i th \<and> confident t (pt_pc th)" if "runs s i th" for i th
    using inv that by (simp add: linearized_def)
  have thr: "sp_confidence_threshold (fc_prefetcher s) = t"
    using now after_threshold [of t "fc_history s"] by simp
  have ready: "entry = ready_entry sid h" if "fmlookup (sp_buffer (fc_prefetcher s)) (sid, h) = Some entry" for entry sid h
    using after_ready [of t "fc_history s" sid h entry] that now by simp
  note unfold = thread_ok_def settled_def settled_from_def due_def now thr
  from assms(1) show ?thesis
  proof (cases rule: prefetch_step.cases)
    case (call_trigger i th ps)
    show ?thesis unfolding call_trigger(1) by (rule linearized_set_thread [OF inv call_trigger(2)])
      (use call_trigger(3-) ok [OF call_trigger(2)] in \<open>simp_all add: unfold\<close>)
  next
    case (loop_end i th)
    show ?thesis unfolding loop_end(1) by (rule linearized_set_thread [OF inv loop_end(2)])
      (use loop_end(3-) ok [OF loop_end(2)] in \<open>simp_all add: unfold\<close>)
  next
    case (low_confidence i th sid h c ps)
    show ?thesis unfolding low_confidence(1) by (rule linearized_effect [OF inv low_confidence(2)])
      (use low_confidence(3-) ok [OF low_confidence(2)] in \<open>simp_all add: unfold\<close>)
  next
    case (already_in_flight i th sid h c ps)
    show ?thesis unfolding already_in_flight(1) by (rule linearized_effect [OF inv already_in_flight(2)])
      (use already_in_flight(3-) ok [OF already_in_flight(2)] in \<open>simp_all add: unfold\<close>)
  next
    case (key_absent i th sid h c ps)
    show ?thesis unfolding key_absent(1) by (rule linearized_set_thread [OF inv key_absent(2)])
      (use key_absent(3-) ok [OF key_absent(2)] in \<open>simp_all add: unfold\<close>)
  next
    case (insert_entry i th sid h c ps pf entry)
    have same: "fmupd (sid, h) entry (sp_buffer pf) = sp_buffer pf" if "fmlookup (sp_buffer pf) (sid, h) \<noteq> None"
      using that ready insert_entry(4,5) by (intro fmap_ext) (auto simp: ready_entry_def)
    show ?thesis unfolding insert_entry(1) by (rule linearized_effect [OF inv insert_entry(2)])
      (use insert_entry(3-) ok [OF insert_entry(2)] same in \<open>auto simp: unfold Let_def\<close>)
  next
    case (call_consume i th sid h)
    show ?thesis unfolding call_consume(1) by (rule linearized_set_thread [OF inv call_consume(2)])
      (use call_consume(3-) ok [OF call_consume(2)] in \<open>simp_all add: unfold\<close>)
  next
    case (remove_nothing i th sid h)
    show ?thesis unfolding remove_nothing(1) by (rule linearized_effect [OF inv remove_nothing(2)])
      (use remove_nothing(3-) ok [OF remove_nothing(2)] in \<open>simp_all add: unfold consume_def\<close>)
  next
    case (remove_entry i th sid h pf entry)
    show ?thesis unfolding remove_entry(1) by (rule linearized_effect [OF inv remove_entry(2)])
      (use remove_entry(3-) ok [OF remove_entry(2)] in \<open>auto simp: unfold consume_def Let_def\<close>)
  next
    case (count_hit i th entry pf)
    show ?thesis unfolding count_hit(1) by (rule linearized_set_thread [OF inv count_hit(2)])
      (use count_hit(3-) ok [OF count_hit(2)] in \<open>simp_all add: unfold\<close>)
  next
    case (count_miss i th entry pf)
    show ?thesis unfolding count_miss(1) by (rule linearized_set_thread [OF inv count_miss(2)])
      (use count_miss(3-) ok [OF count_miss(2)] in \<open>simp_all add: unfold\<close>)
  qed
qed

lemma linearized_reachable: "prefetch_reachable t n s \<Longrightarrow> linearized t s"
  by (induction rule: prefetch_reachable.induct) (auto intro: linearized_init linearized_step)

section \<open>Properties\<close>

text \<open>
  C25.  The prefetcher shared by any number of threads is linearizable.  In every reachable state there
  is one order of the predictions and consumptions that have taken effect, such that: each thread's
  part of it is what the thread was asked, less what is still to be done; the answers the thread has
  returned, and the one it is about to return, are those of a prefetcher run by one thread in that
  order; and the state is the state of that prefetcher, but for the counts still due.  So two threads
  that both find a key absent and both insert it do no harm, and no entry is handed out twice.
\<close>

theorem concurrent_prefetcher_linearizable:
  assumes "prefetch_reachable t n s" and "i < length (fc_threads s)"
  shows "pt_called (fc_threads s ! i) = ops_of i (fc_history s) @ to_do (pt_pc (fc_threads s ! i)) \<and>
    answers_of i (fc_history s) (prefetcher_new t) =
      pt_returned (fc_threads s ! i) @ to_return (pt_pc (fc_threads s ! i)) \<and>
    settled s = snd (prefetch_run (map snd (fc_history s)) (prefetcher_new t))"
  using linearized_reachable [OF assms(1)] assms(2)
  by (simp add: linearized_def thread_ok_def runs_def after_def)

text \<open>
  A run with the race: both threads find the key absent before either inserts it; one of them then
  consumes the entry and is about to count the hit.
\<close>

definition race_state ::
  "(prefetch_key, prefetch_entry) fmap \<Rightarrow> prefetch_thread list \<Rightarrow> (nat \<times> prefetch_op) list \<Rightarrow> prefetch_sys" where
  "race_state m ths hist = \<lparr>fc_prefetcher = (prefetcher_new (Fin 0))\<lparr>sp_buffer := m\<rparr>,
     fc_threads = ths, fc_history = hist\<rparr>"

lemmas race_state_eval = less_fp_def race_state_def runs_def set_thread_def effect_def prefetcher_new_def

theorem concurrent_prefetcher_linearizable_witness:
  "\<exists>s. prefetch_reachable (Fin 0) 2 s \<and> map fst (fc_history s) = [0, 1, 0] \<and>
     to_return (pt_pc (fc_threads s ! 0)) = [Some (replicate 32 0)] \<and>
     answers_of 0 (fc_history s) (prefetcher_new (Fin 0)) = [Some (replicate 32 0)] \<and>
     settled s = snd (prefetch_run (map snd (fc_history s)) (prefetcher_new (Fin 0)))"
proof -
  let ?x = "(SOL_SHA256, 7, Fin 1) :: speculation" and ?k = "(SOL_SHA256, 7) :: prefetch_key"
  let ?e = "ready_entry SOL_SHA256 7"
  let ?T = "\<lambda>pc. \<lparr>pt_pc = pc, pt_called = [Trigger [?x]], pt_returned = []\<rparr>"
  let ?C = "\<lambda>pc. \<lparr>pt_pc = pc, pt_called = [Trigger [?x], Consume SOL_SHA256 7], pt_returned = []\<rparr>"
  let ?N = "\<lparr>pt_pc = FIdle, pt_called = [], pt_returned = []\<rparr>"
  let ?A = "FAbsent SOL_SHA256 7 (Fin 1) []" and ?L = "FLoop [?x]"
  let ?m = "fmupd ?k ?e fmempty" and ?h = "(0, Trigger [?x]) :: nat \<times> prefetch_op"
  let ?h1 = "(1, Trigger [?x]) :: nat \<times> prefetch_op" and ?h2 = "(0, Consume SOL_SHA256 7) :: nat \<times> prefetch_op"
  let ?s1 = "race_state fmempty [?T ?L, ?N] []" and ?s2 = "race_state fmempty [?T ?L, ?T ?L] []"
  let ?s3 = "race_state fmempty [?T ?A, ?T ?L] []" and ?s4 = "race_state fmempty [?T ?A, ?T ?A] []"
  let ?s5 = "race_state ?m [?T (FLoop []), ?T ?A] [?h]"
  let ?s6 = "race_state ?m [?T (FLoop []), ?T (FLoop [])] [?h, ?h1]"
  let ?s7 = "race_state ?m [?T FIdle, ?T (FLoop [])] [?h, ?h1]"
  let ?s8 = "race_state ?m [?C (FConsume SOL_SHA256 7), ?T (FLoop [])] [?h, ?h1]"
  let ?s9 = "race_state fmempty [?C (FRemoved ?e), ?T (FLoop [])] [?h, ?h1, ?h2]"
  have "prefetch_reachable (Fin 0) 2 (race_state fmempty [?N, ?N] [])"
    using prefetch_start [of "Fin 0" 2] by (simp add: prefetch_init_def race_state_eval numeral_2_eq_2)
  moreover have "prefetch_step (race_state fmempty [?N, ?N] []) ?s1"
    using call_trigger [of "race_state fmempty [?N, ?N] []" 0 ?N "[?x]"] by (simp add: race_state_eval)
  moreover have "prefetch_step ?s1 ?s2"
    using call_trigger [of ?s1 1 ?N "[?x]"] by (simp add: race_state_eval)
  moreover have "prefetch_step ?s2 ?s3"
    using key_absent [of ?s2 0 "?T ?L" SOL_SHA256 7 "Fin 1" "[]"] by (simp add: race_state_eval)
  moreover have "prefetch_step ?s3 ?s4"
    using key_absent [of ?s3 1 "?T ?L" SOL_SHA256 7 "Fin 1" "[]"] by (simp add: race_state_eval)
  moreover have "prefetch_step ?s4 ?s5"
    using insert_entry [of ?s4 0 "?T ?A" SOL_SHA256 7 "Fin 1" "[]"] by (simp add: race_state_eval ready_entry_def)
  moreover have "prefetch_step ?s5 ?s6"
    using insert_entry [of ?s5 1 "?T ?A" SOL_SHA256 7 "Fin 1" "[]"] by (simp add: race_state_eval ready_entry_def)
  moreover have "prefetch_step ?s6 ?s7"
    using loop_end [of ?s6 0 "?T (FLoop [])"] by (simp add: race_state_eval)
  moreover have "prefetch_step ?s7 ?s8"
    using call_consume [of ?s7 0 "?T FIdle" SOL_SHA256 7] by (simp add: race_state_eval)
  moreover have "prefetch_step ?s8 ?s9"
    using remove_entry [of ?s8 0 "?C (FConsume SOL_SHA256 7)" SOL_SHA256 7 _ ?e] by (simp add: race_state_eval fmdrop_fmupd)
  ultimately have R: "prefetch_reachable (Fin 0) 2 ?s9" by (meson prefetch_move)
  have pc: "to_return (pt_pc (fc_threads ?s9 ! 0)) = [Some (replicate 32 0)]"
    "pt_returned (fc_threads ?s9 ! 0) = []" "0 < length (fc_threads ?s9)" "map fst (fc_history ?s9) = [0, 1, 0]"
    by (simp_all add: race_state_def ready_entry_def simulate_fetch_def syscall_ids)
  show ?thesis
    by (rule exI [of _ ?s9], intro conjI)
      (rule R, rule pc, rule pc,
       rule concurrent_prefetcher_linearizable [OF R pc(3), unfolded pc append_Nil, THEN conjunct2, THEN conjunct1],
       rule concurrent_prefetcher_linearizable [OF R pc(3), THEN conjunct2, THEN conjunct2])
qed

end
