(* ===== verification/Predictor.thy ===== *)
theory Predictor
  imports Registry Floats "HOL-Library.Sublist"
begin

text \<open>
  The syscall predictor, \<open>src/ml/inference/src/predictor.rs\<close>: a table of transitions behind the
  trait \<open>SyscallPredictor\<close>, and a wrapper that reloads it.  The trait is the locale
  \<open>syscall_predictor\<close>.  \<open>powi\<close>, whose precision Rust leaves open, is an argument; instants are
  natural numbers.
\<close>

section \<open>The transition table\<close>

type_synonym prediction = "syscall_id \<times> f32"

text \<open>A row of the table, with its literals read as hundredths.\<close>

definition row :: "(syscall_id \<times> nat) list \<Rightarrow> prediction list" where
  "row = map (\<lambda>(sid, hundredths). (sid, to_fp (real hundredths / 100)))"

definition build_transition_table :: "(syscall_id, prediction list) fmap" where
  "build_transition_table =
     fmupd SOL_INVOKE_SIGNED (row
       [(SOL_GET_CLOCK_SYSVAR, 35), (SOL_SHA256, 25), (SOL_LOG, 20), (SOL_GET_RENT_SYSVAR, 15),
        (SOL_SET_RETURN_DATA, 5)])
    (fmupd SOL_GET_RENT_SYSVAR (row
       [(SOL_GET_CLOCK_SYSVAR, 30), (SOL_INVOKE_SIGNED, 30), (SOL_SHA256, 20), (SOL_LOG, 15),
        (SOL_SET_RETURN_DATA, 5)])
    (fmupd SOL_SHA256 (row
       [(SOL_SECP256K1_RECOVER, 35), (SOL_SHA256, 25), (SOL_INVOKE_SIGNED, 20), (SOL_LOG, 12),
        (SOL_KECCAK256, 8)])
    (fmupd SOL_GET_CLOCK_SYSVAR (row
       [(SOL_GET_RENT_SYSVAR, 40), (SOL_SHA256, 25), (SOL_INVOKE_SIGNED, 20), (SOL_LOG, 10),
        (SOL_KECCAK256, 5)])
     fmempty)))"

definition default_ids :: "syscall_id list" where
  "default_ids = [SOL_GET_CLOCK_SYSVAR, SOL_SHA256, SOL_LOG, SOL_GET_RENT_SYSVAR, SOL_INVOKE_SIGNED]"

definition default_distribution :: "(f32 \<Rightarrow> nat \<Rightarrow> f32) \<Rightarrow> nat \<Rightarrow> prediction list" where
  "default_distribution powif top_k =
     map (\<lambda>(i, sid). (sid, to_fp (3 / 10) * powif (to_fp (7 / 10)) i)) (List.enumerate 0 (take top_k default_ids))"

section \<open>The predictor and its wrapper\<close>

record transformer_predictor =
  tp_model_path :: string
  tp_transitions :: "(syscall_id, prediction list) fmap"

definition predictor_new :: "string \<Rightarrow> transformer_predictor" where
  "predictor_new model_path = \<lparr>tp_model_path = model_path, tp_transitions = build_transition_table\<rparr>"

definition predictor_model_path :: "transformer_predictor \<Rightarrow> string" where
  "predictor_model_path tp = tp_model_path tp"

definition predict_next ::
  "(f32 \<Rightarrow> nat \<Rightarrow> f32) \<Rightarrow> transformer_predictor \<Rightarrow> syscall_id list \<Rightarrow> pubkey \<Rightarrow> nat \<Rightarrow> prediction list" where
  "predict_next powif tp history program_id top_k =
     (let last' = (case rev history of [] \<Rightarrow> None | x # _ \<Rightarrow> Some x);
          candidates = (case last' of None \<Rightarrow> []
                        | Some sid \<Rightarrow> (case fmlookup (tp_transitions tp) sid of None \<Rightarrow> [] | Some v \<Rightarrow> v))
      in if candidates = [] then default_distribution powif top_k else take top_k candidates)"

definition reorder_safe :: "transformer_predictor \<Rightarrow> syscall_id list \<Rightarrow> bool" where
  "reorder_safe tp sequence = list_all (\<lambda>sid. sid \<le> 29) sequence"

record hot_reloadable_predictor =
  hp_inner :: transformer_predictor
  hp_model_path :: string
  hp_last_reload :: nat
  hp_reload_interval :: nat

definition hot_new :: "nat \<Rightarrow> string \<Rightarrow> nat \<Rightarrow> hot_reloadable_predictor" where
  "hot_new now model_path reload_interval =
     (let path = model_path; predictor = predictor_new path
      in \<lparr>hp_inner = predictor, hp_model_path = path, hp_last_reload = now, hp_reload_interval = reload_interval\<rparr>)"

text \<open>The clock is read for the elapsed time and again after the reload.\<close>

definition maybe_reload :: "nat \<Rightarrow> nat \<Rightarrow> hot_reloadable_predictor \<Rightarrow> hot_reloadable_predictor" where
  "maybe_reload now now' hp =
     (if hp_reload_interval hp \<le> now - hp_last_reload hp
      then (let new_predictor = predictor_new (hp_model_path hp)
            in hp\<lparr>hp_inner := new_predictor, hp_last_reload := now'\<rparr>)
      else hp)"

definition hot_predict_next ::
  "(f32 \<Rightarrow> nat \<Rightarrow> f32) \<Rightarrow> hot_reloadable_predictor \<Rightarrow> syscall_id list \<Rightarrow> pubkey \<Rightarrow> nat \<Rightarrow> prediction list" where
  "hot_predict_next powif hp history program_id top_k = predict_next powif (hp_inner hp) history program_id top_k"

definition hot_reorder_safe :: "hot_reloadable_predictor \<Rightarrow> syscall_id list \<Rightarrow> bool" where
  "hot_reorder_safe hp sequence = reorder_safe (hp_inner hp) sequence"

section \<open>The trait\<close>

text \<open>
  What the callers of a predictor rely on: at most \<open>top_k\<close> predictions, of different syscalls that
  the runtime knows, and the best ones first, in that a smaller \<open>top_k\<close> asks for a prefix;
  a sequence is safe to reorder when each of its syscalls is.
\<close>

locale syscall_predictor =
  fixes invar :: "'p \<Rightarrow> bool"
    and predict :: "'p \<Rightarrow> syscall_id list \<Rightarrow> pubkey \<Rightarrow> nat \<Rightarrow> prediction list"
    and safe :: "'p \<Rightarrow> syscall_id list \<Rightarrow> bool"
  assumes at_most: "invar p \<Longrightarrow> length (predict p history pid k) \<le> k"
    and distinct_known: "invar p \<Longrightarrow> distinct (map fst (predict p history pid k)) \<and>
          (\<forall>sid \<in> fst ` set (predict p history pid k). registry_get registry_new sid \<noteq> None)"
    and best_first: "invar p \<Longrightarrow> j \<le> k \<Longrightarrow> predict p history pid j = take j (predict p history pid k)"
    and safe_pointwise: "invar p \<Longrightarrow> safe p sequence = list_all (\<lambda>sid. safe p [sid]) sequence"
begin

lemma predict_prefix: "invar p \<Longrightarrow> j \<le> k \<Longrightarrow> prefix (predict p history pid j) (predict p history pid k)"
  using best_first [of p j k history pid] by (simp add: take_is_prefix)

lemma safe_sublist: "invar p \<Longrightarrow> safe p xs \<Longrightarrow> set ys \<subseteq> set xs \<Longrightarrow> safe p ys"
  using safe_pointwise [of p xs] safe_pointwise [of p ys] by (auto simp: list_all_iff)

lemma safe_perm: "invar p \<Longrightarrow> mset ys = mset xs \<Longrightarrow> safe p ys = safe p xs"
  using safe_sublist [of p xs ys] safe_sublist [of p ys xs] mset_eq_setD [of xs ys] by auto

end

definition predictor_invar :: "transformer_predictor \<Rightarrow> bool" where
  "predictor_invar tp \<longleftrightarrow> tp_transitions tp = build_transition_table"

definition row_ok :: "(syscall_id \<times> nat) list \<Rightarrow> bool" where
  "row_ok r \<longleftrightarrow> length r = 5 \<and> distinct (map fst r) \<and> sorted_wrt (\<lambda>a b. snd b \<le> snd a) r \<and>
     list_all (\<lambda>x. fst x \<in> fst ` set registry_table \<and> snd x \<le> 100) r"

lemma known_iff: "registry_get registry_new sid \<noteq> None \<longleftrightarrow> sid \<in> fst ` set registry_table"
  by (simp add: registry_get_def registry_lookup map_of_eq_None_iff)

lemma table_rows:
  assumes "fmlookup build_transition_table sid = Some v"
  obtains r where "v = row r" "row_ok r"
proof -
  have "row_ok [(SOL_GET_CLOCK_SYSVAR, 35), (SOL_SHA256, 25), (SOL_LOG, 20), (SOL_GET_RENT_SYSVAR, 15),
        (SOL_SET_RETURN_DATA, 5)]"
    "row_ok [(SOL_GET_CLOCK_SYSVAR, 30), (SOL_INVOKE_SIGNED, 30), (SOL_SHA256, 20), (SOL_LOG, 15),
        (SOL_SET_RETURN_DATA, 5)]"
    "row_ok [(SOL_SECP256K1_RECOVER, 35), (SOL_SHA256, 25), (SOL_INVOKE_SIGNED, 20), (SOL_LOG, 12),
        (SOL_KECCAK256, 8)]"
    "row_ok [(SOL_GET_RENT_SYSVAR, 40), (SOL_SHA256, 25), (SOL_INVOKE_SIGNED, 20), (SOL_LOG, 10),
        (SOL_KECCAK256, 5)]"
    by (simp_all add: row_ok_def registry_table_def syscall_ids)
  then show thesis
    using assms that by (auto simp: build_transition_table_def split: if_splits)
qed

lemma map_fst_row [simp]: "map fst (row r) = map fst r"
  by (simp add: row_def case_prod_beta o_def)

lemma row_facts:
  assumes "row_ok r"
  shows "length (row r) = 5" "row r \<noteq> []" "distinct (map fst (row r))" "fst ` set (row r) \<subseteq> fst ` set registry_table"
proof -
  have "fst ` set (row r) = fst ` set r" by (metis map_fst_row set_map)
  then show "fst ` set (row r) \<subseteq> fst ` set registry_table" using assms by (auto simp: row_ok_def list_all_iff)
  show "length (row r) = 5" using assms by (simp add: row_ok_def row_def)
  then show "row r \<noteq> []" by auto
qed (use assms in \<open>simp add: row_ok_def\<close>)

lemma take_enumerate: "take j (List.enumerate n xs) = List.enumerate n (take j xs)"
  by (rule nth_equalityI) (simp_all add: nth_enumerate_eq)

lemma default_facts:
  "map fst (default_distribution powif k) = take k default_ids"
  "take j (default_distribution powif k) = default_distribution powif (min j k)"
proof -
  show "map fst (default_distribution powif k) = take k default_ids"
    by (simp add: default_distribution_def case_prod_beta o_def)
  show "take j (default_distribution powif k) = default_distribution powif (min j k)"
    by (simp add: default_distribution_def take_map take_enumerate)
qed

lemma default_known: "distinct default_ids" "set default_ids \<subseteq> fst ` set registry_table" "length default_ids = 5"
  by (simp_all add: default_ids_def registry_table_def syscall_ids)

text \<open>A prediction is a prefix of a row of the table or of the default distribution.\<close>

lemma predict_cases:
  assumes "predictor_invar tp"
  obtains (table) r where "row_ok r" "\<And>k. predict_next powif tp history pid k = take k (row r)"
  | (default) "\<And>k. predict_next powif tp history pid k = default_distribution powif k"
proof -
  let ?candidates = "case (case rev history of [] \<Rightarrow> None | x # _ \<Rightarrow> Some x) of None \<Rightarrow> []
      | Some sid \<Rightarrow> (case fmlookup build_transition_table sid of None \<Rightarrow> [] | Some v \<Rightarrow> v)"
  have p: "predict_next powif tp history pid k =
      (if ?candidates = [] then default_distribution powif k else take k ?candidates)" for k
  proof -
    have eq: "tp_transitions tp = build_transition_table" using assms by (simp add: predictor_invar_def)
    show ?thesis unfolding predict_next_def Let_def eq ..
  qed
  show thesis
  proof (cases "?candidates = []")
    case True
    then show ?thesis using p by (intro default) simp
  next
    case False
    then obtain sid v where v: "fmlookup build_transition_table sid = Some v" "?candidates = v"
      by (auto split: option.splits list.splits)
    obtain r where "v = row r" "row_ok r" using table_rows [OF v(1)] .
    then show ?thesis using p v(2) False by (intro table) simp_all
  qed
qed

interpretation transformer: syscall_predictor predictor_invar "predict_next powif" reorder_safe
  for powif
proof
  fix tp history pid and j k :: nat and s
  assume inv: "predictor_invar tp"
  show "length (predict_next powif tp history pid k) \<le> k"
    using inv by (cases rule: predict_cases [where powif = powif and history = history and pid = pid])
      (simp_all add: default_distribution_def)
  show "distinct (map fst (predict_next powif tp history pid k)) \<and>
      (\<forall>sid \<in> fst ` set (predict_next powif tp history pid k). registry_get registry_new sid \<noteq> None)"
    using inv
  proof (cases rule: predict_cases [where powif = powif and history = history and pid = pid])
    case (table r)
    have "fst ` set (take k (row r)) \<subseteq> fst ` set registry_table"
      using row_facts(4) [OF table(1)] set_take_subset [of k "row r"] by blast
    moreover have "distinct (map fst (take k (row r)))"
      using row_facts(3) [OF table(1)] by (simp flip: take_map)
    ultimately show ?thesis unfolding table(2) using known_iff by blast
  next
    case default
    have "fst ` set (default_distribution powif k) = set (take k default_ids)"
      by (metis default_facts(1) set_map)
    also have "\<dots> \<subseteq> fst ` set registry_table" by (rule order_trans [OF set_take_subset default_known(2)])
    finally show ?thesis
      unfolding default default_facts using known_iff distinct_take [OF default_known(1), of k] by blast
  qed
  show "j \<le> k \<Longrightarrow> predict_next powif tp history pid j = take j (predict_next powif tp history pid k)"
    using inv by (cases rule: predict_cases [where powif = powif and history = history and pid = pid])
      (simp_all add: default_facts)
  show "reorder_safe tp s = list_all (\<lambda>sid. reorder_safe tp [sid]) s"
    by (simp add: reorder_safe_def)
qed

text \<open>The wrapper always holds a predictor as built, so it keeps the contract of the inner one.\<close>

interpretation hot: syscall_predictor "\<lambda>hp. predictor_invar (hp_inner hp)" "hot_predict_next powif" hot_reorder_safe
  for powif
  by (unfold_locales; unfold hot_predict_next_def hot_reorder_safe_def)
    (erule transformer.at_most transformer.distinct_known transformer.safe_pointwise
      | erule (1) transformer.best_first)+

section \<open>Reloads\<close>

text \<open>Calls of \<open>maybe_reload\<close>, each with its two readings of the clock.\<close>

definition reloads :: "(nat \<times> nat) list \<Rightarrow> hot_reloadable_predictor \<Rightarrow> hot_reloadable_predictor" where
  "reloads ts hp = foldl (\<lambda>hp (now, now'). maybe_reload now now' hp) hp ts"

fun reload_count :: "(nat \<times> nat) list \<Rightarrow> hot_reloadable_predictor \<Rightarrow> nat" where
  "reload_count [] hp = 0"
| "reload_count ((now, now') # ts) hp =
     (if hp_reload_interval hp \<le> now - hp_last_reload hp then 1 else 0) + reload_count ts (maybe_reload now now' hp)"

fun clock_readings :: "(nat \<times> nat) list \<Rightarrow> nat list" where
  "clock_readings [] = []"
| "clock_readings ((now, now') # ts) = now # now' # clock_readings ts"

lemma reloads_fields:
  "hp_inner hp = predictor_new (hp_model_path hp) \<Longrightarrow>
   hp_inner (reloads ts hp) = predictor_new (hp_model_path hp) \<and> hp_model_path (reloads ts hp) = hp_model_path hp \<and>
   hp_reload_interval (reloads ts hp) = hp_reload_interval hp"
  by (induction ts rule: rev_induct) (auto simp: reloads_def maybe_reload_def Let_def split_def)

lemma reloads_spaced:
  "sorted (hp_last_reload hp # clock_readings ts) \<Longrightarrow>
   hp_last_reload hp + reload_count ts hp * hp_reload_interval hp \<le> hp_last_reload (reloads ts hp) \<and>
   hp_last_reload (reloads ts hp) \<le> last (hp_last_reload hp # clock_readings ts)"
proof (induction ts arbitrary: hp)
  case (Cons t ts)
  obtain now now' where t: "t = (now, now')" by (cases t)
  let ?hp = "maybe_reload now now' hp"
  have i: "hp_reload_interval ?hp = hp_reload_interval hp" by (simp add: maybe_reload_def Let_def)
  have s: "sorted (hp_last_reload ?hp # clock_readings ts)"
    using Cons.prems by (auto simp: t maybe_reload_def Let_def)
  have l: "last (hp_last_reload ?hp # clock_readings ts) \<le> last (hp_last_reload hp # clock_readings (t # ts))"
    using Cons.prems by (auto simp: t maybe_reload_def Let_def)
  show ?case
    using Cons.IH [OF s] l Cons.prems
    by (auto simp: t i reloads_def) (auto simp: maybe_reload_def Let_def algebra_simps split: if_splits)
qed (simp add: reloads_def)

section \<open>Properties\<close>

text \<open>
  C26.  What a hot-reloadable predictor answers, after any calls of \<open>maybe_reload\<close> at any times: the
  predictions of a predictor just built, so a reload is not observable; there are \<open>min top_k 5\<close> of
  them, of different syscalls that the runtime's registry knows, and a smaller \<open>top_k\<close> gives a prefix.
\<close>

theorem hot_predictor_correct:
  "hot_predict_next powif (reloads ts (hot_new now path interval)) history pid k =
     predict_next powif (predictor_new path) history pid k \<and>
   length (predict_next powif (predictor_new path) history pid k) = min k 5 \<and>
   distinct (map fst (predict_next powif (predictor_new path) history pid k)) \<and>
   list_all (\<lambda>(sid, c). registry_get registry_new sid \<noteq> None) (predict_next powif (predictor_new path) history pid k) \<and>
   predict_next powif (predictor_new path) history pid (min j k) = take j (predict_next powif (predictor_new path) history pid k)"
proof -
  let ?tp = "predictor_new path"
  have inv: "predictor_invar ?tp" by (simp add: predictor_invar_def predictor_new_def)
  have "hot_predict_next powif (reloads ts (hot_new now path interval)) history pid k =
      predict_next powif ?tp history pid k"
    using reloads_fields [of "hot_new now path interval" ts] by (simp add: hot_predict_next_def hot_new_def Let_def)
  moreover have "length (predict_next powif ?tp history pid k) = min k 5"
    using inv
  proof (cases rule: predict_cases [where powif = powif and history = history and pid = pid])
    case (table r)
    then show ?thesis using row_facts(1) by simp
  next
    case default
    have "length (default_distribution powif k) = length (take k default_ids)"
      by (metis default_facts(1) length_map)
    then show ?thesis using default default_known(3) by simp
  qed
  moreover have "predict_next powif ?tp history pid (min j k) = take j (predict_next powif ?tp history pid k)"
    using transformer.best_first [OF inv, of "min j k" k powif history pid]
      transformer.at_most [OF inv, of powif history pid k] by (cases "j \<le> k") (simp_all add: min_def)
  moreover have "list_all (\<lambda>(sid, c). registry_get registry_new sid \<noteq> None) (predict_next powif ?tp history pid k)"
    using transformer.distinct_known [OF inv, of powif history pid k] by (force simp: list_all_iff)
  ultimately show ?thesis using transformer.distinct_known [OF inv, of powif history pid k] by blast
qed

text \<open>
  Reloads are at least the interval apart: if the clock never goes back, \<open>n\<close> reloads take at
  least \<open>n\<close> intervals, and the last one is not in the future.
\<close>

lemma reloads_rate:
  assumes "sorted (now # clock_readings ts)"
  shows "now + reload_count ts (hot_new now path interval) * interval
      \<le> hp_last_reload (reloads ts (hot_new now path interval)) \<and>
    hp_last_reload (reloads ts (hot_new now path interval)) \<le> last (now # clock_readings ts)"
  using reloads_spaced [of "hot_new now path interval" ts] assms by (simp add: hot_new_def Let_def)

lemma to_fp_less_mono: "x \<le> y \<Longrightarrow> \<not> (to_fp y :: 'p :: len fp) < to_fp x"
  using rnd_mono [of x y "TYPE('p)"] by (auto simp: to_fp_def Let_def less_fp_def)

lemma to_fp_1_f32: "(to_fp 1 :: f32) = Fin 1"
  using to_fp_dyadic [of 1 0, where 'p = 24] by simp

text \<open>
  When the last syscall of the history has a row, the predictions come with confidences
  between 0 and 1, best first: no later prediction has a greater confidence than an earlier one.
\<close>

lemma predictions_ranked:
  assumes "history \<noteq> []" and "fmlookup build_transition_table (last history) \<noteq> None"
  shows "sorted_wrt (\<lambda>a b. \<not> snd a < snd b) (predict_next powif (predictor_new path) history pid k) \<and>
    (\<forall>x \<in> set (predict_next powif (predictor_new path) history pid k). fp_in (snd x) 0 1)"
proof -
  obtain v where v: "fmlookup build_transition_table (last history) = Some v" using assms(2) by auto
  obtain r where r: "v = row r" "row_ok r" using table_rows [OF v] .
  have p: "predict_next powif (predictor_new path) history pid k = take k (row r)"
    using v r row_facts(2) [OF r(2)] assms(1) by (simp add: predict_next_def predictor_new_def case_last)
  have "sorted_wrt (\<lambda>a b. \<not> snd a < snd b) (row r)"
    using r(2) by (auto simp: row_ok_def row_def sorted_wrt_map case_prod_beta divide_right_mono
        intro!: to_fp_less_mono elim!: sorted_wrt_mono_rel [rotated])
  moreover have "snd x \<le> 100" if "x \<in> set r" for x
    using that r(2) by (simp add: row_ok_def list_all_iff)
  then have "\<forall>x \<in> set (row r). fp_in (snd x) 0 1"
    by (force simp: row_def intro!: to_fp_in [OF _ _ to_fp_0 to_fp_1_f32])
  ultimately show ?thesis unfolding p by (auto simp: sorted_wrt_take dest: in_set_takeD)
qed

end
