(* ===== verification/RustText.thy ===== *)
theory RustText
  imports Prelude
begin

text \<open>
  The text operations of Rust's standard library that the code uses: \<open>str::lines\<close> and
  \<open>str::trim\<close>.  A string is the list of its Unicode scalar values.
\<close>

type_synonym rust_str = "nat list"

text \<open>The scalar values with the property White\_Space.\<close>

definition is_whitespace :: "nat \<Rightarrow> bool" where
  "is_whitespace c \<longleftrightarrow> 9 \<le> c \<and> c \<le> 13 \<or> c = 32 \<or> c = 0x85 \<or> c = 0xA0 \<or> c = 0x1680 \<or>
     0x2000 \<le> c \<and> c \<le> 0x200A \<or> c = 0x2028 \<or> c = 0x2029 \<or> c = 0x202F \<or> c = 0x205F \<or> c = 0x3000"

definition trim :: "rust_str \<Rightarrow> rust_str" where
  "trim s = rev (dropWhile is_whitespace (rev (dropWhile is_whitespace s)))"

text \<open>
  \<open>lines\<close>: a line ends at a line feed, with a carriage return before it; what follows the last
  line feed is a line if it is not empty.
\<close>

fun strip_cr :: "rust_str \<Rightarrow> rust_str" where
  "strip_cr s = (case rev s of c # cs \<Rightarrow> if c = 13 then rev cs else s | [] \<Rightarrow> s)"

fun split_lines :: "rust_str \<Rightarrow> rust_str \<Rightarrow> rust_str list" where
  "split_lines cur [] = (if cur = [] then [] else [rev cur])"
| "split_lines cur (c # cs) =
     (if c = 10 then strip_cr (rev cur) # split_lines [] cs else split_lines (c # cur) cs)"

definition lines :: "rust_str \<Rightarrow> rust_str list" where
  "lines s = split_lines [] s"

lemma split_lines_append:
  "10 \<notin> set l \<Longrightarrow> split_lines cur (l @ 10 # rest) = strip_cr (rev cur @ l) # split_lines [] rest"
  by (induction l arbitrary: cur) (auto simp del: strip_cr.simps)

lemma strip_cr_id: "13 \<notin> set s \<Longrightarrow> strip_cr s = s"
  by (cases s rule: rev_cases) auto

text \<open>Lines without line feed and carriage return, each ended by a line feed, are read back.\<close>

lemma lines_unlines:
  "\<forall>l \<in> set ls. 10 \<notin> set l \<and> 13 \<notin> set l \<Longrightarrow> lines (concat (map (\<lambda>l. l @ [10]) ls)) = ls"
  unfolding lines_def
  by (induction ls) (simp_all add: split_lines_append strip_cr_id del: strip_cr.simps)

end
