(* ===== verification/ArrowSerializer.thy ===== *)
theory ArrowSerializer
  imports WindowBuilder RustText
begin

text \<open>
  The window serializer of the pipeline, \<open>src/pipeline/src/arrow_serializer.rs\<close>.  The encoder and
  the decoder of the crate \<open>serde_json\<close>, which is not part of the repository, are arguments
  (\<open>None\<close> is an error); so is whether the directory can be made and the file opened.  The file
  system is a map from paths to contents; other write errors are not modelled.
\<close>

type_synonym path = rust_str
type_synonym files = "path \<rightharpoonup> rust_str"

datatype io_error = CreateDir | OpenFile | Serialize | ReadFile | Deserialize

record arrow_serializer =
  as_output_path :: path

definition serializer_new :: "path \<Rightarrow> arrow_serializer" where
  "serializer_new output_path = \<lparr>as_output_path = output_path\<rparr>"

definition serialize_window ::
  "(execution_window \<Rightarrow> rust_str option) \<Rightarrow> execution_window \<Rightarrow> io_error + rust_str" where
  "serialize_window to_vec window = (case to_vec window of None \<Rightarrow> Inl Serialize | Some bytes \<Rightarrow> Inr bytes)"

text \<open>
  The loop over the windows: what reaches the file, and the count or the error.  On an error the
  buffered writer is dropped, which writes what it holds.
\<close>

fun write_loop ::
  "(execution_window \<Rightarrow> rust_str option) \<Rightarrow> execution_window list \<Rightarrow> rust_str \<Rightarrow> nat \<Rightarrow>
   (io_error + nat) \<times> rust_str" where
  "write_loop to_vec [] out n = (Inr n, out)"
| "write_loop to_vec (w # ws) out n =
     (case serialize_window to_vec w of
        Inl e \<Rightarrow> (Inl e, out)
      | Inr bytes \<Rightarrow> write_loop to_vec ws (out @ bytes @ [10]) (n + 1))"

definition write_batch ::
  "(execution_window \<Rightarrow> rust_str option) \<Rightarrow> bool \<Rightarrow> bool \<Rightarrow> arrow_serializer \<Rightarrow> files \<Rightarrow>
   execution_window list \<Rightarrow> (io_error + nat) \<times> files" where
  "write_batch to_vec dir_ok open_ok s fs windows =
     (if \<not> dir_ok then (Inl CreateDir, fs)
      else if \<not> open_ok then (Inl OpenFile, fs)
      else (let old = (case fs (as_output_path s) of None \<Rightarrow> [] | Some c \<Rightarrow> c);
                (r, out) = write_loop to_vec windows [] 0
            in (r, fs(as_output_path s \<mapsto> old @ out))))"

fun read_loop ::
  "(rust_str \<Rightarrow> execution_window option) \<Rightarrow> rust_str list \<Rightarrow> execution_window list \<Rightarrow>
   io_error + execution_window list" where
  "read_loop from_str [] windows = Inr windows"
| "read_loop from_str (line # rest) windows =
     (if trim line = [] then read_loop from_str rest windows
      else (case from_str line of
              None \<Rightarrow> Inl Deserialize
            | Some w \<Rightarrow> read_loop from_str rest (windows @ [w])))"

definition read_windows ::
  "(rust_str \<Rightarrow> execution_window option) \<Rightarrow> files \<Rightarrow> path \<Rightarrow> io_error + execution_window list" where
  "read_windows from_str fs p =
     (case fs p of
        None \<Rightarrow> Inl ReadFile
      | Some content \<Rightarrow> read_loop from_str (lines content) [])"

section \<open>Round trip\<close>

text \<open>
  The codec works on a window: it is encoded, on one line (the compact output of the encoder has
  no raw control characters) that is not blank, and decoded to itself.
\<close>

definition codec_ok ::
  "(execution_window \<Rightarrow> rust_str option) \<Rightarrow> (rust_str \<Rightarrow> execution_window option) \<Rightarrow> execution_window \<Rightarrow> bool" where
  "codec_ok to_vec from_str w \<longleftrightarrow>
     (case to_vec w of None \<Rightarrow> False
      | Some t \<Rightarrow> from_str t = Some w \<and> 10 \<notin> set t \<and> 13 \<notin> set t \<and> trim t \<noteq> [])"

definition encoded :: "(execution_window \<Rightarrow> rust_str option) \<Rightarrow> execution_window list \<Rightarrow> rust_str" where
  "encoded to_vec ws = concat (map (\<lambda>l. l @ [10]) (map (\<lambda>w. the (to_vec w)) ws))"

lemma write_loop_ok:
  "\<forall>w \<in> set ws. codec_ok to_vec from_str w \<Longrightarrow>
   write_loop to_vec ws out n = (Inr (n + length ws), out @ encoded to_vec ws)"
  by (induction ws arbitrary: out n)
    (auto simp: codec_ok_def encoded_def serialize_window_def split: option.splits)

lemma read_loop_ok:
  "\<forall>w \<in> set ws. codec_ok to_vec from_str w \<Longrightarrow>
   read_loop from_str (map (\<lambda>w. the (to_vec w)) ws) acc = Inr (acc @ ws)"
  by (induction ws arbitrary: acc) (auto simp: codec_ok_def split: option.splits)

lemma lines_encoded:
  "\<forall>w \<in> set ws. codec_ok to_vec from_str w \<Longrightarrow>
   lines (encoded to_vec ws) = map (\<lambda>w. the (to_vec w)) ws"
  unfolding encoded_def by (rule lines_unlines) (auto simp: codec_ok_def split: option.splits)

text \<open>Several batches written one after the other.\<close>

fun write_batches ::
  "(execution_window \<Rightarrow> rust_str option) \<Rightarrow> arrow_serializer \<Rightarrow> files \<Rightarrow> execution_window list list \<Rightarrow>
   (io_error + nat) list \<times> files" where
  "write_batches to_vec s fs [] = ([], fs)"
| "write_batches to_vec s fs (b # bs) =
     (let (r, fs') = write_batch to_vec True True s fs b; (rs, fs'') = write_batches to_vec s fs' bs
      in (r # rs, fs''))"

lemma write_batches_ok:
  "\<forall>w \<in> set (concat bs). codec_ok to_vec from_str w \<Longrightarrow>
   fst (write_batches to_vec s fs bs) = map (\<lambda>b. Inr (length b)) bs \<and>
   (bs \<noteq> [] \<longrightarrow> snd (write_batches to_vec s fs bs) (as_output_path s) =
      Some ((case fs (as_output_path s) of None \<Rightarrow> [] | Some c \<Rightarrow> c) @ encoded to_vec (concat bs)))"
proof (induction bs arbitrary: fs)
  case (Cons b bs)
  let ?old = "case fs (as_output_path s) of None \<Rightarrow> [] | Some c \<Rightarrow> c"
  define fs' where "fs' = fs(as_output_path s \<mapsto> ?old @ encoded to_vec b)"
  have b: "write_batch to_vec True True s fs b = (Inr (length b), fs')"
    using write_loop_ok [of b to_vec from_str "[]" 0] Cons.prems
    by (simp add: write_batch_def Let_def fs'_def)
  have look: "fs' (as_output_path s) = Some (?old @ encoded to_vec b)" by (simp add: fs'_def)
  have app: "encoded to_vec (b @ xs) = encoded to_vec b @ encoded to_vec xs" for xs
    by (simp add: encoded_def)
  show ?case
    using Cons.IH [of fs'] Cons.prems b look app
    by (cases "bs = []") (auto simp: split_def Let_def)
qed simp

section \<open>Properties\<close>

text \<open>
  C35.  Round trip through the file: any batches written one after the other to a new file, with a
  codec that works on their windows, are all reported with their length, and reading the file
  returns all their windows in order.
\<close>

theorem serializer_roundtrip:
  assumes "\<forall>w \<in> set (concat bs). codec_ok to_vec from_str w" and "fs p = None" and "bs \<noteq> []"
  shows "fst (write_batches to_vec (serializer_new p) fs bs) = map (\<lambda>b. Inr (length b)) bs \<and>
    read_windows from_str (snd (write_batches to_vec (serializer_new p) fs bs)) p = Inr (concat bs)"
  using write_batches_ok [OF assms(1), of "serializer_new p" fs] assms(2,3)
    lines_encoded [OF assms(1)] read_loop_ok [OF assms(1)]
  by (simp add: serializer_new_def read_windows_def)

definition sample_execution_window :: "nat \<Rightarrow> execution_window" where
  "sample_execution_window n = \<lparr>ew_transaction_id = zero_tx_id, ew_slot = of_nat n, ew_events = [],
     ew_start_ts = 0, ew_end_ts = 0\<rparr>"

definition sample_to_vec :: "execution_window \<Rightarrow> rust_str option" where
  "sample_to_vec w = Some [123, unat (ew_slot w) + 65, 125]"

definition sample_from_str :: "rust_str \<Rightarrow> execution_window option" where
  "sample_from_str t = (case t of [_, c, _] \<Rightarrow> Some (sample_execution_window (c - 65)) | _ \<Rightarrow> None)"

theorem serializer_roundtrip_witness:
  "read_windows sample_from_str (snd (write_batches sample_to_vec (serializer_new [97]) Map.empty
     [[sample_execution_window 1], [], [sample_execution_window 2, sample_execution_window 3]])) [97] =
   Inr [sample_execution_window 1, sample_execution_window 2, sample_execution_window 3]"
proof -
  have "\<forall>w \<in> set (concat [[sample_execution_window 1], [], [sample_execution_window 2, sample_execution_window 3]]).
      codec_ok sample_to_vec sample_from_str w"
    by (simp add: codec_ok_def sample_to_vec_def sample_from_str_def sample_execution_window_def trim_def is_whitespace_def)
  from serializer_roundtrip [OF this, of Map.empty "[97]"] show ?thesis by simp
qed

end
