(* ===== verification/ReplayHarness.thy ===== *)
theory ReplayHarness
  imports WindowBuilder RustText "HOL-Library.List_Lexorder"
begin

text \<open>
  The replay harness, \<open>src/src/bin/replay_harness.rs\<close>: reads a snapshot line by line, rebuilds the
  windows of its events and writes them.  JSON values are those of the crate \<open>serde_json\<close>, which is
  not part of the repository: a type \<open>'j\<close> with the accessors the code uses, passed as a record.
  \<open>replay\<close> is the body of \<open>main\<close> between the opening of the output file and its closing message;
  \<open>rp_output\<close> is what was written.  A failing encoder ends the run with the state it had then
  (\<open>Inl\<close>).
\<close>

section \<open>The harness\<close>

record 'j json_ops =
  js_from_str :: "rust_str \<Rightarrow> 'j option"
  js_index :: "'j \<Rightarrow> string \<Rightarrow> 'j"
  js_as_array :: "'j \<Rightarrow> 'j list option"
  js_as_u64 :: "'j \<Rightarrow> u64 option"
  js_window_to_string :: "execution_window \<Rightarrow> rust_str option"

definition u64_or :: "u64 \<Rightarrow> u64 option \<Rightarrow> u64" where
  "u64_or d x = (case x of None \<Rightarrow> d | Some n \<Rightarrow> n)"

definition tx_bytes :: "'j json_ops \<Rightarrow> 'j list \<Rightarrow> transaction_id" where
  "tx_bytes js a =
     foldl (\<lambda>arr (i, v). arr[i := ucast (u64_or 0 (js_as_u64 js v))]) (replicate 32 0)
       (take 32 (List.enumerate 0 a))"

definition line_tx_id :: "'j json_ops \<Rightarrow> 'j \<Rightarrow> transaction_id" where
  "line_tx_id js window =
     (case js_as_array js (js_index js window ''transaction_id'') of None \<Rightarrow> zero_tx_id | Some a \<Rightarrow> tx_bytes js a)"

text \<open>The product cannot overflow, as the number has 32 bits.\<close>

definition replay_event :: "'j json_ops \<Rightarrow> 'j \<Rightarrow> transaction_id \<Rightarrow> 'j \<Rightarrow> trace_event" where
  "replay_event js window tx_id_arr ev =
     (let sid = ucast (u64_or 1 (js_as_u64 js (js_index js ev ''syscall_id''))) :: u32;
          ts = u64_or 0 (js_as_u64 js (js_index js ev ''timestamp_ns''));
          slot = u64_or 0 (js_as_u64 js (js_index js window ''slot''))
      in \<lparr>ev_program_id = zero_pubkey, ev_syscall_id = sid, ev_args_hash = ucast sid * 7919,
          ev_timestamp_ns = ts, ev_slot = slot, ev_transaction_id = tx_id_arr, ev_depth = 0\<rparr>)"

record replay_state =
  rp_wb :: window_builder
  rp_total_events :: nat
  rp_total_txs :: nat
  rp_output :: rust_str

definition replay_init :: replay_state where
  "replay_init = \<lparr>rp_wb = wb_new 128, rp_total_events = 0, rp_total_txs = 0, rp_output = []\<rparr>"

definition ingest_json :: "'j json_ops \<Rightarrow> 'j \<Rightarrow> transaction_id \<Rightarrow> replay_state \<Rightarrow> 'j \<Rightarrow> replay_state" where
  "ingest_json js window tx s ev =
     s\<lparr>rp_wb := wb_ingest (rp_wb s) (replay_event js window tx ev), rp_total_events := rp_total_events s + 1\<rparr>"

definition write_window :: "'j json_ops \<Rightarrow> replay_state \<Rightarrow> execution_window \<Rightarrow> replay_state + replay_state" where
  "write_window js s w =
     (case js_window_to_string js w of
        None \<Rightarrow> Inl s
      | Some t \<Rightarrow> Inr (s\<lparr>rp_output := rp_output s @ t @ [10]\<rparr>))"

definition replay_line :: "'j json_ops \<Rightarrow> replay_state \<Rightarrow> rust_str \<Rightarrow> replay_state + replay_state" where
  "replay_line js s line0 =
     (let line = trim line0
      in if line = [] then Inr s
         else (case js_from_str js line of
             None \<Rightarrow> Inr s
           | Some window \<Rightarrow>
               (let tx = line_tx_id js window
                in case js_as_array js (js_index js window ''events'') of
                     None \<Rightarrow> Inr s
                   | Some events \<Rightarrow>
                       (let s1 = foldl (ingest_json js window tx) s events;
                            (w, wb) = wb_finalize (rp_wb s1) tx;
                            s2 = s1\<lparr>rp_wb := wb\<rparr>
                        in case w of
                             None \<Rightarrow> Inr s2
                           | Some x \<Rightarrow>
                               (case write_window js s2 x of
                                  Inl s3 \<Rightarrow> Inl s3
                                | Inr s3 \<Rightarrow> Inr (s3\<lparr>rp_total_txs := rp_total_txs s3 + 1\<rparr>))))))"

fun replay_lines :: "'j json_ops \<Rightarrow> rust_str list \<Rightarrow> replay_state \<Rightarrow> replay_state + replay_state" where
  "replay_lines js [] s = Inr s"
| "replay_lines js (l # ls) s =
     (case replay_line js s l of Inl s' \<Rightarrow> Inl s' | Inr s' \<Rightarrow> replay_lines js ls s')"

fun write_windows :: "'j json_ops \<Rightarrow> execution_window list \<Rightarrow> replay_state \<Rightarrow> replay_state + replay_state" where
  "write_windows js [] s = Inr s"
| "write_windows js (w # ws) s =
     (case write_window js s w of Inl s' \<Rightarrow> Inl s' | Inr s' \<Rightarrow> write_windows js ws s')"

text \<open>\<open>order\<close> is the iteration order of the builder's map, for the final drain.\<close>

definition replay ::
  "'j json_ops \<Rightarrow> ((transaction_id, trace_event list) fmap \<Rightarrow> transaction_id list) \<Rightarrow> rust_str \<Rightarrow>
   replay_state + replay_state" where
  "replay js order replay_source =
     (case replay_lines js (lines replay_source) replay_init of
        Inl s \<Rightarrow> Inl s
      | Inr s \<Rightarrow>
          (let (remaining, wb) = wb_drain_all (order (wb_pending (rp_wb s))) (rp_wb s);
               s1 = s\<lparr>rp_wb := wb\<rparr>
           in case write_windows js remaining s1 of
                Inl s2 \<Rightarrow> Inl s2
              | Inr s2 \<Rightarrow> Inr (s2\<lparr>rp_total_txs := rp_total_txs s2 + length remaining\<rparr>)))"

section \<open>What a line contributes\<close>

definition line_events :: "'j json_ops \<Rightarrow> rust_str \<Rightarrow> (transaction_id \<times> trace_event list) option" where
  "line_events js line =
     (if trim line = [] then None
      else (case js_from_str js (trim line) of
          None \<Rightarrow> None
        | Some window \<Rightarrow> map_option (\<lambda>events. (line_tx_id js window,
              map (replay_event js window (line_tx_id js window)) events))
              (js_as_array js (js_index js window ''events''))))"

definition line_window :: "'j json_ops \<Rightarrow> rust_str \<Rightarrow> execution_window option" where
  "line_window js line =
     (case line_events js line of None \<Rightarrow> None | Some (tx, events) \<Rightarrow> window_of tx (take 128 events))"

definition line_count :: "'j json_ops \<Rightarrow> rust_str \<Rightarrow> nat" where
  "line_count js line = (case line_events js line of None \<Rightarrow> 0 | Some (tx, events) \<Rightarrow> length events)"

definition encodes :: "'j json_ops \<Rightarrow> execution_window \<Rightarrow> bool" where
  "encodes js w \<longleftrightarrow> js_window_to_string js w \<noteq> None"

definition written :: "'j json_ops \<Rightarrow> execution_window list \<Rightarrow> rust_str" where
  "written js ws = concat (map (\<lambda>w. the (js_window_to_string js w) @ [10]) ws)"

text \<open>The windows of a snapshot, in the order of its lines, and how many events its lines have.\<close>

definition snapshot_windows :: "'j json_ops \<Rightarrow> rust_str \<Rightarrow> execution_window list" where
  "snapshot_windows js source = List.map_filter (line_window js) (lines source)"

definition snapshot_events :: "'j json_ops \<Rightarrow> rust_str \<Rightarrow> nat" where
  "snapshot_events js source = sum_list (map (line_count js) (lines source))"

lemma write_window_cases:
  "write_window js s w =
     (if encodes js w then Inr (s\<lparr>rp_output := rp_output s @ written js [w]\<rparr>) else Inl s)"
  by (auto simp: write_window_def encodes_def written_def)

lemma ingest_all:
  fixes js :: "'j json_ops" and events :: "'j list" and window :: 'j and tx :: transaction_id
  assumes "rp_wb s = wb_new 128"
  defines "s' \<equiv> foldl (ingest_json js window tx) s events"
  shows "wb_events (rp_wb s') tx = take 128 (map (replay_event js window tx) events)"
    and "wb_max_window_size (rp_wb s') = 128"
    and "k \<noteq> tx \<Longrightarrow> fmlookup (wb_pending (rp_wb s')) k = None"
    and "rp_total_events s' = rp_total_events s + length events \<and> rp_total_txs s' = rp_total_txs s \<and>
      rp_output s' = rp_output s"
proof -
  have tx: "ev_transaction_id (replay_event js window tx ev) = tx" for ev
    by (simp add: replay_event_def Let_def)
  have "wb_events (rp_wb s') tx = take 128 (map (replay_event js window tx) events) \<and>
      wb_max_window_size (rp_wb s') = 128 \<and>
      (k \<noteq> tx \<longrightarrow> fmlookup (wb_pending (rp_wb s')) k = None) \<and>
      rp_total_events s' = rp_total_events s + length events \<and> rp_total_txs s' = rp_total_txs s \<and>
      rp_output s' = rp_output s"
    unfolding s'_def
  proof (induction events rule: rev_induct)
    case Nil
    then show ?case using assms by (simp add: wb_new_def wb_events_def)
  next
    case (snoc ev evs)
    define s0 where "s0 = foldl (ingest_json js window tx) s evs"
    have eq: "foldl (ingest_json js window tx) s (evs @ [ev]) = ingest_json js window tx s0 ev"
      by (simp add: s0_def)
    have "fmlookup (wb_pending (wb_ingest (rp_wb s0) (replay_event js window tx ev))) k =
        fmlookup (wb_pending (rp_wb s0)) k" if "k \<noteq> tx"
      using that by (simp add: wb_ingest_def Let_def tx)
    then show ?case
      using snoc [folded s0_def] unfolding eq by (auto simp: ingest_json_def wb_ingest_events tx)
  qed
  then show "wb_events (rp_wb s') tx = take 128 (map (replay_event js window tx) events)"
    "wb_max_window_size (rp_wb s') = 128"
    "k \<noteq> tx \<Longrightarrow> fmlookup (wb_pending (rp_wb s')) k = None"
    "rp_total_events s' = rp_total_events s + length events \<and> rp_total_txs s' = rp_total_txs s \<and>
      rp_output s' = rp_output s" by blast+
qed

lemma finalize_empties:
  assumes "wb_max_window_size wb = 128" "\<And>k. k \<noteq> tx \<Longrightarrow> fmlookup (wb_pending wb) k = None"
  shows "wb_finalize wb tx = (window_of tx (wb_events wb tx), wb_new 128)"
proof -
  have "fmdrop tx (wb_pending wb) = fmempty" using assms(2) by (intro fmap_ext) simp
  then have "snd (wb_finalize wb tx) = wb_new 128"
    using wb_finalize_pending [of wb tx] assms(1) by (cases "snd (wb_finalize wb tx)") (simp add: wb_new_def)
  then show ?thesis using wb_finalize_result [of wb tx] by (simp add: prod_eq_iff)
qed

lemma replay_line_effect:
  fixes js :: "'j json_ops" and line :: rust_str
  assumes wb: "rp_wb s = wb_new 128"
  defines "s' \<equiv> s\<lparr>rp_total_events := rp_total_events s + line_count js line\<rparr>"
  shows "replay_line js s line = (case line_window js line of
      None \<Rightarrow> Inr s'
    | Some w \<Rightarrow> if encodes js w then Inr (s'\<lparr>rp_total_txs := rp_total_txs s + 1,
          rp_output := rp_output s @ written js [w]\<rparr>) else Inl s')"
proof (cases "line_events js line")
  case None
  then show ?thesis
    by (auto simp: s'_def replay_line_def line_window_def line_count_def line_events_def Let_def
        split: if_splits option.splits)
next
  case (Some te)
  then obtain window events where l: "trim line \<noteq> []" "js_from_str js (trim line) = Some window"
    "js_as_array js (js_index js window ''events'') = Some events"
    and te: "te = (line_tx_id js window, map (replay_event js window (line_tx_id js window)) events)"
    by (auto simp: line_events_def split: if_splits option.splits)
  let ?tx = "line_tx_id js window"
  define s1 where "s1 = foldl (ingest_json js window ?tx) s events"
  note ing = ingest_all [OF wb, where js = js and window = window and tx = ?tx and events = events, folded s1_def]
  have fin: "wb_finalize (rp_wb s1) ?tx = (line_window js line, wb_new 128)"
    using finalize_empties [OF ing(2,3)] ing(1) Some te by (simp add: line_window_def)
  have s1: "s1\<lparr>rp_wb := wb_new 128\<rparr> = s'"
    using ing(4) wb Some te unfolding s'_def by (intro replay_state.equality) (simp_all add: line_count_def)
  have "replay_line js s line = (case line_window js line of
      None \<Rightarrow> Inr (s1\<lparr>rp_wb := wb_new 128\<rparr>)
    | Some x \<Rightarrow> (case write_window js (s1\<lparr>rp_wb := wb_new 128\<rparr>) x of
        Inl s3 \<Rightarrow> Inl s3 | Inr s3 \<Rightarrow> Inr (s3\<lparr>rp_total_txs := rp_total_txs s3 + 1\<rparr>)))"
    using l fin by (cases "line_window js line") (simp_all add: replay_line_def Let_def s1_def [symmetric])
  then show ?thesis unfolding s1 by (cases "line_window js line") (simp_all add: write_window_cases s'_def)
qed

text \<open>
  The lines of a snapshot: all windows are written when they all encode; otherwise the run ends
  with those before the first that does not.
\<close>

lemma replay_lines_ok:
  "rp_wb s = wb_new 128 \<Longrightarrow> list_all (encodes js) (List.map_filter (line_window js) ls) \<Longrightarrow>
   replay_lines js ls s = Inr (s\<lparr>
      rp_total_events := rp_total_events s + sum_list (map (line_count js) ls),
      rp_total_txs := rp_total_txs s + length (List.map_filter (line_window js) ls),
      rp_output := rp_output s @ written js (List.map_filter (line_window js) ls)\<rparr>)"
proof (induction ls arbitrary: s)
  case Nil
  then show ?case by (simp add: map_filter_simps written_def)
next
  case (Cons l ls)
  show ?case
    using Cons replay_line_effect [OF Cons.prems(1), of js l]
    by (cases "line_window js l") (simp_all add: map_filter_simps written_def add.assoc)
qed

lemma replay_lines_fail:
  "rp_wb s = wb_new 128 \<Longrightarrow> \<not> list_all (encodes js) (List.map_filter (line_window js) ls) \<Longrightarrow>
   \<exists>s'. replay_lines js ls s = Inl s' \<and> rp_output s' =
     rp_output s @ written js (takeWhile (encodes js) (List.map_filter (line_window js) ls))"
proof (induction ls arbitrary: s)
  case Nil
  then show ?case by (simp add: map_filter_simps)
next
  case (Cons l ls)
  show ?case
  proof (cases "line_window js l")
    case None
    then show ?thesis
      using Cons.IH [of "s\<lparr>rp_total_events := rp_total_events s + line_count js l\<rparr>"] Cons.prems
        replay_line_effect [OF Cons.prems(1), of js l] by (simp add: map_filter_simps)
  next
    case (Some w)
    then show ?thesis
      using Cons.IH [of "s\<lparr>rp_total_events := rp_total_events s + line_count js l,
          rp_total_txs := rp_total_txs s + 1, rp_output := rp_output s @ written js [w]\<rparr>"] Cons.prems
        replay_line_effect [OF Cons.prems(1), of js l]
      by (cases "encodes js w") (auto simp: map_filter_simps written_def)
  qed
qed

lemma replay_ok:
  assumes enc: "list_all (encodes js) (snapshot_windows js source)" and order: "\<And>m. iter_order m (order m)"
  shows "replay js order source = Inr \<lparr>rp_wb = wb_new 128,
      rp_total_events = snapshot_events js source,
      rp_total_txs = length (snapshot_windows js source),
      rp_output = written js (snapshot_windows js source)\<rparr>"
proof -
  have "order fmempty = []" using order [of fmempty] by (simp add: iter_order_def)
  moreover have "rp_wb replay_init = wb_new 128" by (simp add: replay_init_def)
  ultimately show ?thesis
    using replay_lines_ok [of replay_init js "lines source"] enc
    by (simp add: replay_def replay_init_def wb_drain_all_def wb_new_def Let_def snapshot_windows_def
        snapshot_events_def)
qed

lemma replay_fail:
  assumes "\<not> list_all (encodes js) (snapshot_windows js source)"
  shows "\<exists>s. replay js order source = Inl s \<and>
    rp_output s = written js (takeWhile (encodes js) (snapshot_windows js source))"
  using replay_lines_fail [of replay_init js "lines source"] assms
  by (auto simp: replay_def replay_init_def snapshot_windows_def)

section \<open>A concrete JSON type\<close>

text \<open>A tree type for JSON values, for the witnesses.\<close>

datatype json = JNum u64 | JArr "json list" | JObj "(string \<times> json) list" | JNull

definition sample_json_ops :: "json json_ops" where
  "sample_json_ops = \<lparr>
     js_from_str = (\<lambda>t. if t = [65] then Some (JObj [(''transaction_id'', JArr [JNum 7]), (''slot'', JNum 5),
        (''events'', JArr [JObj [(''syscall_id'', JNum 20), (''timestamp_ns'', JNum 100)]])]) else None),
     js_index = (\<lambda>v k. case v of JObj kvs \<Rightarrow> (case map_of kvs k of None \<Rightarrow> JNull | Some x \<Rightarrow> x) | _ \<Rightarrow> JNull),
     js_as_array = (\<lambda>v. case v of JArr a \<Rightarrow> Some a | _ \<Rightarrow> None),
     js_as_u64 = (\<lambda>v. case v of JNum n \<Rightarrow> Some n | _ \<Rightarrow> None),
     js_window_to_string = (\<lambda>w. Some [123, unat (ew_start_ts w), 125])\<rparr>"

end
