(* ===== verification/ReplayLines.thy ===== *)
theory ReplayLines
  imports ReplayHarness
begin

text \<open>
  Snapshot lines as the programs of the repository write them and as the replay harness
  (\<open>src/src/bin/replay_harness.rs\<close>) reads them.  The JSON text is that of the crate \<open>serde_json\<close>; what
  writer and reader rely on is that the accessors find in the parsed line the numbers that were
  written: the bytes of the transaction identifier, the slot, and of each event the number and the
  time stamp of its syscall (a \<open>call\<close>).
\<close>

type_synonym call = "syscall_id \<times> u64"

definition json_call :: "'j json_ops \<Rightarrow> 'j \<Rightarrow> call \<Rightarrow> bool" where
  "json_call js v c \<longleftrightarrow>
     js_as_u64 js (js_index js v ''syscall_id'') = Some (ucast (fst c)) \<and>
     js_as_u64 js (js_index js v ''timestamp_ns'') = Some (snd c)"

definition json_window :: "'j json_ops \<Rightarrow> 'j \<Rightarrow> transaction_id \<Rightarrow> u64 \<Rightarrow> call list \<Rightarrow> bool" where
  "json_window js v tx slot calls \<longleftrightarrow>
     (case js_as_array js (js_index js v ''transaction_id'') of None \<Rightarrow> False
      | Some a \<Rightarrow> map (js_as_u64 js) a = map (\<lambda>b. Some (ucast b)) tx) \<and>
     js_as_u64 js (js_index js v ''slot'') = Some slot \<and>
     (case js_as_array js (js_index js v ''events'') of None \<Rightarrow> False
      | Some evs \<Rightarrow> list_all2 (json_call js) evs calls)"

text \<open>A text is one line, without blanks at its ends, and parses to the window.\<close>

definition writes_line :: "'j json_ops \<Rightarrow> rust_str \<Rightarrow> transaction_id \<Rightarrow> u64 \<Rightarrow> call list \<Rightarrow> bool" where
  "writes_line js t tx slot calls \<longleftrightarrow> 10 \<notin> set t \<and> 13 \<notin> set t \<and> trim t = t \<and> t \<noteq> [] \<and>
     (case js_from_str js t of None \<Rightarrow> False | Some v \<Rightarrow> json_window js v tx slot calls)"

text \<open>The event the harness rebuilds from a call.\<close>

definition replayed_event :: "transaction_id \<Rightarrow> u64 \<Rightarrow> call \<Rightarrow> trace_event" where
  "replayed_event tx slot c = \<lparr>ev_program_id = zero_pubkey, ev_syscall_id = fst c,
     ev_args_hash = ucast (fst c) * 7919, ev_timestamp_ns = snd c, ev_slot = slot,
     ev_transaction_id = tx, ev_depth = 0\<rparr>"

lemma replayed_event_fields [simp]:
  "ev_timestamp_ns (replayed_event tx slot c) = snd c" "ev_slot (replayed_event tx slot c) = slot"
  "ev_syscall_id (replayed_event tx slot c) = fst c"
  by (simp_all add: replayed_event_def)

lemma foldl_update_enumerate:
  "n + length a \<le> length arr \<Longrightarrow>
   foldl (\<lambda>arr (i, v). arr[i := f v]) arr (List.enumerate n a) = take n arr @ map f a @ drop (n + length a) arr"
proof (induction a arbitrary: n arr)
  case (Cons x a)
  then show ?case
    by (simp add: take_Suc_conv_app_nth upd_conv_take_nth_drop add.commute)
qed simp

lemma ucast_back [simp]: "ucast (ucast (b :: u8) :: u64) = b" "ucast (ucast (c :: u32) :: u64) = c"
  by (rule bit_word_eqI, simp add: bit_simps)+

lemma tx_bytes_written:
  assumes "map (js_as_u64 js) a = map (\<lambda>b. Some (ucast b)) tx" "length tx = 32"
  shows "tx_bytes js a = (tx :: transaction_id)"
proof -
  have len: "length a = 32" using arg_cong [OF assms(1), of length] assms(2) by simp
  have "map (\<lambda>v. ucast (u64_or 0 (js_as_u64 js v))) a = map (\<lambda>x. ucast (u64_or 0 x)) (map (js_as_u64 js) a)"
    by (simp add: comp_def)
  also have "\<dots> = tx"
    by (simp add: assms(1) comp_def u64_or_def)
  finally have "map (\<lambda>v. ucast (u64_or 0 (js_as_u64 js v))) a = tx" .
  then show ?thesis
    using foldl_update_enumerate [of 0 a "replicate 32 0" "\<lambda>v. ucast (u64_or 0 (js_as_u64 js v)) :: u8"] len
    by (simp add: tx_bytes_def)
qed

lemma replayed_events:
  "list_all2 (json_call js) evs calls \<Longrightarrow> js_as_u64 js (js_index js v ''slot'') = Some slot \<Longrightarrow>
   map (replay_event js v tx) evs = map (replayed_event tx slot) calls"
  by (induction rule: list_all2_induct)
    (simp_all add: json_call_def replay_event_def replayed_event_def u64_or_def Let_def)

text \<open>What a line so written contributes: a window of its first 128 calls.\<close>

lemma line_events_written:
  assumes w: "writes_line js t tx slot calls" and tx: "length tx = 32"
  shows "line_events js t = Some (tx, map (replayed_event tx slot) calls)"
proof -
  obtain v a evs where v: "trim t = t" "t \<noteq> []" "js_from_str js t = Some v"
    "js_as_array js (js_index js v ''transaction_id'') = Some a"
    "map (js_as_u64 js) a = map (\<lambda>b. Some (ucast b)) tx"
    "js_as_u64 js (js_index js v ''slot'') = Some slot"
    "js_as_array js (js_index js v ''events'') = Some evs" "list_all2 (json_call js) evs calls"
    using w by (auto simp: writes_line_def json_window_def split: option.splits)
  then show ?thesis
    using replayed_events [OF v(8,6)] tx_bytes_written [OF v(5) tx]
    by (simp add: line_events_def line_tx_id_def)
qed

definition replayed_window :: "transaction_id \<Rightarrow> u64 \<Rightarrow> call list \<Rightarrow> execution_window" where
  "replayed_window tx slot calls = \<lparr>ew_transaction_id = tx, ew_slot = slot,
     ew_events = map (replayed_event tx slot) calls,
     ew_start_ts = snd (hd calls), ew_end_ts = snd (last calls)\<rparr>"

lemma line_written:
  assumes "writes_line js t tx slot calls" "length tx = 32" "calls \<noteq> []" "length calls \<le> 128"
  shows "line_window js t = Some (replayed_window tx slot calls)" "line_count js t = length calls"
  using assms(3,4)
  by (simp_all add: line_window_def line_count_def line_events_written [OF assms(1,2)] window_of_def
      replayed_window_def hd_map last_map)

text \<open>A snapshot all of whose lines are so written, given by a list and what each element writes.\<close>

lemma map_filter_all: "\<forall>x \<in> set xs. f x = Some (g x) \<Longrightarrow> List.map_filter f xs = map g xs"
  by (induction xs) (simp_all add: map_filter_simps)

lemma map_filter_map: "List.map_filter f (map g xs) = List.map_filter (\<lambda>x. f (g x)) xs"
  by (induction xs) (simp_all add: map_filter_simps split: option.splits)

lemma written_snapshot:
  assumes ws: "\<forall>w \<in> set ws. writes_line js (render w) (tx w) (slot w) (calls w) \<and> length (tx w) = 32 \<and>
      calls w \<noteq> [] \<and> length (calls w) \<le> 128"
    and ls: "lines source = map render ws"
  shows "snapshot_windows js source = map (\<lambda>w. replayed_window (tx w) (slot w) (calls w)) ws"
    and "snapshot_events js source = sum_list (map (\<lambda>w. length (calls w)) ws)"
proof -
  have line: "line_window js (render w) = Some (replayed_window (tx w) (slot w) (calls w))"
    "line_count js (render w) = length (calls w)" if "w \<in> set ws" for w
    using ws that line_written [of js "render w" "tx w" "slot w" "calls w"] by simp_all
  show "snapshot_windows js source = map (\<lambda>w. replayed_window (tx w) (slot w) (calls w)) ws"
    unfolding snapshot_windows_def ls map_filter_map using line(1) by (intro map_filter_all) simp
  have "map (line_count js) (map render ws) = map (\<lambda>w. length (calls w)) ws"
    using line(2) by simp
  then show "snapshot_events js source = sum_list (map (\<lambda>w. length (calls w)) ws)"
    by (simp add: snapshot_events_def ls del: map_map)
qed

end
