(* ===== verification/MockSnapshot.thy ===== *)
theory MockSnapshot
  imports ReplayLines
begin

text \<open>
  The synthetic snapshot of the replay harness, \<open>generate_mock_snapshot\<close> of
  \<open>src/src/bin/replay_harness.rs\<close>, which is replayed when the snapshot file does not exist.  What the
  random generator draws for a transaction is a \<open>mock_draw\<close>; the JSON text of a window, made by the
  crate \<open>serde_json\<close>, is an argument.
\<close>

section \<open>The snapshot\<close>

definition mock_pool :: "syscall_id list" where
  "mock_pool = [SOL_GET_CLOCK_SYSVAR, SOL_GET_RENT_SYSVAR, SOL_SHA256, SOL_KECCAK256, SOL_LOG, SOL_INVOKE_SIGNED]"

text \<open>The identifier has a number for each of its 32 bytes; one pool index is drawn per event.\<close>

record mock_draw =
  mk_tx_id :: "u64 list"
  mk_picks :: "nat list"

record mock_event =
  me_syscall_id :: syscall_id
  me_timestamp_ns :: u64
  me_args_hash :: u64
  me_depth :: u8

record mock_window =
  mw_transaction_id :: "u64 list"
  mw_slot :: u64
  mw_events :: "mock_event list"

fun mock_events :: "profile \<Rightarrow> u64 \<Rightarrow> nat \<Rightarrow> nat list \<Rightarrow> mock_event list res" where
  "mock_events p tx_idx i [] = Inr []"
| "mock_events p tx_idx i (k # ks) =
     (let sid = mock_pool ! k in
      res_bind (mul_u64 p tx_idx 1000000) (\<lambda>a.
      res_bind (mul_u64 p (of_nat i) 400000) (\<lambda>b.
      res_bind (add_u64 p a b) (\<lambda>ts.
      res_bind (mul_u64 p (ucast sid) 7919) (\<lambda>h.
      res_bind (mock_events p tx_idx (i + 1) ks) (\<lambda>es.
        Inr (\<lparr>me_syscall_id = sid, me_timestamp_ns = ts, me_args_hash = h XOR tx_idx, me_depth = 0\<rparr> # es)))))))"

definition mock_tx :: "profile \<Rightarrow> u64 \<Rightarrow> mock_draw \<Rightarrow> mock_window res" where
  "mock_tx p tx_idx d =
     res_bind (mock_events p tx_idx 0 (mk_picks d)) (\<lambda>events.
     res_bind (add_u64 p (tx_idx div 432) 280000000) (\<lambda>slot.
       Inr \<lparr>mw_transaction_id = mk_tx_id d, mw_slot = slot, mw_events = events\<rparr>))"

text \<open>The loop over \<open>0..1000\<close>, with one draw per transaction.\<close>

fun mock_run :: "profile \<Rightarrow> nat \<Rightarrow> mock_draw list \<Rightarrow> mock_window list res" where
  "mock_run p tx_idx [] = Inr []"
| "mock_run p tx_idx (d # ds) =
     res_bind (mock_tx p (of_nat tx_idx) d) (\<lambda>w.
     res_bind (mock_run p (tx_idx + 1) ds) (\<lambda>ws. Inr (w # ws)))"

fun join_lines :: "rust_str list \<Rightarrow> rust_str" where
  "join_lines [] = []"
| "join_lines [l] = l"
| "join_lines (l # k # ls) = l @ [10] @ join_lines (k # ls)"

definition generate_mock_snapshot :: "profile \<Rightarrow> (mock_window \<Rightarrow> rust_str) \<Rightarrow> mock_draw list \<Rightarrow> rust_str res" where
  "generate_mock_snapshot p to_string draws =
     res_bind (mock_run p 0 draws) (\<lambda>windows. Inr (join_lines (map to_string windows)))"

section \<open>The windows\<close>

definition mock_draw_ok :: "mock_draw \<Rightarrow> bool" where
  "mock_draw_ok d \<longleftrightarrow> length (mk_tx_id d) = 32 \<and> list_all (\<lambda>v. v \<le> 255) (mk_tx_id d) \<and>
     3 \<le> length (mk_picks d) \<and> length (mk_picks d) < 10 \<and> list_all (\<lambda>k. k < length mock_pool) (mk_picks d)"

definition mock_calls :: "mock_window \<Rightarrow> call list" where
  "mock_calls w = map (\<lambda>e. (me_syscall_id e, me_timestamp_ns e)) (mw_events w)"

definition mock_tx_bytes :: "mock_window \<Rightarrow> transaction_id" where
  "mock_tx_bytes w = map ucast (mw_transaction_id w)"

text \<open>What transaction \<open>n\<close> of the snapshot is, with its time stamps as numbers.\<close>

definition mock_window_of :: "nat \<Rightarrow> mock_draw \<Rightarrow> mock_window \<Rightarrow> bool" where
  "mock_window_of n d w \<longleftrightarrow> mw_transaction_id w = mk_tx_id d \<and> unat (mw_slot w) = n div 432 + 280000000 \<and>
     map me_syscall_id (mw_events w) = map (\<lambda>k. mock_pool ! k) (mk_picks d) \<and>
     map (\<lambda>e. unat (me_timestamp_ns e)) (mw_events w) =
       map (\<lambda>i. n * 1000000 + i * 400000) [0..<length (mk_picks d)]"

lemma pool_numbers: "k < length mock_pool \<Longrightarrow> unat (ucast (mock_pool ! k) :: u64) \<le> 30"
  by (auto simp: mock_pool_def syscall_ids less_Suc_eq nth_Cons')

lemma mock_events_ok:
  assumes "n < 1000"
  shows "i + length ks < 10 \<Longrightarrow> list_all (\<lambda>k. k < length mock_pool) ks \<Longrightarrow>
    \<exists>es. mock_events p (of_nat n) i ks = Inr es \<and> map me_syscall_id es = map (\<lambda>k. mock_pool ! k) ks \<and>
      map (\<lambda>e. unat (me_timestamp_ns e)) es = map (\<lambda>j. n * 1000000 + j * 400000) [i..<i + length ks]"
proof (induction ks arbitrary: i)
  case Nil
  then show ?case by simp
next
  case (Cons k ks)
  have u: "unat (of_nat n :: u64) = n" "unat (of_nat i :: u64) = i"
    using assms Cons.prems by (auto intro!: unat_of_nat_u64)
  have a: "mul_u64 p (of_nat n) 1000000 = Inr (of_nat n * 1000000)" "unat (of_nat n * 1000000 :: u64) = n * 1000000"
    using u assms by (auto intro!: mul_u64_fits trans [OF unat_times_u64_fits])
  have b: "mul_u64 p (of_nat i) 400000 = Inr (of_nat i * 400000)" "unat (of_nat i * 400000 :: u64) = i * 400000"
    using u Cons.prems by (auto intro!: mul_u64_fits trans [OF unat_times_u64_fits])
  have t: "add_u64 p (of_nat n * 1000000) (of_nat i * 400000) = Inr (of_nat n * 1000000 + of_nat i * 400000)"
    "unat (of_nat n * 1000000 + of_nat i * 400000 :: u64) = n * 1000000 + i * 400000"
    using a(2) b(2) assms Cons.prems by (auto intro!: add_u64_fits trans [OF unat_plus_u64_fits])
  have h: "mul_u64 p (ucast (mock_pool ! k)) 7919 = Inr (ucast (mock_pool ! k) * 7919)"
    using pool_numbers [of k] Cons.prems(2) by (intro mul_u64_fits) simp
  obtain es where "mock_events p (of_nat n) (i + 1) ks = Inr es" "map me_syscall_id es = map (\<lambda>k. mock_pool ! k) ks"
    "map (\<lambda>e. unat (me_timestamp_ns e)) es = map (\<lambda>j. n * 1000000 + j * 400000) [i + 1..<i + 1 + length ks]"
    using Cons.IH [of "i + 1"] Cons.prems by auto
  moreover have "[i..<i + length (k # ks)] = i # [i + 1..<i + 1 + length ks]"
    by (simp add: upt_conv_Cons del: upt_Suc)
  ultimately show ?case using a(1) b(1) t h by (simp add: Let_def del: upt_Suc)
qed

lemma mock_tx_ok:
  assumes "n < 1000" "mock_draw_ok d"
  shows "\<exists>w. mock_tx p (of_nat n) d = Inr w \<and> mock_window_of n d w"
proof -
  obtain es where es: "mock_events p (of_nat n) 0 (mk_picks d) = Inr es"
    "map me_syscall_id es = map (\<lambda>k. mock_pool ! k) (mk_picks d)"
    "map (\<lambda>e. unat (me_timestamp_ns e)) es = map (\<lambda>j. n * 1000000 + j * 400000) [0..<length (mk_picks d)]"
    using mock_events_ok [OF assms(1), of 0 "mk_picks d" p] assms(2) by (auto simp: mock_draw_ok_def)
  have "unat (of_nat n div 432 :: u64) = n div 432"
    using unat_of_nat_u64 [of n] assms(1) by (simp add: unat_div)
  then have "add_u64 p (of_nat n div 432) 280000000 = Inr (of_nat n div 432 + 280000000)"
    "unat (of_nat n div 432 + 280000000 :: u64) = n div 432 + 280000000"
    using assms(1) by (auto intro!: add_u64_fits trans [OF unat_plus_u64_fits])
  then show ?thesis using es by (simp add: mock_tx_def mock_window_of_def)
qed

lemma mock_run_ok:
  "n + length ds \<le> 1000 \<Longrightarrow> list_all mock_draw_ok ds \<Longrightarrow>
   \<exists>ws. mock_run p n ds = Inr ws \<and> length ws = length ds \<and>
     (\<forall>j < length ds. mock_window_of (n + j) (ds ! j) (ws ! j))"
proof (induction ds arbitrary: n)
  case (Cons d ds)
  obtain w where w: "mock_tx p (of_nat n) d = Inr w" "mock_window_of n d w"
    using mock_tx_ok [of n d p] Cons.prems by auto
  obtain ws where ws: "mock_run p (n + 1) ds = Inr ws" "length ws = length ds"
    "\<forall>j < length ds. mock_window_of (n + 1 + j) (ds ! j) (ws ! j)"
    using Cons.IH [of "n + 1"] Cons.prems by auto
  then show ?case using w by (auto simp: nth_Cons split: nat.split)
qed simp

section \<open>Its lines\<close>

lemma lines_single: "10 \<notin> set l \<Longrightarrow> l \<noteq> [] \<Longrightarrow> lines l = [l]"
proof -
  have "10 \<notin> set l \<Longrightarrow> split_lines cur l = (if cur = [] \<and> l = [] then [] else [rev cur @ l])" for cur
    by (induction l arbitrary: cur) auto
  then show "10 \<notin> set l \<Longrightarrow> l \<noteq> [] \<Longrightarrow> lines l = [l]" by (simp add: lines_def)
qed

lemma lines_join:
  "\<forall>l \<in> set ls. 10 \<notin> set l \<and> 13 \<notin> set l \<and> l \<noteq> [] \<Longrightarrow> lines (join_lines ls) = ls"
proof (induction ls rule: join_lines.induct)
  case 1
  then show ?case by (simp add: lines_def)
next
  case (2 l)
  then show ?case by (simp add: lines_single)
next
  case (3 l k ls)
  then show ?case
    using split_lines_append [of l "[]" "join_lines (k # ls)"] strip_cr_id [of l]
    by (simp add: lines_def del: strip_cr.simps)
qed

section \<open>The snapshot as the replay reads it\<close>

lemma mock_snapshot:
  assumes draws: "length draws \<le> 1000" "list_all mock_draw_ok draws"
    and json: "\<And>ws. mock_run p 0 draws = Inr ws \<Longrightarrow>
      list_all (\<lambda>w. writes_line js (render w) (mock_tx_bytes w) (mw_slot w) (mock_calls w)) ws"
  shows "\<exists>ws source. mock_run p 0 draws = Inr ws \<and> generate_mock_snapshot p render draws = Inr source \<and>
    length ws = length draws \<and> (\<forall>j < length draws. mock_window_of j (draws ! j) (ws ! j)) \<and>
    snapshot_windows js source = map (\<lambda>w. replayed_window (mock_tx_bytes w) (mw_slot w) (mock_calls w)) ws \<and>
    snapshot_events js source = sum_list (map (\<lambda>d. length (mk_picks d)) draws)"
proof -
  obtain ws where ws: "mock_run p 0 draws = Inr ws" "length ws = length draws"
    "\<forall>j < length draws. mock_window_of j (draws ! j) (ws ! j)"
    using mock_run_ok [of 0 draws p] draws by auto
  have shape: "length (mock_calls (ws ! j)) = length (mk_picks (draws ! j)) \<and>
      length (mk_picks (draws ! j)) \<in> {3..<10} \<and> length (mock_tx_bytes (ws ! j)) = 32" if "j < length draws" for j
  proof -
    have w: "mock_window_of j (draws ! j) (ws ! j)" "mock_draw_ok (draws ! j)"
      using ws(3) draws(2) that by (simp_all add: list_all_length)
    have "length (mw_events (ws ! j)) = length (mk_picks (draws ! j))"
      using w(1) map_eq_imp_length_eq unfolding mock_window_of_def by blast
    with w show ?thesis by (simp add: mock_window_of_def mock_draw_ok_def mock_calls_def mock_tx_bytes_def)
  qed
  have "writes_line js (render w) (mock_tx_bytes w) (mw_slot w) (mock_calls w) \<and> length (mock_tx_bytes w) = 32 \<and>
      mock_calls w \<noteq> [] \<and> length (mock_calls w) \<le> 128" if w: "w \<in> set ws" for w
  proof -
    obtain j where j: "j < length draws" "w = ws ! j" using w ws(2) by (metis in_set_conv_nth)
    then show ?thesis using shape [OF j(1)] json [OF ws(1)] w by (auto simp: list_all_iff)
  qed
  then have lines: "\<forall>w \<in> set ws. writes_line js (render w) (mock_tx_bytes w) (mw_slot w) (mock_calls w) \<and>
      length (mock_tx_bytes w) = 32 \<and> mock_calls w \<noteq> [] \<and> length (mock_calls w) \<le> 128" by blast
  have src: "lines (join_lines (map render ws)) = map render ws"
    using lines by (intro lines_join) (auto simp: writes_line_def)
  have "map (\<lambda>w. length (mock_calls w)) ws = map (\<lambda>d. length (mk_picks d)) draws"
    using ws(2) shape by (intro nth_equalityI) simp_all
  with written_snapshot [OF lines src] ws show ?thesis
    by (intro exI [of _ ws] exI [of _ "join_lines (map render ws)"])
      (simp add: generate_mock_snapshot_def)
qed

definition sample_mock_draw :: mock_draw where
  "sample_mock_draw = \<lparr>mk_tx_id = replicate 32 7, mk_picks = [0, 2, 5]\<rparr>"

definition json_of_mock :: "mock_window \<Rightarrow> json" where
  "json_of_mock w = JObj [(''transaction_id'', JArr (map JNum (mw_transaction_id w))), (''slot'', JNum (mw_slot w)),
     (''events'', JArr (map (\<lambda>e. JObj [(''syscall_id'', JNum (ucast (me_syscall_id e))),
        (''timestamp_ns'', JNum (me_timestamp_ns e))]) (mw_events w)))]"

definition one_mock_ops :: "mock_window \<Rightarrow> json json_ops" where
  "one_mock_ops w = sample_json_ops\<lparr>js_from_str := (\<lambda>t. if t = [123, 125] then Some (json_of_mock w) else None)\<rparr>"

end
