(* ===== verification/ReplayMain.thy ===== *)
theory ReplayMain
  imports MockSnapshot ArrowSerializer
begin

text \<open>
  The \<open>main\<close> of the replay harness, \<open>src/src/bin/replay_harness.rs\<close>: the snapshot file, or the
  synthetic snapshot when there is none, is replayed into the output file.  The file system is a map
  from paths to contents; whether the snapshot can be read and the output created is an argument, as
  are the draws of the random generator and the measured time.  Making the directory of the output
  has no effect on the files and its failure is ignored by the code.
\<close>

section \<open>The program\<close>

record replay_args =
  ra_snapshot :: path
  ra_output :: path

text \<open>What the world answers; the elapsed time is in nanoseconds.\<close>

record replay_world =
  rw_read_ok :: bool
  rw_create_ok :: bool
  rw_draws :: "mock_draw list"
  rw_elapsed :: nat

datatype replay_message =
    Replaying path
  | SnapshotNotFound path
  | ReplayComplete nat nat nat path

type_synonym replay_outcome = "(io_error + unit) \<times> files \<times> replay_message list"

text \<open>
  From the creation of the output on: the file is created empty, and what was written before an
  error of the encoder reaches it when the writer is dropped.
\<close>

definition replay_to_file ::
  "'j json_ops \<Rightarrow> ((transaction_id, trace_event list) fmap \<Rightarrow> transaction_id list) \<Rightarrow> replay_world \<Rightarrow> replay_args \<Rightarrow>
   files \<Rightarrow> replay_message list \<Rightarrow> rust_str \<Rightarrow> replay_outcome" where
  "replay_to_file js order world args fs msgs replay_source =
     (if \<not> rw_create_ok world then (Inl OpenFile, fs, msgs)
      else (case replay js order replay_source of
          Inl s \<Rightarrow> (Inl Serialize, fs(ra_output args \<mapsto> rp_output s), msgs)
        | Inr s \<Rightarrow> (Inr (), fs(ra_output args \<mapsto> rp_output s),
            msgs @ [ReplayComplete (rp_total_events s) (rp_total_txs s) (rw_elapsed world) (ra_output args)])))"

definition replay_main ::
  "'j json_ops \<Rightarrow> ((transaction_id, trace_event list) fmap \<Rightarrow> transaction_id list) \<Rightarrow> profile \<Rightarrow>
   (mock_window \<Rightarrow> rust_str) \<Rightarrow> replay_world \<Rightarrow> replay_args \<Rightarrow> files \<Rightarrow> replay_outcome res" where
  "replay_main js order p to_string world args fs =
     (case fs (ra_snapshot args) of
        Some text \<Rightarrow>
          (let msgs = [Replaying (ra_snapshot args)]
           in if rw_read_ok world then Inr (replay_to_file js order world args fs msgs text)
              else Inr (Inl ReadFile, fs, msgs))
      | None \<Rightarrow>
          (let msgs = [SnapshotNotFound (ra_snapshot args)]
           in res_bind (generate_mock_snapshot p to_string (rw_draws world)) (\<lambda>text.
                Inr (replay_to_file js order world args fs msgs text))))"

section \<open>What a run writes\<close>

lemma replay_to_file_result:
  assumes order: "\<And>m. iter_order m (order m)"
  shows "replay_to_file js order world args fs msgs source =
    (let ws = snapshot_windows js source
     in if \<not> rw_create_ok world then (Inl OpenFile, fs, msgs)
        else if list_all (encodes js) ws
          then (Inr (), fs(ra_output args \<mapsto> written js ws),
            msgs @ [ReplayComplete (snapshot_events js source) (length ws) (rw_elapsed world) (ra_output args)])
        else (Inl Serialize, fs(ra_output args \<mapsto> written js (takeWhile (encodes js) ws)), msgs))"
  using replay_ok [of js source order, OF _ order] replay_fail [of js source order]
  by (auto simp: replay_to_file_def Let_def)

text \<open>The written windows are read back by the reader of the serializer, as both use the same text.\<close>

lemma read_written:
  assumes codec: "\<forall>w \<in> set ws. codec_ok (js_window_to_string js) from_str w"
    and fs: "fs path = Some (written js ws)"
  shows "list_all (encodes js) ws" and "read_windows from_str fs path = Inr ws"
proof -
  show "list_all (encodes js) ws"
    using codec by (auto simp: list_all_iff encodes_def codec_ok_def split: option.splits)
  have "written js ws = encoded (js_window_to_string js) ws"
    by (simp add: written_def encoded_def comp_def)
  then show "read_windows from_str fs path = Inr ws"
    using fs lines_encoded [OF codec] read_loop_ok [OF codec, of "[]"] by (simp add: read_windows_def)
qed

section \<open>Properties\<close>

text \<open>
  C36.  The replay harness on any snapshot file and any encoder of windows.  When all windows encode,
  the output holds, in the order of the lines, the window of every line that parses and has events
  (the first 128 of them), whatever transaction identifiers repeat, and the closing message counts
  these windows and all the events of the parsed lines, also those beyond the first 128 of a line.
  When a window does not encode, the program ends with the error, without the closing message, and
  the output holds the windows before it.  When the snapshot cannot be read or the output not
  created, no file changes.
\<close>

theorem replay_main_correct:
  assumes snapshot: "fs (ra_snapshot args) = Some source" and order: "\<And>m. iter_order m (order m)"
  shows "replay_main js order p to_string world args fs =
    (let ws = List.map_filter (line_window js) (lines source);
         events = sum_list (map (line_count js) (lines source));
         msgs = [Replaying (ra_snapshot args)]
     in Inr (if \<not> rw_read_ok world then (Inl ReadFile, fs, msgs)
             else if \<not> rw_create_ok world then (Inl OpenFile, fs, msgs)
             else if list_all (encodes js) ws
               then (Inr (), fs(ra_output args \<mapsto> written js ws),
                 msgs @ [ReplayComplete events (length ws) (rw_elapsed world) (ra_output args)])
             else (Inl Serialize, fs(ra_output args \<mapsto> written js (takeWhile (encodes js) ws)), msgs)))"
  using replay_to_file_result [where order = order and js = js and source = source, OF order] snapshot
  by (simp add: replay_main_def snapshot_windows_def snapshot_events_def Let_def)

definition sample_world :: "mock_draw list \<Rightarrow> replay_world" where
  "sample_world draws = \<lparr>rw_read_ok = True, rw_create_ok = True, rw_draws = draws, rw_elapsed = 5\<rparr>"

definition sample_replay_args :: replay_args where
  "sample_replay_args = \<lparr>ra_snapshot = [115], ra_output = [111]\<rparr>"

definition sample_files :: files where
  "sample_files = [[115] \<mapsto> [32, 65, 10, 66, 10]]"

theorem replay_main_correct_witness:
  "replay_main sample_json_ops (\<lambda>m. sorted_list_of_fset (fmdom m)) Debug (\<lambda>w. [123, 125]) (sample_world [])
     sample_replay_args sample_files =
   Inr (Inr (), sample_files([111] \<mapsto> [123, 100, 125, 10]), [Replaying [115], ReplayComplete 1 1 5 [111]])"
proof -
  have ls: "lines [32, 65, 10, 66, 10] = [[32, 65], [66]]" by (simp add: lines_def)
  have snap: "sample_files (ra_snapshot sample_replay_args) = Some [32, 65, 10, 66, 10]"
    by (simp add: sample_files_def sample_replay_args_def)
  show ?thesis
    unfolding replay_main_correct [where fs = sample_files and args = sample_replay_args and order = "\<lambda>m. sorted_list_of_fset (fmdom m)", OF snap sorted_fmdom_order] ls
    by (simp add: line_count_def line_window_def line_events_def trim_def is_whitespace_def window_of_def encodes_def
        replay_event_def written_def map_filter_simps u64_or_def sample_json_ops_def sample_world_def
        sample_replay_args_def Let_def)
qed

text \<open>
  C39.  Without a snapshot file the harness replays its synthetic one: whatever is drawn for its 1000
  transactions, the generation never panics, the closing message reports 1000 transactions and all
  the drawn events, and the output file reads back as one window per transaction, in order, with the
  drawn identifier, the drawn syscalls, time stamps 400000 apart from the transaction's millisecond
  on, and the slot advancing once per 432 transactions.
\<close>

theorem replay_without_snapshot:
  assumes missing: "fs (ra_snapshot args) = None"
    and draws: "length (rw_draws world) = 1000" "list_all mock_draw_ok (rw_draws world)"
    and json: "\<And>ws. mock_run p 0 (rw_draws world) = Inr ws \<Longrightarrow>
      list_all (\<lambda>w. writes_line js (to_string w) (mock_tx_bytes w) (mw_slot w) (mock_calls w) \<and>
        codec_ok (js_window_to_string js) from_str (replayed_window (mock_tx_bytes w) (mw_slot w) (mock_calls w))) ws"
    and order: "\<And>m. iter_order m (order m)" and create: "rw_create_ok world"
  shows "\<exists>ws fs'. mock_run p 0 (rw_draws world) = Inr ws \<and> length ws = 1000 \<and>
    (\<forall>j < 1000. mock_window_of j (rw_draws world ! j) (ws ! j)) \<and>
    replay_main js order p to_string world args fs =
      Inr (Inr (), fs', [SnapshotNotFound (ra_snapshot args), ReplayComplete
        (sum_list (map (\<lambda>d. length (mk_picks d)) (rw_draws world))) 1000 (rw_elapsed world) (ra_output args)]) \<and>
    read_windows from_str fs' (ra_output args) =
      Inr (map (\<lambda>w. replayed_window (mock_tx_bytes w) (mw_slot w) (mock_calls w)) ws)"
proof -
  have lines: "list_all (\<lambda>w. writes_line js (to_string w) (mock_tx_bytes w) (mw_slot w) (mock_calls w)) ws"
    if "mock_run p 0 (rw_draws world) = Inr ws" for ws
    using json [OF that] by (simp add: list_all_iff)
  obtain ws source where ws: "mock_run p 0 (rw_draws world) = Inr ws"
    "generate_mock_snapshot p to_string (rw_draws world) = Inr source" "length ws = length (rw_draws world)"
    "\<forall>j < length (rw_draws world). mock_window_of j (rw_draws world ! j) (ws ! j)"
    "snapshot_windows js source = map (\<lambda>w. replayed_window (mock_tx_bytes w) (mw_slot w) (mock_calls w)) ws"
    "snapshot_events js source = sum_list (map (\<lambda>d. length (mk_picks d)) (rw_draws world))"
    using mock_snapshot [of "rw_draws world" p js to_string, OF _ draws(2) lines] draws(1) by auto
  let ?out = "map (\<lambda>w. replayed_window (mock_tx_bytes w) (mw_slot w) (mock_calls w)) ws"
  define fs' where "fs' = fs(ra_output args \<mapsto> written js ?out)"
  have "\<forall>w \<in> set ?out. codec_ok (js_window_to_string js) from_str w"
    using json [OF ws(1)] by (auto simp: list_all_iff)
  note read = read_written [OF this, of fs' "ra_output args"]
  have "replay_main js order p to_string world args fs =
      Inr (Inr (), fs', [SnapshotNotFound (ra_snapshot args), ReplayComplete
        (sum_list (map (\<lambda>d. length (mk_picks d)) (rw_draws world))) 1000 (rw_elapsed world) (ra_output args)])"
    using replay_to_file_result [where order = order and js = js and source = source, OF order] read(1) ws create draws(1) missing
    by (simp add: replay_main_def fs'_def Let_def)
  then show ?thesis using ws(1,3,4) draws(1) read(2) by (auto simp: fs'_def)
qed

text \<open>
  A witness: 1000 equal draws.  A window is written as a number, its first time stamp, which tells the
  windows of the run apart, and parsing looks it up.
\<close>

definition mock_text :: "mock_window \<Rightarrow> rust_str" where
  "mock_text w = [123, 65 + unat (me_timestamp_ns (hd (mw_events w))), 125]"

definition replayed_mock :: "mock_window \<Rightarrow> execution_window" where
  "replayed_mock w = replayed_window (mock_tx_bytes w) (mw_slot w) (mock_calls w)"

definition table_ops :: "mock_window list \<Rightarrow> json json_ops" where
  "table_ops ws = sample_json_ops\<lparr>js_from_str := map_of (map (\<lambda>w. (mock_text w, json_of_mock w)) ws),
     js_window_to_string := (\<lambda>e. Some [123, 65 + unat (ew_start_ts e), 125])\<rparr>"

definition table_from_str :: "mock_window list \<Rightarrow> rust_str \<Rightarrow> execution_window option" where
  "table_from_str ws = map_of (map (\<lambda>w. (mock_text w, replayed_mock w)) ws)"

lemma json_of_mock_reads:
  assumes "mw_transaction_id w = replicate 32 7"
  shows "json_window (table_ops ws) (json_of_mock w) (mock_tx_bytes w) (mw_slot w) (mock_calls w)"
  using assms by (auto simp: json_window_def json_call_def table_ops_def sample_json_ops_def json_of_mock_def
      mock_calls_def mock_tx_bytes_def list_all2_conv_all_nth)

lemma table_lookup:
  assumes "distinct (map mock_text ws)" "w \<in> set ws"
  shows "map_of (map (\<lambda>w. (mock_text w, f w)) ws) (mock_text w) = Some (f w)"
  using assms by (intro map_of_is_SomeI) (auto simp: comp_def)

theorem replay_without_snapshot_witness:
  "\<exists>ws fs'. mock_run Debug 0 (replicate 1000 sample_mock_draw) = Inr ws \<and> length ws = 1000 \<and>
     replay_main (table_ops ws) (\<lambda>m. sorted_list_of_fset (fmdom m)) Debug mock_text
       (sample_world (replicate 1000 sample_mock_draw)) sample_replay_args Map.empty =
       Inr (Inr (), fs', [SnapshotNotFound [115], ReplayComplete 3000 1000 5 [111]]) \<and>
     read_windows (table_from_str ws) fs' [111] = Inr (map replayed_mock ws)"
proof -
  let ?ds = "replicate 1000 sample_mock_draw"
  have ok: "mock_draw_ok sample_mock_draw" by (simp add: sample_mock_draw_def mock_draw_ok_def mock_pool_def list_all_iff)
  then have draws: "length (rw_draws (sample_world ?ds)) = 1000" "list_all mock_draw_ok (rw_draws (sample_world ?ds))"
    by (simp_all add: sample_world_def list_all_iff)
  obtain ws where ws: "mock_run Debug 0 ?ds = Inr ws" "length ws = 1000"
    "\<forall>j < 1000. mock_window_of j sample_mock_draw (ws ! j)"
    using mock_run_ok [of 0 ?ds Debug] ok by (auto simp: list_all_iff)
  have mt: "mock_text (ws ! j) = [123, 65 + j * 1000000, 125]" if "j < 1000" for j
    using ws(3) that by (cases "mw_events (ws ! j)")
      (auto simp: mock_window_of_def mock_text_def sample_mock_draw_def upt_rec)
  have w: "mw_transaction_id w = replicate 32 7 \<and> mw_events w \<noteq> []" if "w \<in> set ws" for w
    using ws that by (auto simp: in_set_conv_nth mock_window_of_def sample_mock_draw_def)
  have dist: "distinct (map mock_text ws)"
    using ws(2) mt by (auto simp: distinct_conv_nth)
  have json: "list_all (\<lambda>w. writes_line (table_ops ws) (mock_text w) (mock_tx_bytes w) (mw_slot w) (mock_calls w) \<and>
      codec_ok (js_window_to_string (table_ops ws)) (table_from_str ws)
        (replayed_window (mock_tx_bytes w) (mw_slot w) (mock_calls w))) ws"
  proof -
    have "writes_line (table_ops ws) (mock_text w) (mock_tx_bytes w) (mw_slot w) (mock_calls w)"
      if "w \<in> set ws" for w
      using json_of_mock_reads [of w ws] w [OF that] table_lookup [OF dist that, of json_of_mock]
      by (simp add: writes_line_def table_ops_def mock_text_def trim_def is_whitespace_def)
    moreover have "codec_ok (js_window_to_string (table_ops ws)) (table_from_str ws) (replayed_mock w)"
      if "w \<in> set ws" for w
      using w [OF that] table_lookup [OF dist that, of replayed_mock]
      by (auto simp: codec_ok_def table_ops_def table_from_str_def replayed_mock_def replayed_window_def
          mock_text_def mock_calls_def hd_map trim_def is_whitespace_def)
    ultimately show ?thesis by (simp add: list_all_iff replayed_mock_def)
  qed
  have missing: "Map.empty (ra_snapshot sample_replay_args) = (None :: rust_str option)" by simp
  have create: "rw_create_ok (sample_world ?ds)" by (simp add: sample_world_def)
  have json': "list_all (\<lambda>w. writes_line (table_ops ws) (mock_text w) (mock_tx_bytes w) (mw_slot w) (mock_calls w) \<and>
      codec_ok (js_window_to_string (table_ops ws)) (table_from_str ws)
        (replayed_window (mock_tx_bytes w) (mw_slot w) (mock_calls w))) ws'"
    if "mock_run Debug 0 (rw_draws (sample_world ?ds)) = Inr ws'" for ws'
    using that ws(1) json by (simp add: sample_world_def)
  have eq: "replayed_mock = (\<lambda>w. replayed_window (mock_tx_bytes w) (mw_slot w) (mock_calls w))"
    by (simp add: fun_eq_iff replayed_mock_def)
  show ?thesis
    using replay_without_snapshot [where p = Debug and fs = Map.empty and args = sample_replay_args and order = "\<lambda>m. sorted_list_of_fset (fmdom m)",
        OF missing draws json' sorted_fmdom_order create] ws(1)
    by (auto simp: sample_world_def sample_replay_args_def sample_mock_draw_def sum_list_replicate eq)
qed

end
