(* ===== verification/WorkloadGenerator.thy ===== *)
theory WorkloadGenerator
  imports Common Floats
begin

text \<open>
  The workload generator, \<open>src/src/bin/workload_generator.rs\<close>.  The draws of the random number
  generator, a crate outside the repository, are an argument: one record per transaction.  The
  windows are the records whose JSON text the program writes; the writing is in \<open>WorkloadMain\<close>.
\<close>

section \<open>The generator\<close>

datatype workload_profile = DeFi | Nft | TokenTransfer

text \<open>What the generator draws for a transaction; \<open>dr_picks\<close> are the indices into \<open>CRYPTO\<close>.\<close>

record draw =
  dr_r :: f64
  dr_n :: nat
  dr_picks :: "nat \<Rightarrow> nat"
  dr_tx_id :: transaction_id

definition CRYPTO :: "syscall_id list" where
  "CRYPTO = [SOL_SHA256, SOL_KECCAK256, SOL_SECP256K1_RECOVER]"

fun generate_syscall_sequence :: "workload_profile \<Rightarrow> draw \<Rightarrow> syscall_id list" where
  "generate_syscall_sequence DeFi d =
     [SOL_GET_CLOCK_SYSVAR, SOL_GET_RENT_SYSVAR] @ map (\<lambda>i. CRYPTO ! dr_picks d i) [0..<dr_n d] @
     [SOL_INVOKE_SIGNED, SOL_LOG]"
| "generate_syscall_sequence Nft d =
     [SOL_GET_CLOCK_SYSVAR] @ replicate (dr_n d) SOL_LOG @ [SOL_SHA256, SOL_INVOKE_SIGNED, SOL_SET_RETURN_DATA]"
| "generate_syscall_sequence TokenTransfer d =
     [SOL_GET_CLOCK_SYSVAR, SOL_GET_RENT_SYSVAR, SOL_LOG, SOL_INVOKE_SIGNED, SOL_SET_RETURN_DATA]"

definition pick_profile :: "f64 \<Rightarrow> workload_profile" where
  "pick_profile r =
     (if r < to_fp (5 / 10) then DeFi
      else if r < to_fp (5 / 10) + to_fp (3 / 10) then Nft
      else TokenTransfer)"

record workload_event =
  we_syscall_id :: syscall_id
  we_args_hash :: u64
  we_timestamp_ns :: u64
  we_slot :: u64
  we_depth :: u8

record workload_window =
  ww_transaction_id :: transaction_id
  ww_slot :: u64
  ww_events :: "workload_event list"
  ww_start_ts :: u64
  ww_end_ts :: u64

definition interval :: u64 where
  "interval = 400000"

text \<open>The events of transaction \<open>tx_idx\<close>, from index \<open>i\<close> on.\<close>

fun make_events :: "profile \<Rightarrow> nat \<Rightarrow> u64 \<Rightarrow> u64 \<Rightarrow> nat \<Rightarrow> syscall_id list \<Rightarrow> workload_event list res" where
  "make_events p tx_idx slot ts i [] = Inr []"
| "make_events p tx_idx slot ts i (sid # sids) =
     res_bind (mul_u64 p (of_nat i) interval) (\<lambda>offset.
     res_bind (add_u64 p ts offset) (\<lambda>event_ts.
     res_bind (mul_u64 p (ucast sid) 7919) (\<lambda>a.
     res_bind (mul_u64 p (of_nat tx_idx) 31) (\<lambda>b.
     res_bind (make_events p tx_idx slot ts (i + 1) sids) (\<lambda>es.
       Inr (\<lparr>we_syscall_id = sid, we_args_hash = a XOR b, we_timestamp_ns = event_ts, we_slot = slot,
             we_depth = 0\<rparr> # es))))))"

text \<open>
  One iteration of the main loop, and the loop.  An iteration makes the window, which is then
  written, and afterwards advances the time stamp and the slot.
\<close>

definition make_window :: "profile \<Rightarrow> nat \<Rightarrow> u64 \<times> u64 \<Rightarrow> syscall_id list \<Rightarrow> transaction_id \<Rightarrow> workload_window res" where
  "make_window p tx_idx st syscall_ids tx_id =
     (let (slot, ts) = st
      in res_bind (make_events p tx_idx slot ts 0 syscall_ids) (\<lambda>events.
         res_bind (mul_u64 p (of_nat (length syscall_ids)) interval) (\<lambda>span.
         res_bind (add_u64 p ts span) (\<lambda>end_ts.
           Inr \<lparr>ww_transaction_id = tx_id, ww_slot = slot, ww_events = events, ww_start_ts = ts,
                ww_end_ts = end_ts\<rparr>))))"

definition advance :: "profile \<Rightarrow> nat \<Rightarrow> u64 \<times> u64 \<Rightarrow> syscall_id list \<Rightarrow> (u64 \<times> u64) res" where
  "advance p tx_idx st syscall_ids =
     (let (slot, ts) = st
      in res_bind (mul_u64 p (of_nat (length syscall_ids)) interval) (\<lambda>span.
         res_bind (add_u64 p span 50000) (\<lambda>gap.
         res_bind (add_u64 p ts gap) (\<lambda>ts'.
         res_bind (if tx_idx mod 432 = 0 then add_u64 p slot 1 else Inr slot) (\<lambda>slot'.
           Inr (slot', ts'))))))"

definition workload_tx ::
  "profile \<Rightarrow> nat \<Rightarrow> u64 \<times> u64 \<Rightarrow> draw \<Rightarrow> (workload_window \<times> u64 \<times> u64) res" where
  "workload_tx p tx_idx st d =
     (let syscall_ids = generate_syscall_sequence (pick_profile (dr_r d)) d
      in res_bind (make_window p tx_idx st syscall_ids (dr_tx_id d)) (\<lambda>w.
         res_bind (advance p tx_idx st syscall_ids) (\<lambda>st'. Inr (w, st'))))"

fun workload_run ::
  "profile \<Rightarrow> nat \<Rightarrow> u64 \<times> u64 \<Rightarrow> draw list \<Rightarrow> (workload_window list \<times> u64 \<times> u64) res" where
  "workload_run p tx_idx st [] = Inr ([], st)"
| "workload_run p tx_idx st (d # ds) =
     res_bind (workload_tx p tx_idx st d) (\<lambda>(w, st').
       res_bind (workload_run p (tx_idx + 1) st' ds) (\<lambda>(ws, st''). Inr (w # ws, st'')))"

definition generate_workload :: "profile \<Rightarrow> draw list \<Rightarrow> (workload_window list \<times> u64 \<times> u64) res" where
  "generate_workload p draws = workload_run p 0 (280000000, 1700000000000000000) draws"

section \<open>The ranges of the draws\<close>

fun draw_ok :: "draw \<Rightarrow> bool" where
  "draw_ok d \<longleftrightarrow> (case pick_profile (dr_r d) of
       DeFi \<Rightarrow> 2 \<le> dr_n d \<and> dr_n d < 8
     | Nft \<Rightarrow> 3 \<le> dr_n d \<and> dr_n d < 10
     | TokenTransfer \<Rightarrow> True)"

lemma sequence_length:
  "draw_ok d \<Longrightarrow> 5 \<le> length (generate_syscall_sequence (pick_profile (dr_r d)) d) \<and>
     length (generate_syscall_sequence (pick_profile (dr_r d)) d) \<le> 13"
  by (cases "pick_profile (dr_r d)") auto

lemma ucast_u32_fits: "unat (ucast (sid :: u32) :: u64) * 7919 < 2 ^ 64"
proof -
  have "unat sid < 2 ^ LENGTH(32)" by (rule unsigned_less)
  then have u: "unat sid < 2 ^ 32" by simp
  then have "unat (ucast sid :: u64) = unat sid"
    by (simp add: unsigned_ucast_eq take_bit_nat_eq_self)
  with u show ?thesis by simp
qed

lemma make_events_ok:
  assumes "unat ts + (i + length sids) * 400000 < 2 ^ 64" "tx_idx * 31 < 2 ^ 64"
  shows "\<exists>es. make_events p tx_idx slot ts i sids = Inr es \<and>
    map (\<lambda>e. unat (we_timestamp_ns e)) es = map (\<lambda>k. unat ts + k * 400000) [i..<i + length sids] \<and>
    (\<forall>e \<in> set es. we_slot e = slot)"
  using assms(1)
proof (induction sids arbitrary: i)
  case Nil
  then show ?case by simp
next
  case (Cons sid sids)
  have i: "unat (of_nat i :: u64) = i" using Cons.prems by (intro unat_of_nat_u64) simp
  have m: "mul_u64 p (of_nat i) interval = Inr (of_nat i * interval)"
    "unat (of_nat i * interval) = i * 400000"
    using Cons.prems i by (auto simp: interval_def intro!: mul_u64_fits trans [OF unat_times_u64_fits])
  have t: "add_u64 p ts (of_nat i * interval) = Inr (ts + of_nat i * interval)"
    "unat (ts + of_nat i * interval) = unat ts + i * 400000"
    using Cons.prems m(2) by (auto intro!: add_u64_fits trans [OF unat_plus_u64_fits])
  have a: "mul_u64 p (ucast sid) 7919 = Inr (ucast sid * 7919)"
    using ucast_u32_fits [of sid] by (intro mul_u64_fits) simp
  have b: "mul_u64 p (of_nat tx_idx) 31 = Inr (of_nat tx_idx * 31)"
    using assms(2) unat_of_nat_u64 [of tx_idx] by (intro mul_u64_fits) simp
  obtain es where "make_events p tx_idx slot ts (i + 1) sids = Inr es"
    "map (\<lambda>e. unat (we_timestamp_ns e)) es = map (\<lambda>k. unat ts + k * 400000) [i + 1..<i + 1 + length sids]"
    "\<forall>e \<in> set es. we_slot e = slot"
    using Cons.IH [of "i + 1"] Cons.prems by auto
  moreover have "[i..<i + length (sid # sids)] = i # [i + 1..<i + 1 + length sids]"
    by (simp add: upt_conv_Cons del: upt_Suc)
  ultimately show ?case using m(1) t a b by (simp del: upt_Suc)
qed

section \<open>Time stamps and slots\<close>

text \<open>
  A window: five to thirteen events, all of its slot, the first at its start and the last one
  interval before its end.
\<close>

definition window_shape :: "workload_window \<Rightarrow> bool" where
  "window_shape w \<longleftrightarrow> 5 \<le> length (ww_events w) \<and> length (ww_events w) \<le> 13 \<and>
     we_timestamp_ns (hd (ww_events w)) = ww_start_ts w \<and>
     unat (ww_end_ts w) = unat (we_timestamp_ns (last (ww_events w))) + 400000 \<and>
     (\<forall>e \<in> set (ww_events w). we_slot e = ww_slot w)"

definition times :: "workload_window list \<Rightarrow> nat list" where
  "times ws = map (\<lambda>e. unat (we_timestamp_ns e)) (concat (map ww_events ws))"

lemma workload_tx_ok:
  assumes "draw_ok d" "unat ts + 5250000 < 2 ^ 64" "unat slot + 1 < 2 ^ 64" "tx_idx * 31 < 2 ^ 64"
  shows "\<exists>w slot' ts' n. workload_tx p tx_idx (slot, ts) d = Inr (w, slot', ts') \<and> n \<le> 13 \<and>
    times [w] = map (\<lambda>k. unat ts + k * 400000) [0..<n] \<and> window_shape w \<and> ww_slot w = slot \<and>
    unat ts' = unat ts + n * 400000 + 50000 \<and>
    unat slot' = unat slot + (if tx_idx mod 432 = 0 then 1 else 0)"
proof -
  let ?ids = "generate_syscall_sequence (pick_profile (dr_r d)) d"
  define n where "n = length ?ids"
  have n: "5 \<le> n" "n \<le> 13" using sequence_length [OF assms(1)] by (simp_all add: n_def)
  obtain es where es: "make_events p tx_idx slot ts 0 ?ids = Inr es"
    "map (\<lambda>e. unat (we_timestamp_ns e)) es = map (\<lambda>k. unat ts + k * 400000) [0..<n]"
    "\<forall>e \<in> set es. we_slot e = slot"
    using make_events_ok [of ts 0 ?ids tx_idx p slot] assms(2,4) n by (auto simp: n_def)
  have len: "length es = n" using arg_cong [OF es(2), of length] by simp
  have at: "unat (we_timestamp_ns (es ! k)) = unat ts + k * 400000" if "k < n" for k
    using arg_cong [OF es(2), of "\<lambda>l. l ! k"] that len by simp
  have ends: "we_timestamp_ns (hd es) = ts" "unat (we_timestamp_ns (last es)) + 400000 = unat ts + n * 400000"
    using at [of 0] at [of "n - 1"] n len
    by (simp_all add: hd_conv_nth last_conv_nth word_unat_eq_iff flip: length_greater_0_conv)
  let ?span = "of_nat n * interval"
  have i: "unat (of_nat n :: u64) = n" using n by (intro unat_of_nat_u64) simp
  have span: "mul_u64 p (of_nat n) interval = Inr ?span" "unat ?span = n * 400000"
    using n i by (auto simp: interval_def intro!: mul_u64_fits trans [OF unat_times_u64_fits])
  have e: "add_u64 p ts ?span = Inr (ts + ?span)" "unat (ts + ?span) = unat ts + n * 400000"
    using assms(2) n span(2) by (auto intro!: add_u64_fits trans [OF unat_plus_u64_fits])
  have gap: "add_u64 p ?span 50000 = Inr (?span + 50000)" "unat (?span + 50000) = n * 400000 + 50000"
    using n span(2) by (auto intro!: add_u64_fits trans [OF unat_plus_u64_fits])
  have t: "add_u64 p ts (?span + 50000) = Inr (ts + (?span + 50000))"
    "unat (ts + (?span + 50000)) = unat ts + n * 400000 + 50000"
    using assms(2) n gap(2) by (auto intro!: add_u64_fits trans [OF unat_plus_u64_fits])
  have s: "add_u64 p slot 1 = Inr (slot + 1)" "unat (slot + 1) = unat slot + 1"
    using assms(3) by (auto intro!: add_u64_fits trans [OF unat_plus_u64_fits])
  let ?w = "\<lparr>ww_transaction_id = dr_tx_id d, ww_slot = slot, ww_events = es, ww_start_ts = ts, ww_end_ts = ts + ?span\<rparr>"
  have "window_shape ?w" using n len ends e(2) es(3) by (simp add: window_shape_def)
  moreover have "times [?w] = map (\<lambda>k. unat ts + k * 400000) [0..<n]" using es(2) by (simp add: times_def)
  moreover have "workload_tx p tx_idx (slot, ts) d =
      Inr (?w, (if tx_idx mod 432 = 0 then slot + 1 else slot), ts + (?span + 50000))"
    using es(1) span(1) e(1) gap(1) t(1) s(1) by (simp add: workload_tx_def make_window_def advance_def Let_def n_def)
  ultimately show ?thesis using n(2) t(2) s(2)
    by (intro exI [of _ ?w] exI [of _ "if tx_idx mod 432 = 0 then slot + 1 else slot"]
        exI [of _ "ts + (?span + 50000)"] exI [of _ n]) simp
qed

lemma times_Cons: "times (w # ws) = times [w] @ times ws" and times_Nil [simp]: "times [] = []"
  by (simp_all add: times_def)

definition spread :: "nat \<Rightarrow> nat \<Rightarrow> workload_window list \<Rightarrow> bool" where
  "spread t s ws \<longleftrightarrow> sorted_wrt (<) (times ws) \<and> (\<forall>x \<in> set (times ws). t \<le> x) \<and>
     sorted (map (\<lambda>w. unat (ww_slot w)) ws) \<and> (\<forall>w \<in> set ws. s \<le> unat (ww_slot w))"

lemma spread_Cons:
  assumes "spread t' s' ws" "times [w] = map (\<lambda>k. t + k * 400000) [0..<n]" "t + n * 400000 \<le> t'"
    "unat (ww_slot w) = s" "s \<le> s'"
  shows "spread t s (w # ws)"
proof -
  have le: "x < t'" if "x \<in> set (times [w])" for x using that assms(2,3) by auto
  have "sorted_wrt (<) (map (\<lambda>k. t + k * 400000) [0..<n])"
    by (simp add: sorted_wrt_map sorted_wrt_iff_nth_less)
  then show ?thesis
    using assms le unfolding spread_def times_Cons [of w ws]
    by (fastforce simp: sorted_wrt_append)
qed

lemma workload_run_ok:
  assumes "list_all draw_ok ds" "unat ts + length ds * 5250000 < 2 ^ 64" "unat slot + length ds < 2 ^ 64"
    "(i + length ds) * 31 < 2 ^ 64"
  shows "\<exists>ws slot' ts'. workload_run p i (slot, ts) ds = Inr (ws, slot', ts') \<and> length ws = length ds \<and>
    list_all window_shape ws \<and> spread (unat ts) (unat slot) ws \<and>
    unat slot' = unat slot + length (filter (\<lambda>k. k mod 432 = 0) [i..<i + length ds])"
  using assms
proof (induction ds arbitrary: i slot ts)
  case Nil
  then show ?case by (simp add: spread_def)
next
  case (Cons d ds)
  obtain w slot1 ts1 n where w: "workload_tx p i (slot, ts) d = Inr (w, slot1, ts1)" "n \<le> 13"
    "times [w] = map (\<lambda>k. unat ts + k * 400000) [0..<n]" "window_shape w" "ww_slot w = slot"
    "unat ts1 = unat ts + n * 400000 + 50000"
    "unat slot1 = unat slot + (if i mod 432 = 0 then 1 else 0)"
    using workload_tx_ok [of d ts slot i p] Cons.prems by (auto split: if_splits)
  obtain ws slot' ts' where r: "workload_run p (i + 1) (slot1, ts1) ds = Inr (ws, slot', ts')"
    "length ws = length ds" "list_all window_shape ws" "spread (unat ts1) (unat slot1) ws"
    "unat slot' = unat slot1 + length (filter (\<lambda>k. k mod 432 = 0) [i + 1..<i + 1 + length ds])"
    using Cons.IH [of ts1 slot1 "i + 1"] Cons.prems w(2,6,7) by (auto split: if_splits)
  have "spread (unat ts) (unat slot) (w # ws)"
    using w r(4) by (intro spread_Cons [OF r(4) w(3)]) simp_all
  moreover have "[i..<i + length (d # ds)] = i # [i + 1..<i + 1 + length ds]"
    by (simp add: upt_conv_Cons del: upt_Suc)
  ultimately show ?case using w r by (simp del: upt_Suc)
qed

section \<open>The whole workload\<close>

text \<open>
  For any draws in their ranges and up to \<open>10 ^ 12\<close> transactions no arithmetic overflows, in either
  build.
\<close>

lemma generate_workload_ok:
  assumes "list_all draw_ok draws" and "length draws \<le> 10 ^ 12"
  shows "\<exists>ws slot ts. generate_workload p draws = Inr (ws, slot, ts) \<and> length ws = length draws \<and>
    list_all window_shape ws \<and> sorted_wrt (<) (times ws) \<and> sorted (map (\<lambda>w. unat (ww_slot w)) ws) \<and>
    unat slot = 280000000 + length (filter (\<lambda>k. k mod 432 = 0) [0..<length draws])"
proof -
  have "unat (1700000000000000000 :: u64) + length draws * 5250000 < 2 ^ 64"
    "unat (280000000 :: u64) + length draws < 2 ^ 64" "(0 + length draws) * 31 < 2 ^ 64"
    using assms(2) by simp_all
  from workload_run_ok [OF assms(1) this, of p] show ?thesis
    by (auto simp: generate_workload_def spread_def)
qed

definition sample_draw :: "f64 \<Rightarrow> draw" where
  "sample_draw r = \<lparr>dr_r = r, dr_n = 5, dr_picks = (\<lambda>i. i mod 3), dr_tx_id = zero_tx_id\<rparr>"

end
