(* ===== verification/WorkloadMain.thy ===== *)
theory WorkloadMain
  imports WorkloadGenerator ArrowSerializer
begin

text \<open>
  The \<open>main\<close> of the workload generator, \<open>src/src/bin/workload_generator.rs\<close>: the windows are written
  as they are generated, one line each, with a progress line after every 100000 transactions.  The
  JSON text of a window is that of the crate \<open>serde_json\<close>, an argument (\<open>None\<close> is an error), and so
  is whether the output file can be created.  Making the directory of the output has no effect on the
  files and its failure is ignored by the code; what is in the file after a panic is not modelled.
\<close>

section \<open>The program\<close>

record workload_args =
  wa_transactions :: nat
  wa_output :: path

datatype workload_message =
    Generated nat nat
  | Done path

text \<open>
  The loop \<open>for tx_idx in 0..args.transactions\<close>, over the indices left: its result, what was written,
  and the progress lines.  \<open>rng tx_idx\<close> is what is drawn in iteration \<open>tx_idx\<close>.
\<close>

fun workload_loop ::
  "profile \<Rightarrow> (workload_window \<Rightarrow> rust_str option) \<Rightarrow> nat \<Rightarrow> (nat \<Rightarrow> draw) \<Rightarrow> u64 \<times> u64 \<Rightarrow> nat list \<Rightarrow> rust_str \<Rightarrow>
   workload_message list \<Rightarrow> ((io_error + unit) \<times> rust_str \<times> workload_message list) res" where
  "workload_loop p to_string transactions rng st [] out msgs = Inr (Inr (), out, msgs)"
| "workload_loop p to_string transactions rng st (tx_idx # rest) out msgs =
     (let d = rng tx_idx;
          syscall_ids = generate_syscall_sequence (pick_profile (dr_r d)) d
      in res_bind (make_window p tx_idx st syscall_ids (dr_tx_id d)) (\<lambda>window.
           case to_string window of
             None \<Rightarrow> Inr (Inl Serialize, out, msgs)
           | Some t \<Rightarrow>
               res_bind (advance p tx_idx st syscall_ids) (\<lambda>st'.
                 workload_loop p to_string transactions rng st' rest (out @ t @ [10])
                   (msgs @ (if (tx_idx + 1) mod 100000 = 0 then [Generated (tx_idx + 1) transactions] else [])))))"

text \<open>The file is created empty; what was written before an error reaches it when the writer is dropped.\<close>

definition workload_main ::
  "profile \<Rightarrow> (workload_window \<Rightarrow> rust_str option) \<Rightarrow> bool \<Rightarrow> workload_args \<Rightarrow> (nat \<Rightarrow> draw) \<Rightarrow> files \<Rightarrow>
   ((io_error + unit) \<times> files \<times> workload_message list) res" where
  "workload_main p to_string create_ok args rng fs =
     (if \<not> create_ok then Inr (Inl OpenFile, fs, [])
      else res_bind (workload_loop p to_string (wa_transactions args) rng (280000000, 1700000000000000000)
          [0..<wa_transactions args] [] [])
        (\<lambda>(r, out, msgs).
          Inr (r, fs(wa_output args \<mapsto> out), msgs @ (case r of Inl e \<Rightarrow> [] | Inr _ \<Rightarrow> [Done (wa_output args)]))))"

section \<open>What it writes\<close>

definition workload_file :: "(workload_window \<Rightarrow> rust_str) \<Rightarrow> workload_window list \<Rightarrow> rust_str" where
  "workload_file render ws = concat (map (\<lambda>w. render w @ [10]) ws)"

text \<open>The progress lines of transactions \<open>i\<close> to \<open>i + n\<close> of \<open>total\<close>.\<close>

definition progress :: "nat \<Rightarrow> nat \<Rightarrow> nat \<Rightarrow> workload_message list" where
  "progress transactions i n = map (\<lambda>k. Generated k transactions) (filter (\<lambda>k. k mod 100000 = 0) [i + 1..<i + 1 + n])"

lemma progress_0 [simp]: "progress transactions i 0 = []"
  by (simp add: progress_def)

lemma progress_Suc:
  "progress transactions i (Suc n) =
     (if (i + 1) mod 100000 = 0 then [Generated (i + 1) transactions] else []) @ progress transactions (i + 1) n"
proof -
  have "[i + 1..<i + 1 + Suc n] = (i + 1) # [i + 1 + 1..<i + 1 + 1 + n]"
    by (simp add: upt_conv_Cons del: upt_Suc)
  then show ?thesis by (simp add: progress_def del: upt_Suc)
qed

lemma workload_loop_run:
  fixes to_string :: "workload_window \<Rightarrow> rust_str option"
  assumes "workload_run p i st (map rng [i..<i + n]) = Inr (ws, st')"
  defines "enc \<equiv> takeWhile (\<lambda>w. to_string w \<noteq> None) ws"
  shows "workload_loop p to_string transactions rng st [i..<i + n] out msgs =
    Inr (if enc = ws then Inr () else Inl Serialize, out @ workload_file (\<lambda>w. the (to_string w)) enc,
      msgs @ progress transactions i (length enc))"
  using assms(1) unfolding enc_def
proof (induction n arbitrary: i st ws out msgs)
  case 0
  then show ?case by (simp add: workload_file_def)
next
  case (Suc n)
  let ?ids = "generate_syscall_sequence (pick_profile (dr_r (rng i))) (rng i)"
  have upt: "[i..<i + Suc n] = i # [i + 1..<i + 1 + n]" by (simp add: upt_conv_Cons del: upt_Suc)
  obtain w st1 ws1 where w: "make_window p i st ?ids (dr_tx_id (rng i)) = Inr w" "advance p i st ?ids = Inr st1"
    "workload_run p (i + 1) st1 (map rng [i + 1..<i + 1 + n]) = Inr (ws1, st')" "ws = w # ws1"
    using Suc.prems unfolding upt by (auto simp: res_bind_Inr_iff workload_tx_def Let_def)
  show ?case
  proof (cases "to_string w")
    case None
    then show ?thesis unfolding upt using w by (simp add: Let_def workload_file_def)
  next
    case (Some t)
    then show ?thesis
      unfolding upt using w Suc.IH [OF w(3)] by (simp add: Let_def workload_file_def progress_Suc del: upt_Suc)
  qed
qed

section \<open>Properties\<close>

text \<open>
  C37.  The workload generator, for any draws in their ranges and up to \<open>10 ^ 12\<close> transactions.  No
  arithmetic overflows, in either build: one window is generated per transaction, of five to
  thirteen events, with its start and end stamps an interval around them; over the whole file the
  time stamps strictly increase and the slots never decrease, and the slot advances once per 432
  transactions, at the first, the 433rd and so on.  The output file holds one line per window, in
  order, and every multiple of 100000 is reported; if a window cannot be encoded the program ends
  with the error and the file holds the lines before it; if the file cannot be created nothing is
  written.
\<close>

theorem workload_main_correct:
  fixes rng :: "nat \<Rightarrow> draw" and args :: workload_args
  defines "n \<equiv> wa_transactions args"
  assumes "\<forall>i < n. draw_ok (rng i)" and "n \<le> 10 ^ 12"
  shows "\<exists>ws slot ts. generate_workload p (map rng [0..<n]) = Inr (ws, slot, ts) \<and> length ws = n \<and>
    list_all window_shape ws \<and> sorted_wrt (<) (times ws) \<and> sorted (map (\<lambda>w. unat (ww_slot w)) ws) \<and>
    unat slot = 280000000 + length (filter (\<lambda>k. k mod 432 = 0) [0..<n]) \<and>
    workload_main p to_string create_ok args rng fs =
      (let enc = takeWhile (\<lambda>w. to_string w \<noteq> None) ws;
           fs' = fs(wa_output args \<mapsto> workload_file (\<lambda>w. the (to_string w)) enc);
           msgs = progress n 0 (length enc)
       in if \<not> create_ok then Inr (Inl OpenFile, fs, [])
          else if enc = ws then Inr (Inr (), fs', msgs @ [Done (wa_output args)])
          else Inr (Inl Serialize, fs', msgs))"
proof -
  let ?draws = "map rng [0..<n]"
  have "list_all draw_ok ?draws" "length ?draws \<le> 10 ^ 12"
    using assms(2,3) by (simp_all add: list_all_iff del: draw_ok.simps)
  from generate_workload_ok [OF this, of p]
  obtain ws slot ts where ws: "generate_workload p ?draws = Inr (ws, slot, ts)" "length ws = n"
    "list_all window_shape ws" "sorted_wrt (<) (times ws)" "sorted (map (\<lambda>w. unat (ww_slot w)) ws)"
    "unat slot = 280000000 + length (filter (\<lambda>k. k mod 432 = 0) [0..<n])"
    by (auto simp del: draw_ok.simps)
  have "workload_run p 0 (280000000, 1700000000000000000) (map rng [0..<0 + n]) = Inr (ws, slot, ts)"
    using ws(1) by (simp add: generate_workload_def)
  note loop = workload_loop_run [OF this, of to_string "wa_transactions args" "[]" "[]"]
  then have "workload_main p to_string create_ok args rng fs =
      (let enc = takeWhile (\<lambda>w. to_string w \<noteq> None) ws;
           fs' = fs(wa_output args \<mapsto> workload_file (\<lambda>w. the (to_string w)) enc);
           msgs = progress n 0 (length enc)
       in if \<not> create_ok then Inr (Inl OpenFile, fs, [])
          else if enc = ws then Inr (Inr (), fs', msgs @ [Done (wa_output args)])
          else Inr (Inl Serialize, fs', msgs))"
    by (auto simp: workload_main_def n_def Let_def)
  with ws show ?thesis by blast
qed

text \<open>Two transactions, the second of which the encoder refuses.\<close>

definition sample_render :: "workload_window \<Rightarrow> rust_str option" where
  "sample_render w = (if ww_slot w = 280000000 then Some [123, 125] else None)"

definition sample_rng :: "nat \<Rightarrow> draw" where
  "sample_rng i = sample_draw (if i = 0 then 0 else to_fp (9 / 10))"

lemma sample_rng_ok: "draw_ok (sample_rng i)"
  by (simp add: sample_rng_def sample_draw_def split: workload_profile.split)

theorem workload_main_correct_witness:
  "\<exists>ws slot ts. generate_workload Debug [sample_draw 0, sample_draw (to_fp (9 / 10))] = Inr (ws, slot, ts) \<and>
     length ws = 2 \<and> unat slot = 280000001 \<and>
     workload_main Debug sample_render True \<lparr>wa_transactions = 2, wa_output = [111]\<rparr> sample_rng Map.empty =
       (let enc = takeWhile (\<lambda>w. sample_render w \<noteq> None) ws;
            fs' = [[111] \<mapsto> workload_file (\<lambda>w. the (sample_render w)) enc]
        in if enc = ws then Inr (Inr (), fs', [Done [111]]) else Inr (Inl Serialize, fs', []))"
proof -
  let ?args = "\<lparr>wa_transactions = 2, wa_output = [111]\<rparr> :: workload_args"
  have small: "\<forall>i < wa_transactions ?args. draw_ok (sample_rng i)" "wa_transactions ?args \<le> 10 ^ 12"
    using sample_rng_ok by simp_all
  have draws: "map sample_rng [0..<2] = [sample_draw 0, sample_draw (to_fp (9 / 10))]"
    by (simp add: upt_rec sample_rng_def)
  obtain ws slot ts where ws: "generate_workload Debug (map sample_rng [0..<wa_transactions ?args]) = Inr (ws, slot, ts)"
    "length ws = wa_transactions ?args"
    "unat slot = 280000000 + length (filter (\<lambda>k. k mod 432 = 0) [0..<wa_transactions ?args])"
    "workload_main Debug sample_render True ?args sample_rng Map.empty =
      (let enc = takeWhile (\<lambda>w. sample_render w \<noteq> None) ws;
           fs' = Map.empty(wa_output ?args \<mapsto> workload_file (\<lambda>w. the (sample_render w)) enc);
           msgs = progress (wa_transactions ?args) 0 (length enc)
       in if \<not> True then Inr (Inl OpenFile, Map.empty, [])
          else if enc = ws then Inr (Inr (), fs', msgs @ [Done (wa_output ?args)])
          else Inr (Inl Serialize, fs', msgs))"
    using workload_main_correct [OF small, of Debug sample_render True Map.empty] by blast
  have "length (takeWhile (\<lambda>w. sample_render w \<noteq> None) ws) \<le> 2"
    using length_takeWhile_le [of "\<lambda>w. sample_render w \<noteq> None" ws] ws(2) by simp
  then have none: "progress 2 0 (length (takeWhile (\<lambda>w. sample_render w \<noteq> None) ws)) = []"
    by (auto simp: progress_def filter_empty_conv)
  have "length (filter (\<lambda>k. k mod 432 = 0) [0..<2]) = 1" by (simp add: upt_rec)
  then have "unat slot = 280000001" using ws(3) by simp
  moreover have "generate_workload Debug [sample_draw 0, sample_draw (to_fp (9 / 10))] = Inr (ws, slot, ts)"
    using ws(1) draws by simp
  moreover have "length ws = 2" using ws(2) by simp
  moreover have "workload_main Debug sample_render True ?args sample_rng Map.empty =
      (let enc = takeWhile (\<lambda>w. sample_render w \<noteq> None) ws;
           fs' = [[111] \<mapsto> workload_file (\<lambda>w. the (sample_render w)) enc]
       in if enc = ws then Inr (Inr (), fs', [Done [111]]) else Inr (Inl Serialize, fs', []))"
    using ws(4) none by (simp add: Let_def)
  ultimately show ?thesis by blast
qed

end
