(* ===== verification/WorkloadReplay.thy ===== *)
theory WorkloadReplay
  imports ReplayMain WorkloadMain
begin

text \<open>
  The two binaries together: a file written by the workload generator
  (\<open>src/src/bin/workload_generator.rs\<close>) and replayed by the replay harness
  (\<open>src/src/bin/replay_harness.rs\<close>).
\<close>

section \<open>The file of a run as the replay reads it\<close>

definition workload_calls :: "workload_window \<Rightarrow> call list" where
  "workload_calls w = map (\<lambda>e. (we_syscall_id e, we_timestamp_ns e)) (ww_events w)"

definition writes :: "'j json_ops \<Rightarrow> (workload_window \<Rightarrow> rust_str) \<Rightarrow> workload_window \<Rightarrow> bool" where
  "writes js render w \<longleftrightarrow>
     writes_line js (render w) (ww_transaction_id w) (ww_slot w) (workload_calls w)"

text \<open>The window the harness rebuilds.\<close>

definition rebuilt :: "workload_window \<Rightarrow> execution_window" where
  "rebuilt w = \<lparr>ew_transaction_id = ww_transaction_id w, ew_slot = ww_slot w,
     ew_events = map (replayed_event (ww_transaction_id w) (ww_slot w)) (workload_calls w),
     ew_start_ts = ww_start_ts w, ew_end_ts = ww_end_ts w - interval\<rparr>"

lemma last_stamp: "unat (a :: u64) = unat b + 400000 \<Longrightarrow> a - 400000 = b"
proof -
  assume "unat a = unat b + 400000"
  then have "a = of_nat (unat b + 400000)" by (metis of_nat_unat ucast_id)
  then show ?thesis by simp
qed

lemma rebuilt_window:
  assumes "window_shape w"
  shows "replayed_window (ww_transaction_id w) (ww_slot w) (workload_calls w) = rebuilt w"
    and "workload_calls w \<noteq> []" and "length (workload_calls w) \<le> 128"
    and "length (workload_calls w) = length (ww_events w)"
proof -
  let ?es = "ww_events w"
  have ne: "?es \<noteq> []" using assms by (auto simp: window_shape_def)
  have "we_timestamp_ns (hd ?es) = ww_start_ts w" "we_timestamp_ns (last ?es) = ww_end_ts w - 400000"
    using assms last_stamp [of "ww_end_ts w" "we_timestamp_ns (last ?es)"] by (simp_all add: window_shape_def)
  with ne show "replayed_window (ww_transaction_id w) (ww_slot w) (workload_calls w) = rebuilt w"
    by (simp add: replayed_window_def rebuilt_def workload_calls_def interval_def hd_map last_map)
  show "workload_calls w \<noteq> []" "length (workload_calls w) \<le> 128"
    "length (workload_calls w) = length (ww_events w)"
    using assms by (auto simp: workload_calls_def window_shape_def)
qed

lemma workload_run_windows:
  "workload_run p i st ds = Inr (ws, st') \<Longrightarrow> map ww_transaction_id ws = map dr_tx_id ds"
proof (induction ds arbitrary: i st ws st')
  case (Cons d ds)
  obtain w st1 ws1 where w: "workload_tx p i st d = Inr (w, st1)"
    "workload_run p (i + 1) st1 ds = Inr (ws1, st')" "ws = w # ws1"
    using Cons.prems by (auto simp: res_bind_Inr_iff)
  have "ww_transaction_id w = dr_tx_id d"
    using w(1) by (auto simp: workload_tx_def make_window_def Let_def res_bind_Inr_iff split: prod.splits)
  then show ?case using Cons.IH [OF w(2)] w(3) by simp
qed simp

lemma generated_windows:
  assumes "list_all draw_ok draws" "length draws \<le> 10 ^ 12" "generate_workload p draws = Inr (ws, slot, ts)"
  shows "list_all window_shape ws" "map ww_transaction_id ws = map dr_tx_id draws"
proof -
  have "unat (1700000000000000000 :: u64) + length draws * 5250000 < 2 ^ 64"
    "unat (280000000 :: u64) + length draws < 2 ^ 64" "(0 + length draws) * 31 < 2 ^ 64"
    using assms(2) by simp_all
  from workload_run_ok [OF assms(1) this, of p] show "list_all window_shape ws"
    using assms(3) by (auto simp: generate_workload_def)
  show "map ww_transaction_id ws = map dr_tx_id draws"
    using workload_run_windows assms(3) unfolding generate_workload_def by blast
qed

lemma workload_snapshot:
  assumes draws: "list_all draw_ok draws" "length draws \<le> 10 ^ 12" "\<forall>d \<in> set draws. length (dr_tx_id d) = 32"
    and gen: "generate_workload p draws = Inr (ws, slot, ts)"
    and json: "\<forall>w \<in> set ws. writes js render w"
  shows "snapshot_windows js (workload_file render ws) = map rebuilt ws"
    and "snapshot_events js (workload_file render ws) = sum_list (map (\<lambda>w. length (ww_events w)) ws)"
proof -
  note ws = generated_windows [OF draws(1,2) gen]
  have tx: "length (ww_transaction_id w) = 32" if "w \<in> set ws" for w
  proof -
    have "ww_transaction_id w \<in> set (map dr_tx_id draws)"
      unfolding ws(2) [symmetric] using that by simp
    then show ?thesis using draws(3) by auto
  qed
  have lines: "lines (workload_file render ws) = map render ws"
    using lines_unlines [of "map render ws"] json
    by (simp add: workload_file_def writes_def writes_line_def comp_def)
  have "\<forall>w \<in> set ws. writes_line js (render w) (ww_transaction_id w) (ww_slot w) (workload_calls w) \<and>
      length (ww_transaction_id w) = 32 \<and> workload_calls w \<noteq> [] \<and> length (workload_calls w) \<le> 128"
    using json tx ws(1) rebuilt_window(2,3) by (simp add: writes_def list_all_iff)
  from written_snapshot [OF this lines]
  show "snapshot_windows js (workload_file render ws) = map rebuilt ws"
    "snapshot_events js (workload_file render ws) = sum_list (map (\<lambda>w. length (ww_events w)) ws)"
    using ws(1) rebuilt_window(1,4) by (simp_all add: list_all_iff cong: map_cong)
qed

text \<open>
  C38.  The two programs one after the other: the generator writes its file and the harness replays it.
  Whatever was drawn, both end without an error, and the output of the harness reads back as exactly
  one window per transaction, in the order of the generator, with its identifier, its slot, its start
  stamp and its syscalls with their time stamps; nothing is merged or lost, even if transaction
  identifiers repeat, the closing message agrees with the file, and no other file changes.  Two
  fields do not come back: the argument hashes are recomputed from the syscall numbers alone, and the
  end stamp is that of the last event, one interval before the one in the file.
\<close>

theorem generate_then_replay:
  fixes rng :: "nat \<Rightarrow> draw" and wargs :: workload_args
  defines "draws \<equiv> map rng [0..<wa_transactions wargs]"
  assumes draws: "list_all draw_ok draws" "length draws \<le> 10 ^ 12" "list_all (\<lambda>d. length (dr_tx_id d) = 32) draws"
    and json: "case generate_workload p draws of Inl e \<Rightarrow> True | Inr (ws, slot, ts) \<Rightarrow>
      list_all (\<lambda>w. to_string w \<noteq> None \<and> writes js (\<lambda>w. the (to_string w)) w \<and>
        codec_ok (js_window_to_string js) from_str (rebuilt w)) ws"
    and order: "\<And>m. iter_order m (order m)"
    and world: "rw_read_ok world" "rw_create_ok world" and same: "ra_snapshot rargs = wa_output wargs"
  shows "\<exists>ws slot ts fs1 fs2. generate_workload p draws = Inr (ws, slot, ts) \<and>
    map ww_transaction_id ws = map dr_tx_id draws \<and>
    workload_main p to_string True wargs rng fs =
      Inr (Inr (), fs1, progress (wa_transactions wargs) 0 (length draws) @ [Done (wa_output wargs)]) \<and>
    replay_main js order p' mock_to_string world rargs fs1 =
      Inr (Inr (), fs2, [Replaying (wa_output wargs), ReplayComplete
        (sum_list (map (\<lambda>w. length (ww_events w)) ws)) (length draws) (rw_elapsed world) (ra_output rargs)]) \<and>
    read_windows from_str fs2 (ra_output rargs) = Inr (map rebuilt ws) \<and>
    (\<forall>path. path \<notin> {wa_output wargs, ra_output rargs} \<longrightarrow> fs2 path = fs path)"
proof -
  obtain ws slot ts where gen: "generate_workload p draws = Inr (ws, slot, ts)" "length ws = length draws"
    using generate_workload_ok [OF draws(1,2), of p] by blast
  let ?render = "\<lambda>w. the (to_string w)"
  let ?file = "workload_file ?render ws"
  let ?msgs = "progress (wa_transactions wargs) 0 (length draws)"
  define fs1 where "fs1 = fs(wa_output wargs \<mapsto> ?file)"
  define fs2 where "fs2 = fs1(ra_output rargs \<mapsto> written js (map rebuilt ws))"
  have each: "\<forall>w \<in> set ws. to_string w \<noteq> None" "\<forall>w \<in> set ws. writes js ?render w"
    "\<forall>w \<in> set (map rebuilt ws). codec_ok (js_window_to_string js) from_str w"
    using json gen(1) by (auto simp: list_all_iff)
  have all: "takeWhile (\<lambda>w. to_string w \<noteq> None) ws = ws" using each(1) by (simp only: takeWhile_eq_all_conv)
  have run: "workload_run p 0 (280000000, 1700000000000000000) draws = Inr (ws, slot, ts)"
    using gen(1) by (simp add: generate_workload_def)
  have n: "length draws = wa_transactions wargs" by (simp add: draws_def)
  have run': "workload_run p 0 (280000000, 1700000000000000000) (map rng [0..<0 + wa_transactions wargs]) = Inr (ws, slot, ts)"
    using run by (simp add: draws_def)
  have main: "workload_main p to_string True wargs rng fs = Inr (Inr (), fs1, ?msgs @ [Done (wa_output wargs)])"
    using workload_loop_run [OF run', of to_string "wa_transactions wargs" "[]" "[]", unfolded all]
    by (simp add: workload_main_def fs1_def gen(2) n)
  have ids: "\<forall>d \<in> set draws. length (dr_tx_id d) = 32" using draws(3) by (simp add: list_all_iff)
  note snap = workload_snapshot [OF draws(1,2) ids gen(1) each(2)]
  note read = read_written [OF each(3), of fs2 "ra_output rargs"]
  have look: "fs1 (ra_snapshot rargs) = Some ?file" by (simp add: fs1_def same)
  have replay: "replay_main js order p' mock_to_string world rargs fs1 =
      Inr (Inr (), fs2, [Replaying (wa_output wargs), ReplayComplete
        (sum_list (map (\<lambda>w. length (ww_events w)) ws)) (length draws) (rw_elapsed world) (ra_output rargs)])"
    using replay_to_file_result [where order = order and js = js and source = ?file, OF order] read(1) snap world
      look same gen(2) by (simp add: replay_main_def fs2_def Let_def)
  have "map ww_transaction_id ws = map dr_tx_id draws" by (rule generated_windows(2) [OF draws(1,2) gen(1)])
  with gen(1) main replay read(2) show ?thesis by (fastforce simp: fs1_def fs2_def)
qed

text \<open>A witness: a workload of one transaction, written as one opaque line.\<close>

definition json_of_window :: "workload_window \<Rightarrow> json" where
  "json_of_window w = JObj [
     (''transaction_id'', JArr (map (\<lambda>b. JNum (ucast b)) (ww_transaction_id w))),
     (''slot'', JNum (ww_slot w)),
     (''events'', JArr (map (\<lambda>e. JObj [(''syscall_id'', JNum (ucast (we_syscall_id e))),
        (''timestamp_ns'', JNum (we_timestamp_ns e))]) (ww_events w)))]"

definition one_line_ops :: "workload_window \<Rightarrow> json json_ops" where
  "one_line_ops w = sample_json_ops\<lparr>js_from_str := (\<lambda>t. if t = [123, 125] then Some (json_of_window w) else None),
     js_window_to_string := (\<lambda>_. Some [123, 125])\<rparr>"

theorem generate_then_replay_witness:
  "\<exists>w slot ts fs1 fs2. generate_workload Debug [sample_draw 0] = Inr ([w], slot, ts) \<and>
     workload_main Debug (\<lambda>_. Some [123, 125]) True \<lparr>wa_transactions = 1, wa_output = [115]\<rparr> (\<lambda>_. sample_draw 0) Map.empty =
       Inr (Inr (), fs1, [Done [115]]) \<and>
     replay_main (one_line_ops w) (\<lambda>m. sorted_list_of_fset (fmdom m)) Debug (\<lambda>_. []) (sample_world [])
       sample_replay_args fs1 =
       Inr (Inr (), fs2, [Replaying [115], ReplayComplete (length (ww_events w)) 1 5 [111]]) \<and>
     read_windows (\<lambda>t. Some (rebuilt w)) fs2 [111] = Inr [rebuilt w]"
proof -
  let ?wargs = "\<lparr>wa_transactions = 1, wa_output = [115]\<rparr> :: workload_args"
  have one: "map (\<lambda>_. sample_draw 0) [0..<wa_transactions ?wargs] = [sample_draw 0]" by simp
  have draws: "list_all draw_ok [sample_draw 0]" "length [sample_draw 0] \<le> 10 ^ 12"
    "list_all (\<lambda>d. length (dr_tx_id d) = 32) [sample_draw 0]"
    by (auto simp: sample_draw_def zero_tx_id_def split: workload_profile.split)
  obtain ws slot ts where gen: "generate_workload Debug [sample_draw 0] = Inr (ws, slot, ts)" "length ws = 1"
    using generate_workload_ok [OF draws(1,2), of Debug] by auto
  then obtain w where w: "ws = [w]" by (auto simp: length_Suc_conv)
  have json: "case generate_workload Debug [sample_draw 0] of Inl e \<Rightarrow> True | Inr (ws, slot, ts) \<Rightarrow>
      list_all (\<lambda>x. Some [123, 125] \<noteq> None \<and> writes (one_line_ops w) (\<lambda>x. the (Some [123, 125])) x \<and>
        codec_ok (js_window_to_string (one_line_ops w)) (\<lambda>t. Some (rebuilt w)) (rebuilt x)) ws"
    using gen(1) by (auto simp: w writes_def writes_line_def one_line_ops_def sample_json_ops_def json_of_window_def
        json_window_def json_call_def workload_calls_def trim_def is_whitespace_def list_all2_conv_all_nth codec_ok_def
        rebuilt_def)
  have world: "rw_read_ok (sample_world [])" "rw_create_ok (sample_world [])" by (simp_all add: sample_world_def)
  have same: "ra_snapshot sample_replay_args = wa_output ?wargs" by (simp add: sample_replay_args_def)
  obtain fs1 fs2 where r: "workload_main Debug (\<lambda>_. Some [123, 125]) True ?wargs (\<lambda>_. sample_draw 0) Map.empty =
      Inr (Inr (), fs1, progress 1 0 1 @ [Done (wa_output ?wargs)])"
    "replay_main (one_line_ops w) (\<lambda>m. sorted_list_of_fset (fmdom m)) Debug (\<lambda>_. []) (sample_world [])
       sample_replay_args fs1 = Inr (Inr (), fs2, [Replaying (wa_output ?wargs), ReplayComplete
        (sum_list (map (\<lambda>w. length (ww_events w)) ws)) (length [sample_draw 0]) (rw_elapsed (sample_world []))
          (ra_output sample_replay_args)])"
    "read_windows (\<lambda>t. Some (rebuilt w)) fs2 (ra_output sample_replay_args) = Inr (map rebuilt ws)"
    using generate_then_replay [where p = Debug and rng = "\<lambda>_. sample_draw 0" and js = "one_line_ops w" and from_str = "\<lambda>t. Some (rebuilt w)" and
        to_string = "\<lambda>_. Some [123, 125]" and wargs = ?wargs and rargs = sample_replay_args and fs = Map.empty and
        p' = Debug and mock_to_string = "\<lambda>_. []", unfolded one, OF draws json sorted_fmdom_order world same] gen(1) by auto
  moreover have "progress 1 0 1 = []" by (simp add: progress_def)
  ultimately show ?thesis using gen(1) by (auto simp: w sample_replay_args_def sample_world_def)
qed

end
