(* ===== verification/RuntimeMain.thy ===== *)
theory RuntimeMain
  imports Handler Floats
begin

text \<open>
  The runtime binary, \<open>src/src/bin/syscallmind_runtime.rs\<close>.  What the random generator and the
  clocks answer in one iteration is a \<open>main_draw\<close>.  The loop is the list of what it does: operations
  on the handler and progress lines; the thread that receives the events takes its steps (\<open>Receive\<close>)
  anywhere between them, and goes on until the channel is empty after the handler is dropped.  The
  lines printed are values of a datatype; an elapsed time is the number of seconds that the clock
  answered, an \<open>f64\<close>.
\<close>

definition SYSCALL_POOL :: "syscall_id list" where
  "SYSCALL_POOL = [SOL_GET_CLOCK_SYSVAR, SOL_GET_RENT_SYSVAR, SOL_SHA256, SOL_KECCAK256, SOL_LOG,
     SOL_INVOKE_SIGNED, SOL_SET_RETURN_DATA, SOL_GET_RETURN_DATA, SOL_ED25519_VERIFY, SOL_LOG_64]"

definition total_events :: nat where
  "total_events = 100000"

definition start_slot :: u64 where
  "start_slot = 280000000"

record main_draw =
  md_pool_index :: nat
  md_args :: bytes
  md_clock :: "nat option"
  md_elapsed :: f64

definition main_tx :: "nat \<Rightarrow> transaction_id" where
  "main_tx i = (zero_tx_id[0 := of_nat (i mod 256)])[1 := of_nat ((i div 256) mod 256)]"

datatype main_action =
    Op handler_op
  | Report nat f64

text \<open>One iteration, and the loop.\<close>

definition main_step :: "nat \<Rightarrow> main_draw \<Rightarrow> main_action list" where
  "main_step i d =
     [Op (Call (md_clock d) zero_pubkey (SYSCALL_POOL ! md_pool_index d) (md_args d) (main_tx i) 0)] @
     (if i mod 432 = 0 then [Op AdvanceSlot] else []) @
     (if (i + 1) mod 10000 = 0 then [Report i (md_elapsed d)] else [])"

fun main_loop :: "nat \<Rightarrow> main_draw list \<Rightarrow> main_action list" where
  "main_loop i [] = []"
| "main_loop i (d # ds) = main_step i d @ main_loop (i + 1) ds"

record runtime_args =
  ru_config :: string
  ru_model :: string

text \<open>
  The printed lines: the banner, the start, a progress line with its five values (the last is printed
  under the label dropped), and the closing report.
\<close>

datatype runtime_message =
    Banner string string
  | Running nat
  | Progress nat nat u64 f64 nat
  | Finished nat nat f64 f64

definition print_banner :: "runtime_args \<Rightarrow> runtime_message" where
  "print_banner args = Banner (ru_config args) (ru_model args)"

definition progress_line :: "nat \<Rightarrow> f64 \<Rightarrow> 'ch syscall_handler \<Rightarrow> runtime_message" where
  "progress_line i elapsed h =
     (let tps = fp_of_u64 (of_nat i) / elapsed
      in Progress (i + 1) total_events (sh_current_slot h) tps (hm_len (handler_stats h)))"

fun run_main ::
  "'ch channel_ops \<Rightarrow> profile \<Rightarrow> main_action list \<Rightarrow> 'ch run_state \<Rightarrow> runtime_message list \<Rightarrow>
   ('ch run_state \<times> runtime_message list) res" where
  "run_main ops p [] s msgs = Inr (s, msgs)"
| "run_main ops p (Op a # as) s msgs = res_bind (run_op ops p a s) (\<lambda>s'. run_main ops p as s' msgs)"
| "run_main ops p (Report i elapsed # as) s msgs =
     run_main ops p as s (msgs @ [progress_line i elapsed (run_handler s)])"

text \<open>The receiving thread counts the events it takes until the channel is closed and empty.\<close>

fun receive_rest :: "'ch channel_ops \<Rightarrow> nat \<Rightarrow> 'ch \<Rightarrow> trace_event list \<Rightarrow> trace_event list option" where
  "receive_rest ops 0 c got = None"
| "receive_rest ops (Suc fuel) c got =
     (case ch_try_recv ops c of
        (c', None) \<Rightarrow> Some got
      | (c', Some e) \<Rightarrow> receive_rest ops fuel c' (got @ [e]))"

text \<open>
  A run of the binary: \<open>as\<close> is what the loop does with the steps the receiving thread took between,
  \<open>elapsed\<close> the time measured at the end.  The result is the handler at the end of the loop, and the
  events that the receiving thread had counted when it was joined, with the printed lines.
\<close>

definition finish_report :: "f64 \<Rightarrow> nat \<Rightarrow> runtime_message" where
  "finish_report elapsed processed =
     Finished total_events processed elapsed (fp_of_u64 (of_nat total_events) / elapsed)"

definition runtime_main ::
  "'ch channel_ops \<Rightarrow> profile \<Rightarrow> nat \<Rightarrow> runtime_args \<Rightarrow> main_action list \<Rightarrow> f64 \<Rightarrow>
   ('ch run_state \<times> (trace_event list \<times> runtime_message list) option) res" where
  "runtime_main ops p fuel args as elapsed =
     res_bind (run_main ops p as (run_start ops start_slot) [print_banner args, Running total_events]) (\<lambda>(s, msgs).
       Inr (s, map_option (\<lambda>got. (got, msgs @ [finish_report elapsed (length got)]))
         (receive_rest ops fuel (te_sender (sh_emitter (run_handler s))) (run_received s))))"

section \<open>The operations the loop makes\<close>

fun handler_ops :: "main_action list \<Rightarrow> handler_op list" where
  "handler_ops [] = []"
| "handler_ops (Op a # as) = a # handler_ops as"
| "handler_ops (Report i elapsed # as) = handler_ops as"

lemma handler_ops_append [simp]: "handler_ops (as @ bs) = handler_ops as @ handler_ops bs"
  by (induction as rule: handler_ops.induct) simp_all

lemma ops_syscalls_simps [simp]:
  "ops_syscalls [] = []" "ops_syscalls (a # as) = op_syscalls a @ ops_syscalls as"
  "ops_syscalls (as @ bs) = ops_syscalls as @ ops_syscalls bs"
  by (simp_all add: ops_syscalls_def)

lemma main_loop_snoc: "main_loop i (ds @ [d]) = main_loop i ds @ main_step (i + length ds) d"
  by (induction ds arbitrary: i) simp_all

lemma main_loop_syscalls:
  "ops_syscalls (handler_ops (main_loop i ds)) = map (\<lambda>d. SYSCALL_POOL ! md_pool_index d) ds"
  by (induction ds arbitrary: i) (simp_all add: main_step_def)

lemma slots_Suc: "(Suc (n + 431)) div 432 = (n + 431) div 432 + (if n mod 432 = 0 then 1 else 0)"
  using div_Suc [of "n + 431" 432] by simp

lemma main_loop_slots: "count_list (handler_ops (main_loop 0 ds)) AdvanceSlot = (length ds + 431) div 432"
proof (induction ds rule: rev_induct)
  case (snoc d ds)
  then show ?case using slots_Suc [of "length ds"] by (simp add: main_loop_snoc main_step_def)
qed simp

text \<open>The steps of the receiving thread change neither.\<close>

lemma without_receive:
  "ops_syscalls (handler_ops (filter (\<lambda>a. a \<noteq> Op Receive) as)) = ops_syscalls (handler_ops as)"
  "count_list (handler_ops (filter (\<lambda>a. a \<noteq> Op Receive) as)) AdvanceSlot = count_list (handler_ops as) AdvanceSlot"
  by (induction as rule: handler_ops.induct) auto

lemma run_op_slot:
  "run_op ops p a s = Inr s' \<Longrightarrow> sh_current_slot (run_handler s') =
     sh_current_slot (run_handler s) + (if a = AdvanceSlot then 1 else 0)"
  by (cases a) (auto simp: res_bind_Inr_iff handler_advance_slot_def Let_def
      elim!: handle_Inr split: prod.splits)

lemma run_ops_slot:
  "run_ops ops p as s = Inr s' \<Longrightarrow> sh_current_slot (run_handler s') =
     sh_current_slot (run_handler s) + of_nat (count_list as AdvanceSlot)"
  by (induction as arbitrary: s) (auto simp: res_bind_Inr_iff dest!: run_op_slot)

section \<open>The receiving thread returns\<close>

context trace_channel
begin

lemma receive_rest_all:
  "length (queue c) < fuel \<Longrightarrow> receive_rest ops fuel c got = Some (got @ queue c)"
proof (induction fuel arbitrary: c got)
  case (Suc fuel)
  obtain c' msg where recv: "ch_try_recv ops c = (c', msg)" by force
  show ?case
    using Suc.IH [of c' "got @ [hd (queue c)]"] Suc.prems recv try_recv_law [OF recv]
    by (cases "queue c") auto
qed simp

end

lemma main_loop_no_receive: "filter (\<lambda>a. a \<noteq> Op Receive) (main_loop i ds) = main_loop i ds"
  by (induction ds arbitrary: i) (simp_all add: main_step_def)

section \<open>The progress lines\<close>

lemma counts_match_dom: "counts_match m ids \<Longrightarrow> fset (fmdom m) \<subseteq> set ids"
  by (metis counts_match_def fmdomE option.distinct(1) subsetI)

lemma counts_match_len: "counts_match m ids \<Longrightarrow> hm_len m = card (set ids)"
proof -
  assume "counts_match m ids"
  then have "fset (fmdom m) = set ids"
    by (force simp: counts_match_def fmdom'_alt_def [symmetric] fmlookup_dom'_iff split: if_splits)
  then show ?thesis by (simp add: hm_len_def fcard.rep_eq)
qed

text \<open>What is printed, from the slot and the set of syscalls called so far.\<close>

fun reports :: "u64 \<Rightarrow> syscall_id set \<Rightarrow> main_action list \<Rightarrow> runtime_message list" where
  "reports slot seen [] = []"
| "reports slot seen (Op a # as) =
     reports (slot + (if a = AdvanceSlot then 1 else 0)) (seen \<union> set (op_syscalls a)) as"
| "reports slot seen (Report i elapsed # as) =
     Progress (i + 1) total_events slot (fp_of_u64 (of_nat i) / elapsed) (card seen) # reports slot seen as"

lemma reports_append:
  "reports slot seen (as @ bs) = reports slot seen as @
     reports (slot + of_nat (count_list (handler_ops as) AdvanceSlot)) (seen \<union> set (ops_syscalls (handler_ops as))) bs"
  by (induction slot seen as rule: reports.induct) (simp_all add: Un_assoc add.assoc)

lemma reports_without_receive: "reports slot seen (filter (\<lambda>a. a \<noteq> Op Receive) as) = reports slot seen as"
  by (induction slot seen as rule: reports.induct) auto

definition pool_syscalls :: "main_draw list \<Rightarrow> syscall_id list" where
  "pool_syscalls ds = map (\<lambda>d. SYSCALL_POOL ! md_pool_index d) ds"

text \<open>The line after the first \<open>n\<close> iterations.\<close>

definition progress_after :: "u64 \<Rightarrow> main_draw list \<Rightarrow> nat \<Rightarrow> runtime_message" where
  "progress_after slot ds n =
     Progress n total_events (slot + of_nat ((n + 431) div 432))
       (fp_of_u64 (of_nat (n - 1)) / md_elapsed (ds ! (n - 1))) (card (set (pool_syscalls (take n ds))))"

lemma reports_main_loop:
  "reports slot {} (main_loop 0 ds) = map (\<lambda>k. progress_after slot ds (k * 10000)) [1..<length ds div 10000 + 1]"
proof (induction ds rule: rev_induct)
  case (snoc d ds)
  let ?n = "length ds"
  have old: "progress_after slot (ds @ [d]) (k * 10000) = progress_after slot ds (k * 10000)"
    if "k \<in> set [1..<?n div 10000 + 1]" for k
  proof -
    have "1 \<le> k" "k * 10000 \<le> ?n" using that by (auto simp: less_Suc_eq_le less_eq_div_iff_mult_less_eq)
    then have "k * 10000 - 1 < ?n" "take (k * 10000) (ds @ [d]) = take (k * 10000) ds" by simp_all
    then show ?thesis unfolding progress_after_def nth_append by simp
  qed
  have step: "reports slot {} (main_loop 0 (ds @ [d])) = reports slot {} (main_loop 0 ds) @
      (if (?n + 1) mod 10000 = 0 then [progress_after slot (ds @ [d]) (?n + 1)] else [])"
    using slots_Suc [of ?n]
    by (auto simp: main_loop_snoc reports_append main_step_def main_loop_slots main_loop_syscalls
        progress_after_def pool_syscalls_def nth_append add.assoc insert_commute)
  show ?case
  proof (cases "(?n + 1) mod 10000 = 0")
    case True
    then have d: "(?n + 1) div 10000 = ?n div 10000 + 1" using div_Suc [of ?n 10000] by simp
    have "(?n + 1) div 10000 * 10000 = ?n + 1" using True by (simp add: mod_0_imp_dvd)
    then have n: "10000 + ?n div 10000 * 10000 = Suc ?n" unfolding d by simp
    have "progress_after slot (ds @ [d]) (10000 + ?n div 10000 * 10000) = progress_after slot (ds @ [d]) (Suc ?n)"
      unfolding n ..
    then show ?thesis using snoc old step True d by simp
  next
    case False
    then have "(?n + 1) div 10000 = ?n div 10000" using div_Suc [of ?n 10000] by simp
    then show ?thesis using snoc old step False by simp
  qed
qed simp

context trace_channel
begin

lemma run_main_result:
  "run_inv s \<Longrightarrow> run_main ops p as s msgs = res_bind (run_ops ops p (handler_ops as) s) (\<lambda>s'.
     Inr (s', msgs @ reports (sh_current_slot (run_handler s)) (set (run_syscalls s)) as))"
proof (induction as arbitrary: s msgs rule: handler_ops.induct)
  case (2 a as)
  show ?case
  proof (cases "run_op ops p a s")
    case (Inr s1)
    have "run_inv s1" using run_op_inv Inr 2(2) by blast
    then show ?thesis using 2(1) Inr run_op_slot [OF Inr] run_op_syscalls [OF Inr] by simp
  qed simp
next
  case (3 i elapsed as)
  have "hm_len (handler_stats (run_handler s)) = card (set (run_syscalls s))"
    using 3(2) by (intro counts_match_len) (simp add: run_inv_def Let_def handler_stats_def)
  then show ?case using 3 by (simp add: progress_line_def)
qed simp

end

section \<open>The simulation accounts for every event\<close>

text \<open>
  C40.  The runtime binary ends and accounts for every event, however the receiving thread is
  scheduled and whatever is drawn: no call panics, all 100000 calls are counted, each event was
  either received, in the order of the calls, or counted as dropped, and the printed lines are the
  banner, the start, one progress line per 10000 events and the closing report with the number of
  received events.  Only the ten syscalls of the pool have a count.  A progress line shows the slot, which has advanced once per 432 events, and, as
  its last value, how many different syscalls were called so far.
\<close>

theorem runtime_report:
  assumes chan: "trace_channel ops queue cap conn"
    and ds: "length ds = total_events" "list_all (\<lambda>d. md_pool_index d < length SYSCALL_POOL) ds"
    and as: "filter (\<lambda>a. a \<noteq> Op Receive) as = main_loop 0 ds" and fuel: "CHANNEL_CAPACITY < fuel"
  shows "\<exists>s processed. runtime_main ops p fuel args as elapsed = Inr (s, Some (processed,
      [Banner (ru_config args) (ru_model args), Running 100000] @
      map (\<lambda>k. progress_after 280000000 ds (k * 10000)) [1, 2, 3, 4, 5, 6, 7, 8, 9, 10] @
      [Finished 100000 (length processed) elapsed (fp_of_u64 100000 / elapsed)])) \<and>
    handler_total_calls (run_handler s) = 100000 \<and>
    sh_current_slot (run_handler s) = 280000232 \<and>
    fset (fmdom (handler_stats (run_handler s))) \<subseteq> set SYSCALL_POOL \<and>
    map ev_syscall_id (run_events s) = pool_syscalls ds \<and>
    subseq processed (run_events s) \<and>
    length processed + unat (emitter_dropped_count (sh_emitter (run_handler s))) = 100000"
proof -
  note start = trace_channel.run_inv_start [OF chan, of start_slot]
  have sids: "ops_syscalls (handler_ops as) = pool_syscalls ds"
    using main_loop_syscalls [of 0 ds] without_receive(1) [of as] as by (simp add: pool_syscalls_def)
  have slots: "count_list (handler_ops as) AdvanceSlot = 232"
    using main_loop_slots [of ds] without_receive(2) [of as] as ds(1) by (simp add: total_events_def)
  have lines: "reports 280000000 {} as = map (\<lambda>k. progress_after 280000000 ds (k * 10000)) [1, 2, 3, 4, 5, 6, 7, 8, 9, 10]"
    using reports_main_loop [of 280000000 ds] reports_without_receive [of 280000000 "{}" as] as ds(1)
    by (simp add: total_events_def upt_rec)
  obtain s where s: "run_ops ops p (handler_ops as) (run_start ops start_slot) = Inr s"
    using trace_channel.run_ops_progress [OF chan start, of "handler_ops as" p] sids ds(1)
    by (auto simp: run_start_def total_events_def pool_syscalls_def)
  have events: "map ev_syscall_id (run_events s) = pool_syscalls ds"
    using run_ops_syscalls [OF s] sids by (simp add: run_syscalls_def run_start_def)
  then have n: "length (run_events s) = 100000"
    using ds(1) by (metis length_map total_events_def pool_syscalls_def)
  have "set (pool_syscalls ds) \<subseteq> set SYSCALL_POOL"
    using ds(2) by (auto simp: pool_syscalls_def list_all_iff)
  moreover note inv = trace_channel.run_ops_inv [OF chan start s, unfolded trace_channel.run_inv_def [OF chan] Let_def]
  ultimately have stats: "fset (fmdom (handler_stats (run_handler s))) \<subseteq> set SYSCALL_POOL"
    using counts_match_dom [of "sh_call_counts (run_handler s)" "run_syscalls s"] events
    by (simp add: handler_stats_def run_syscalls_def)
  let ?q = "queue (te_sender (sh_emitter (run_handler s)))"
  have rest: "receive_rest ops fuel (te_sender (sh_emitter (run_handler s))) (run_received s)
      = Some (run_received s @ ?q)"
    using trace_channel.receive_rest_all [OF chan] inv fuel by simp
  have "length (run_received s @ ?q) \<le> 100000"
    using inv n list_emb_length [of "(=)" "run_received s @ ?q" "run_events s"] by simp
  then have "length (run_received s @ ?q) + unat (emitter_dropped_count (sh_emitter (run_handler s))) = 100000"
    using inv n by (simp add: emitter_dropped_count_def unsigned_of_nat take_bit_nat_eq_self del: of_nat_diff)
  then show ?thesis
    using s rest inv n events stats lines run_ops_slot [OF s] slots trace_channel.run_main_result [OF chan start, of p as]
    by (simp add: runtime_main_def run_start_def handler_new_def start_slot_def handler_total_calls_def
        run_syscalls_def print_banner_def finish_report_def total_events_def)
qed

definition sample_draws :: "main_draw list" where
  "sample_draws = replicate 100000
     \<lparr>md_pool_index = 2, md_args = replicate 8 7, md_clock = Some 5, md_elapsed = to_fp 1\<rparr>"

theorem runtime_report_witness:
  "\<exists>s processed lines.
     runtime_main ref_channel_ops Release 65537 \<lparr>ru_config = ''c'', ru_model = ''m''\<rparr> (main_loop 0 sample_draws) (to_fp 2) =
       Inr (s, Some (processed, [Banner ''c'' ''m'', Running 100000] @ lines @
         [Finished 100000 (length processed) (to_fp 2) (fp_of_u64 100000 / to_fp 2)])) \<and> length lines = 10 \<and>
     handler_total_calls (run_handler s) = 100000 \<and> sh_current_slot (run_handler s) = 280000232 \<and>
     length processed + unat (emitter_dropped_count (sh_emitter (run_handler s))) = 100000"
proof -
  have ds: "length sample_draws = total_events" "list_all (\<lambda>d. md_pool_index d < length SYSCALL_POOL) sample_draws"
    and fuel: "CHANNEL_CAPACITY < 65537"
    by (simp_all add: sample_draws_def total_events_def CHANNEL_CAPACITY_def SYSCALL_POOL_def list_all_iff)
  from runtime_report [OF ref_chan.trace_channel_axioms ds main_loop_no_receive [of 0 sample_draws] fuel, of Release
      "\<lparr>ru_config = ''c'', ru_model = ''m''\<rparr>" "to_fp 2"]
  show ?thesis by (fastforce simp del: list.map)
qed

end
