(* ===== verification/Benchmarks.thy ===== *)
theory Benchmarks
  imports RingBuffer WindowBuilder SysvarCache DedupTable
begin

text \<open>
  The benchmarks, \<open>src/benches/end_to_end.rs\<close>: what they set up and what one measured iteration
  computes.  The harness \<open>criterion\<close>, which is not part of the repository, decides how often an
  iteration runs; that number is an argument.  The lemmas show that every benchmark takes the path
  that its name announces, in every iteration, so that the times are those of the named operation.
\<close>

section \<open>The benchmarks\<close>

definition bench_event :: "profile \<Rightarrow> syscall_id \<Rightarrow> u64 \<Rightarrow> trace_event res" where
  "bench_event p sid slot =
     res_bind (mul_u64 p (ucast sid) 7919) (\<lambda>h.
     res_bind (mul_u64 p slot 400000) (\<lambda>ts.
       Inr \<lparr>ev_program_id = zero_pubkey, ev_syscall_id = sid, ev_args_hash = h, ev_timestamp_ns = ts,
            ev_slot = slot, ev_transaction_id = zero_tx_id, ev_depth = 0\<rparr>))"

text \<open>A body run \<open>n\<close> times on a shared state, with what each iteration returned.\<close>

fun iterations :: "('s \<Rightarrow> ('a \<times> 's) res) \<Rightarrow> nat \<Rightarrow> 's \<Rightarrow> ('a list \<times> 's) res" where
  "iterations body 0 s = Inr ([], s)"
| "iterations body (Suc n) s =
     res_bind (body s) (\<lambda>(a, s').
       res_bind (iterations body n s') (\<lambda>(as, s''). Inr (a # as, s'')))"

definition push_pop :: "trace_event \<Rightarrow> ring_buffer \<Rightarrow> (trace_event option \<times> ring_buffer) res" where
  "push_pop event rb = res_bind (rb_push rb event) (\<lambda>(_, rb'). rb_pop rb')"

definition bench_ring_buffer :: "profile \<Rightarrow> nat \<Rightarrow> (trace_event option list \<times> ring_buffer) res" where
  "bench_ring_buffer p n =
     res_bind (bench_event p SOL_GET_CLOCK_SYSVAR 1) (\<lambda>event. iterations (push_pop event) n rb_new)"

definition bench_key :: "args_hash \<Rightarrow> cache_key" where
  "bench_key h = \<lparr>ck_syscall_id = SOL_SHA256, ck_args_hash = h\<rparr>"

definition bench_result :: cached_result where
  "bench_result = \<lparr>cr_data = replicate 32 0, cr_epoch = 1, cr_cached_at_slot = 1\<rparr>"

definition bench_cache :: "('c, lru_key, cached_result) lru_ops \<Rightarrow> 'c sysvar_cache" where
  "bench_cache ops =
     foldl (\<lambda>c i. cache_insert ops c (bench_key (of_nat i)) bench_result) (cache_new ops 4096 1 1) [0..<1000]"

definition look_up ::
  "('c, lru_key, cached_result) lru_ops \<Rightarrow> cache_key \<Rightarrow> 'c sysvar_cache \<Rightarrow> (cached_result option \<times> 'c sysvar_cache) res" where
  "look_up ops key c = (let (c', r) = cache_get ops c key in Inr (r, c'))"

definition bench_cache_lookup ::
  "('c, lru_key, cached_result) lru_ops \<Rightarrow> nat \<Rightarrow> nat \<Rightarrow> (cached_result option list \<times> cached_result option list) res" where
  "bench_cache_lookup ops n m =
     res_bind (iterations (look_up ops (bench_key 500)) n (bench_cache ops)) (\<lambda>(hits, c).
     res_bind (iterations (look_up ops (bench_key 99999)) m c) (\<lambda>(misses, _). Inr (hits, misses)))"

fun ingest_events :: "profile \<Rightarrow> nat list \<Rightarrow> window_builder \<Rightarrow> window_builder res" where
  "ingest_events p [] wb = Inr wb"
| "ingest_events p (i # is) wb =
     res_bind (bench_event p (of_nat i mod 24 + 1) 1) (\<lambda>e. ingest_events p is (wb_ingest wb e))"

definition bench_window_builder :: "profile \<Rightarrow> execution_window option res" where
  "bench_window_builder p =
     res_bind (ingest_events p [0..<100] (wb_new 128)) (\<lambda>wb. Inr (fst (wb_finalize wb zero_tx_id)))"

definition bench_dedup :: "nat \<Rightarrow> (bytes option list \<times> dedup_table) res" where
  "bench_dedup n =
     (let table = dedup_record dedup_new zero_tx_id SOL_SHA256 12345 (replicate 32 0xAB)
      in iterations (\<lambda>t. Inr (dedup_check t zero_tx_id SOL_SHA256 12345, t)) n table)"

fun push_events :: "profile \<Rightarrow> nat list \<Rightarrow> ring_buffer \<Rightarrow> ring_buffer res" where
  "push_events p [] rb = Inr rb"
| "push_events p (i # is) rb =
     res_bind (bench_event p (of_nat (i mod 24) + 1) 1) (\<lambda>e.
     res_bind (rb_push rb e) (\<lambda>(_, rb'). push_events p is rb'))"

text \<open>The loop that pops until the buffer is empty takes fuel, and collects what it popped.\<close>

fun pop_all :: "nat \<Rightarrow> ring_buffer \<Rightarrow> (trace_event list option \<times> ring_buffer) res" where
  "pop_all 0 rb = Inr (None, rb)"
| "pop_all (Suc fuel) rb =
     res_bind (rb_pop rb) (\<lambda>(r, rb').
       case r of
         None \<Rightarrow> Inr (Some [], rb')
       | Some e \<Rightarrow> res_bind (pop_all fuel rb') (\<lambda>(es, rb''). Inr (map_option (Cons e) es, rb'')))"

definition bench_pipeline :: "profile \<Rightarrow> nat \<Rightarrow> nat \<Rightarrow> nat \<Rightarrow> (trace_event list option list \<times> ring_buffer) res" where
  "bench_pipeline p fuel n iters =
     iterations (\<lambda>rb. res_bind (push_events p [0..<n] rb) (pop_all fuel)) iters rb_new"

section \<open>What they measure\<close>

lemma iterations_inv:
  assumes "\<forall>s. I s \<longrightarrow> (\<exists>s'. body s = Inr (a, s') \<and> I s')"
  shows "I s \<Longrightarrow> \<exists>s'. iterations body n s = Inr (replicate n a, s') \<and> I s'"
proof (induction n arbitrary: s)
  case (Suc n)
  obtain s1 where s1: "body s = Inr (a, s1)" "I s1" using assms Suc.prems by blast
  then show ?case using Suc.IH [OF s1(2)] by auto
qed simp

lemma bench_event_ok: "\<exists>e. bench_event p sid 1 = Inr e \<and> ev_syscall_id e = sid \<and> ev_transaction_id e = zero_tx_id"
proof -
  have "unat sid < 2 ^ LENGTH(32)" by (rule unsigned_less)
  then have "unat (ucast sid :: u64) * unat (7919 :: u64) < 2 ^ 64"
    by (simp add: unsigned_ucast_eq take_bit_nat_eq_self)
  then show ?thesis by (simp add: bench_event_def mul_u64_fits)
qed

text \<open>A pushed event is popped again, whatever the position of the indices.\<close>

lemma bench_ring_buffer_result:
  "\<exists>e rb. bench_event p SOL_GET_CLOCK_SYSVAR 1 = Inr e \<and>
     bench_ring_buffer p n = Inr (replicate n (Some e), rb) \<and> rb_contents rb = []"
proof -
  obtain e where e: "bench_event p SOL_GET_CLOCK_SYSVAR 1 = Inr e" using bench_event_ok by blast
  let ?I = "\<lambda>rb. rb_inv rb \<and> rb_contents rb = []"
  have step: "\<forall>rb. ?I rb \<longrightarrow> (\<exists>rb'. push_pop e rb = Inr (Some e, rb') \<and> ?I rb')"
  proof (intro allI impI)
    fix rb assume inv: "?I rb"
    obtain rb1 where rb1: "rb_push rb e = Inr (True, rb1)" "rb_inv rb1" "rb_contents rb1 = [e]"
      using ring.push_law [of rb e] inv by (auto simp: RING_BUFFER_SIZE_def)
    then show "\<exists>rb'. push_pop e rb = Inr (Some e, rb') \<and> ?I rb'"
      using ring.pop_law [OF rb1(2)] by (auto simp: push_pop_def)
  qed
  show ?thesis
    using iterations_inv [OF step, where s = rb_new and n = n] e
    by (auto simp: bench_ring_buffer_def rb_new_inv rb_new_contents)
qed

context sysvar_lru
begin

text \<open>A cache with the results of the hashes below \<open>n\<close>: one of them is found, another is not.\<close>

definition inserts :: "nat list \<Rightarrow> cache_op list" where
  "inserts is = map (\<lambda>i. Insert (bench_key (of_nat i)) bench_result) is"

lemma inserts_facts:
  "touched (inserts is) = map (\<lambda>i. lru_key_of (bench_key (of_nat i))) is" "list_all quiet_op (inserts is)"
  "env_after env (inserts is) = env" "inserts (is @ js) = inserts is @ inserts js"
  "inserted (inserts is) = map (\<lambda>i. (lru_key_of (bench_key (of_nat i)), bench_result)) is"
  by (induction "is") (simp_all add: inserts_def)

lemma bench_key_inj:
  "i < 2 ^ 64 \<Longrightarrow> j < 2 ^ 64 \<Longrightarrow> lru_key_of (bench_key (of_nat i)) = lru_key_of (bench_key (of_nat j)) \<longleftrightarrow> i = j"
  by (auto simp: lru_key_of_def bench_key_def word_unat_eq_iff unat_of_nat_u64)

lemma bench_fresh: "fresh 1 1 (ck_syscall_id (bench_key h)) bench_result"
  by (simp add: fresh_def bench_key_def invalidation_table_def syscall_ids)

definition populated :: "args_hash \<Rightarrow> args_hash \<Rightarrow> 'c sysvar_cache \<Rightarrow> bool" where
  "populated h h' c \<longleftrightarrow> wf (sc_inner c) \<and> sc_invalidation_map c = invalidation_table \<and>
     sc_current_epoch c = 1 \<and> sc_current_slot c = 1 \<and>
     map_of (lru_iter ops (sc_inner c)) (lru_key_of (bench_key h)) = Some bench_result \<and>
     map_of (lru_iter ops (sc_inner c)) (lru_key_of (bench_key h')) = None"

lemma populated_inserts:
  assumes j: "j < n" and n: "n \<le> 4096" and m: "n \<le> m" "m < 2 ^ 64"
  shows "populated (of_nat j) (of_nat m) (cache_run ops (cache_new ops 4096 1 1) (inserts [0..<n]))"
proof -
  define c where "c = cache_run ops (cache_new ops 4096 1 1) (inserts [0..<n])"
  have split: "inserts [0..<n] = inserts [0..<j] @ [Insert (bench_key (of_nat j)) bench_result] @ inserts [Suc j..<n]"
    using j upt_add_eq_append [of 0 j "n - j"] upt_conv_Cons [of j n] inserts_facts(4) [of "[0..<j]" "j # [Suc j..<n]"]
    by (simp add: inserts_def)
  note inv = run_inv_run [of 4096 1 1 "inserts [0..<n]", folded c_def, unfolded run_inv_def inserts_facts(3)]
  have "card (set (touched (inserts [Suc j..<n]))) \<le> length (touched (inserts [Suc j..<n]))" by (rule card_length)
  then have few: "card (set (touched (inserts [Suc j..<n]))) < max 4096 1" using j n by (simp add: inserts_facts(1))
  have other: "lru_key_of (bench_key (of_nat j)) \<notin> set (touched (inserts [Suc j..<n]))"
    unfolding inserts_facts(1) using j n by (auto simp: bench_key_inj)
  have "snd (cache_get ops c (bench_key (of_nat j))) = Some bench_result"
    unfolding c_def split by (rule run_get_complete [OF inserts_facts(2) other few])
      (simp add: env_after_append inserts_facts(3) bench_fresh)
  then have hit: "map_of (lru_iter ops (sc_inner c)) (lru_key_of (bench_key (of_nat j))) = Some bench_result"
    using inv by (simp add: get_answer del: map_of_eq_Some_iff split: option.splits if_splits)
  have "lru_key_of (bench_key (of_nat m)) \<notin> fst ` set (inserted (inserts [0..<n]))"
    unfolding inserts_facts(5) using n m by (auto simp: bench_key_inj comp_def image_iff)
  then have "last_inserted (inserts [0..<n]) (lru_key_of (bench_key (of_nat m))) = None"
    by (simp add: last_inserted_def map_of_eq_None_iff)
  then have "map_of (lru_iter ops (sc_inner c)) (lru_key_of (bench_key (of_nat m))) = None"
    using inv by (metis not_None_eq)
  with hit inv show ?thesis
    by (simp add: populated_def c_def [symmetric] del: map_of_eq_Some_iff map_of_eq_None_iff)
qed

lemma populated_look_up:
  assumes "populated h h' c" "h' \<noteq> h"
  shows "\<exists>c'. look_up ops (bench_key h) c = Inr (Some bench_result, c') \<and> populated h h' c'"
    and "\<exists>c'. look_up ops (bench_key h') c = Inr (None, c') \<and> populated h h' c'"
proof -
  have neq: "lru_key_of (bench_key h') \<noteq> lru_key_of (bench_key h)"
    using assms(2) by (simp add: lru_key_of_def bench_key_def)
  have c: "wf (sc_inner c)" "sc_invalidation_map c = invalidation_table" using assms(1) by (simp_all add: populated_def)
  obtain c1 out1 where g1: "cache_get ops c (bench_key h) = (c1, out1)" by force
  then show "\<exists>c'. look_up ops (bench_key h) c = Inr (Some bench_result, c') \<and> populated h h' c'"
    using get_branches [OF c g1] assms(1) bench_fresh neq
    by (auto simp: look_up_def populated_def simp del: map_of_eq_Some_iff map_of_eq_None_iff)
  obtain c2 out2 where g2: "cache_get ops c (bench_key h') = (c2, out2)" by force
  then show "\<exists>c'. look_up ops (bench_key h') c = Inr (None, c') \<and> populated h h' c'"
    using get_branches [OF c g2] assms(1)
    by (auto simp: look_up_def populated_def simp del: map_of_eq_Some_iff map_of_eq_None_iff)
qed

text \<open>The first benchmark of the cache hits in every iteration, the second never.\<close>

lemma bench_cache_lookup_result:
  "bench_cache_lookup ops n m = Inr (replicate n (Some bench_result), replicate m None)"
proof -
  let ?I = "populated 500 99999"
  have "bench_cache ops = cache_run ops (cache_new ops 4096 1 1) (inserts [0..<1000])"
    by (simp add: bench_cache_def cache_run_def inserts_def foldl_map del: upt_rec_numeral)
  then have start: "?I (bench_cache ops)" using populated_inserts [of 500 1000 99999] by simp
  have neq: "(99999 :: u64) \<noteq> 500" by simp
  have hit: "\<forall>c. ?I c \<longrightarrow> (\<exists>c'. look_up ops (bench_key 500) c = Inr (Some bench_result, c') \<and> ?I c')"
    and miss: "\<forall>c. ?I c \<longrightarrow> (\<exists>c'. look_up ops (bench_key 99999) c = Inr (None, c') \<and> ?I c')"
    using populated_look_up [OF _ neq] by blast+
  obtain c1 where c1: "iterations (look_up ops (bench_key 500)) n (bench_cache ops) = Inr (replicate n (Some bench_result), c1)"
    "?I c1" using iterations_inv [OF hit start] by blast
  obtain c2 where "iterations (look_up ops (bench_key 99999)) m c1 = Inr (replicate m None, c2)"
    using iterations_inv [OF miss c1(2)] by blast
  with c1(1) show ?thesis by (simp add: bench_cache_lookup_def)
qed

end

text \<open>The window has all 100 events.\<close>

lemma ingest_events_ok:
  "length (wb_events wb zero_tx_id) + length is \<le> wb_max_window_size wb \<Longrightarrow>
   \<exists>wb' es. ingest_events p is wb = Inr wb' \<and> wb_events wb' zero_tx_id = wb_events wb zero_tx_id @ es \<and>
     map ev_syscall_id es = map (\<lambda>i. of_nat i mod 24 + 1) is"
proof (induction "is" arbitrary: wb)
  case (Cons i "is")
  obtain e where e: "bench_event p (of_nat i mod 24 + 1) 1 = Inr e" "ev_syscall_id e = of_nat i mod 24 + 1"
    "ev_transaction_id e = zero_tx_id" using bench_event_ok by blast
  have "wb_events (wb_ingest wb e) zero_tx_id = wb_events wb zero_tx_id @ [e]"
    "wb_max_window_size (wb_ingest wb e) = wb_max_window_size wb"
    using Cons.prems e(3) by (simp_all add: wb_ingest_events)
  then show ?case using Cons.IH [of "wb_ingest wb e"] Cons.prems e by fastforce
qed simp

lemma bench_window_builder_result:
  "\<exists>w. bench_window_builder p = Inr (Some w) \<and> ew_transaction_id w = zero_tx_id \<and>
     map ev_syscall_id (ew_events w) = map (\<lambda>i. of_nat i mod 24 + 1) [0..<100]"
proof -
  have "length (wb_events (wb_new 128) zero_tx_id) + length [0..<100] \<le> wb_max_window_size (wb_new 128)"
    by (simp add: wb_new_def wb_events_def)
  from ingest_events_ok [OF this, of p] obtain wb es where r: "ingest_events p [0..<100] (wb_new 128) = Inr wb"
    "wb_events wb zero_tx_id = wb_events (wb_new 128) zero_tx_id @ es"
    "map ev_syscall_id es = map (\<lambda>i. of_nat i mod 24 + 1) [0..<100]" by blast
  have "length es = 100" using arg_cong [OF r(3), of length] by (simp del: upt_rec_numeral)
  then have "es \<noteq> []" by auto
  with r(2) have "fst (wb_finalize wb zero_tx_id) = Some \<lparr>ew_transaction_id = zero_tx_id, ew_slot = ev_slot (hd es),
      ew_events = es, ew_start_ts = ev_timestamp_ns (hd es), ew_end_ts = ev_timestamp_ns (last es)\<rparr>"
    by (simp add: wb_finalize_result window_of_def)
  with r(1,3) show ?thesis
    by (simp add: bench_window_builder_def del: upt_rec_numeral)
qed

lemma bench_dedup_result: "\<exists>t. bench_dedup n = Inr (replicate n (Some (replicate 32 0xAB)), t)"
proof -
  let ?I = "\<lambda>t. dedup_check t zero_tx_id SOL_SHA256 12345 = Some (replicate 32 0xAB)"
  have step: "\<forall>t. ?I t \<longrightarrow> (\<exists>t'. Inr (dedup_check t zero_tx_id SOL_SHA256 12345, t) =
      (Inr (Some (replicate 32 0xAB), t') :: (bytes option \<times> dedup_table) res) \<and> ?I t')" by auto
  have "?I (dedup_record dedup_new zero_tx_id SOL_SHA256 12345 (replicate 32 0xAB))"
    by (simp add: dedup_check_def dedup_record_def)
  from iterations_inv [OF step this] show ?thesis unfolding bench_dedup_def Let_def by blast
qed

text \<open>Up to 1023 events, the capacity, all are pushed and then popped in order, in every iteration.\<close>

lemma push_events_ok:
  "rb_inv rb \<Longrightarrow> length (rb_contents rb) + length is < RING_BUFFER_SIZE \<Longrightarrow>
   \<exists>rb' es. push_events p is rb = Inr rb' \<and> rb_inv rb' \<and> rb_contents rb' = rb_contents rb @ es \<and>
     list_all2 (\<lambda>i e. bench_event p (of_nat (i mod 24) + 1) 1 = Inr e) is es"
proof (induction "is" arbitrary: rb)
  case (Cons i "is")
  obtain e where e: "bench_event p (of_nat (i mod 24) + 1) 1 = Inr e" using bench_event_ok by blast
  obtain rb1 where rb1: "rb_push rb e = Inr (True, rb1)" "rb_inv rb1" "rb_contents rb1 = rb_contents rb @ [e]"
    using ring.push_law [OF Cons.prems(1), of e] Cons.prems(2) by (auto simp del: length_rb_contents)
  obtain rb2 es where "push_events p is rb1 = Inr rb2" "rb_inv rb2" "rb_contents rb2 = rb_contents rb1 @ es"
    "list_all2 (\<lambda>i e. bench_event p (of_nat (i mod 24) + 1) 1 = Inr e) is es"
    using Cons.IH [OF rb1(2)] Cons.prems(2) rb1(3) by (auto simp del: length_rb_contents)
  then show ?case using e rb1 by (intro exI [of _ rb2] exI [of _ "e # es"]) simp
qed simp

lemma pop_all_ok:
  "rb_inv rb \<Longrightarrow> length (rb_contents rb) < fuel \<Longrightarrow>
   \<exists>rb'. pop_all fuel rb = Inr (Some (rb_contents rb), rb') \<and> rb_inv rb' \<and> rb_contents rb' = []"
proof (induction fuel arbitrary: rb)
  case (Suc fuel)
  obtain rb1 where rb1: "rb_inv rb1" "rb_contents rb1 = tl (rb_contents rb)"
    "rb_pop rb = Inr (case rb_contents rb of [] \<Rightarrow> None | x # _ \<Rightarrow> Some x, rb1)"
    using ring.pop_law [OF Suc.prems(1)] by blast
  show ?case
    using Suc.IH [OF rb1(1)] Suc.prems(2) rb1 by (cases "rb_contents rb") (auto simp del: length_rb_contents)
qed simp

lemma bench_pipeline_result:
  assumes "n < RING_BUFFER_SIZE" "n < fuel"
  shows "\<exists>es rb. bench_pipeline p fuel n iters = Inr (replicate iters (Some es), rb) \<and> rb_contents rb = [] \<and>
    list_all2 (\<lambda>i e. bench_event p (of_nat (i mod 24) + 1) 1 = Inr e) [0..<n] es"
proof -
  let ?I = "\<lambda>rb. rb_inv rb \<and> rb_contents rb = []"
  let ?ok = "\<lambda>es. list_all2 (\<lambda>i e. bench_event p (of_nat (i mod 24) + 1) 1 = Inr e) [0..<n] es"
  have unique: "es = es'" if "?ok es" "?ok es'" for es es'
    using that by (auto simp: list_all2_conv_all_nth intro: nth_equalityI)
  have push: "\<exists>rb' es. push_events p [0..<n] rb = Inr rb' \<and> rb_inv rb' \<and> rb_contents rb' = es \<and> ?ok es" if "?I rb" for rb
    using push_events_ok [of rb "[0..<n]" p] that assms(1) by (auto simp del: length_rb_contents)
  obtain es where es: "?ok es" using push [of rb_new] rb_new_inv rb_new_contents by blast
  have step: "\<forall>rb. ?I rb \<longrightarrow> (\<exists>rb'. res_bind (push_events p [0..<n] rb) (pop_all fuel) = Inr (Some es, rb') \<and> ?I rb')"
  proof (intro allI impI)
    fix rb assume "?I rb"
    then obtain rb1 where rb1: "push_events p [0..<n] rb = Inr rb1" "rb_inv rb1" "rb_contents rb1 = es"
      using push unique [OF es] by blast
    have "length es = n" using es list_all2_lengthD by fastforce
    then show "\<exists>rb'. res_bind (push_events p [0..<n] rb) (pop_all fuel) = Inr (Some es, rb') \<and> ?I rb'"
      using pop_all_ok [OF rb1(2), of fuel] rb1 assms(2) by (auto simp del: length_rb_contents)
  qed
  show ?thesis
    using iterations_inv [OF step, where s = rb_new and n = iters] rb_new_inv rb_new_contents es
    by (auto simp: bench_pipeline_def)
qed

end
