(* ===== verification/RuntimeTests.thy ===== *)
theory RuntimeTests
  imports Handler
begin

text \<open>
  The repository's own tests of \<open>common/src/lib.rs\<close> and of the runtime crate (\<open>runtime/src\<close>,
  \<open>runtime/tests\<close>), on the model.  A test is the conjunction of its assertions; a panic makes it
  fail.  The channel is the reference channel, the build is the debug build the tests run in.
\<close>

section \<open>common\<close>

text \<open>The bytes of \<open>hello\<close> and \<open>world\<close>.\<close>

definition hello :: bytes where "hello = [104, 101, 108, 108, 111]"
definition world :: bytes where "world = [119, 111, 114, 108, 100]"

definition test_fnv_hash_is_deterministic :: bool where
  "test_fnv_hash_is_deterministic \<longleftrightarrow> (let h1 = fnv_hash hello; h2 = fnv_hash hello in h1 = h2)"

definition test_fnv_hash_differs_for_different_inputs :: bool where
  "test_fnv_hash_differs_for_different_inputs \<longleftrightarrow> fnv_hash hello \<noteq> fnv_hash world"

definition test_syscall_class_display :: bool where
  "test_syscall_class_display \<longleftrightarrow> syscall_class_fmt Crypto = ''Crypto'' \<and> safety_class_fmt ReadOnly = ''ReadOnly''"

lemma common_tests: "test_fnv_hash_is_deterministic" "test_fnv_hash_differs_for_different_inputs"
  "test_syscall_class_display"
  by (simp_all add: test_fnv_hash_is_deterministic_def test_fnv_hash_differs_for_different_inputs_def
      test_syscall_class_display_def hello_def world_def fnv_hash_def fnv_step_def FNV_OFFSET_BASIS_def FNV_PRIME_def)

section \<open>The registry\<close>

definition test_clock_sysvar_is_readonly :: bool where
  "test_clock_sysvar_is_readonly \<longleftrightarrow> (let reg = registry_new
     in registry_get_safety reg SOL_GET_CLOCK_SYSVAR = ReadOnly \<and>
        registry_get_class reg SOL_GET_CLOCK_SYSVAR = SysvarRead)"

definition test_crypto_syscalls_are_idempotent :: bool where
  "test_crypto_syscalls_are_idempotent \<longleftrightarrow> (let reg = registry_new
     in registry_get_safety reg SOL_SHA256 = Idempotent \<and> registry_get_safety reg SOL_KECCAK256 = Idempotent)"

definition test_panic_is_not_eligible :: bool where
  "test_panic_is_not_eligible \<longleftrightarrow> (let reg = registry_new in \<not> registry_is_optimization_eligible reg SOL_PANIC)"

definition test_sysvar_reads_are_eligible :: bool where
  "test_sysvar_reads_are_eligible \<longleftrightarrow> (let reg = registry_new
     in registry_is_optimization_eligible reg SOL_GET_CLOCK_SYSVAR \<and>
        registry_is_optimization_eligible reg SOL_GET_RENT_SYSVAR)"

definition test_unknown_id_defaults_to_state_changing :: bool where
  "test_unknown_id_defaults_to_state_changing \<longleftrightarrow> (let reg = registry_new
     in registry_get_safety reg 9999 = StateChanging \<and> \<not> registry_is_optimization_eligible reg 9999)"

lemma registry_tests: "test_clock_sysvar_is_readonly" "test_crypto_syscalls_are_idempotent"
  "test_panic_is_not_eligible" "test_sysvar_reads_are_eligible" "test_unknown_id_defaults_to_state_changing"
  by (simp_all add: test_clock_sysvar_is_readonly_def test_crypto_syscalls_are_idempotent_def
      test_panic_is_not_eligible_def test_sysvar_reads_are_eligible_def test_unknown_id_defaults_to_state_changing_def
      registry_is_optimization_eligible_def registry_get_safety_def registry_get_class_def registry_get_def
      registry_lookup registry_table_def syscall_ids)

section \<open>The emitter\<close>

definition emitter_make_event :: "u32 \<Rightarrow> trace_event" where
  "emitter_make_event sid = \<lparr>ev_program_id = zero_pubkey, ev_syscall_id = sid, ev_args_hash = 0,
     ev_timestamp_ns = 0, ev_slot = 1, ev_transaction_id = zero_tx_id, ev_depth = 0\<rparr>"

definition test_emit_and_receive :: bool where
  "test_emit_and_receive \<longleftrightarrow>
     (let emitter = emitter_emit ref_channel_ops (emitter_new ref_channel_ops) (emitter_make_event 1)
      in case snd (ch_try_recv ref_channel_ops (te_sender emitter)) of
           None \<Rightarrow> False | Some ev \<Rightarrow> ev_syscall_id ev = 1)"

definition test_dropped_count_increments_when_full :: bool where
  "test_dropped_count_increments_when_full \<longleftrightarrow>
     (let tx = ch_bounded ref_channel_ops 2;
          tx = fst (ch_try_send ref_channel_ops tx (emitter_make_event 1));
          tx = fst (ch_try_send ref_channel_ops tx (emitter_make_event 2));
          emitter = \<lparr>te_sender = tx, te_dropped = 0\<rparr>;
          emitter = emitter_emit ref_channel_ops emitter (emitter_make_event 3)
      in emitter_dropped_count emitter = 1)"

lemma emitter_tests: "test_emit_and_receive" "test_dropped_count_increments_when_full"
  by (simp_all add: test_emit_and_receive_def test_dropped_count_increments_when_full_def Let_def
      emitter_emit_def emitter_new_def ref_channel_ops_def ref_try_send_def ref_try_recv_def
      emitter_dropped_count_def emitter_make_event_def CHANNEL_CAPACITY_def)

section \<open>The handler\<close>

text \<open>The calls of a test, with the clock at \<open>now\<close>; the answers in order.\<close>

type_synonym call = "syscall_id \<times> bytes \<times> u8"

fun make_calls :: "nat option \<Rightarrow> call list \<Rightarrow> ref_channel syscall_handler \<Rightarrow> (bool list \<times> ref_channel syscall_handler) res" where
  "make_calls now [] h = Inr ([], h)"
| "make_calls now ((sid, args, depth) # cs) h =
     res_bind (handle ref_channel_ops Debug now h zero_pubkey sid args zero_tx_id depth) (\<lambda>(a, h').
       res_bind (make_calls now cs h') (\<lambda>(as, h''). Inr (a # as, h'')))"

definition make_handler :: "u64 \<Rightarrow> ref_channel syscall_handler" where
  "make_handler slot = handler_new (emitter_new ref_channel_ops) slot"

text \<open>The loop \<open>while rx.try_recv().is_ok()\<close> that counts, with a bound on its rounds.\<close>

fun count_received :: "nat \<Rightarrow> ref_channel \<Rightarrow> nat" where
  "count_received 0 rx = 0"
| "count_received (Suc n) rx =
     (case ch_try_recv ref_channel_ops rx of (rx', None) \<Rightarrow> 0 | (rx', Some _) \<Rightarrow> Suc (count_received n rx'))"

definition run_test ::
  "u64 \<Rightarrow> nat option \<Rightarrow> call list \<Rightarrow> (bool list \<Rightarrow> ref_channel syscall_handler \<Rightarrow> trace_event option \<Rightarrow> bool) \<Rightarrow> bool" where
  "run_test slot now cs check =
     (case make_calls now cs (make_handler slot) of
        Inl _ \<Rightarrow> False
      | Inr (as, h) \<Rightarrow> check as h (snd (ch_try_recv ref_channel_ops (te_sender (sh_emitter h)))))"

definition test_handle_emits_trace_event :: "nat option \<Rightarrow> bool" where
  "test_handle_emits_trace_event now \<longleftrightarrow> run_test 1 now [(SOL_GET_CLOCK_SYSVAR, [], 0)] (\<lambda>_ _ rx.
     case rx of None \<Rightarrow> False | Some ev \<Rightarrow> ev_syscall_id ev = SOL_GET_CLOCK_SYSVAR \<and> ev_slot ev = 1)"

definition test_stats_increments_per_syscall :: "nat option \<Rightarrow> bool" where
  "test_stats_increments_per_syscall now \<longleftrightarrow>
     run_test 1 now [(SOL_SHA256, [100, 97, 116, 97], 0), (SOL_SHA256, [100, 97, 116, 97, 50], 0), (SOL_KECCAK256, [120], 0)]
       (\<lambda>_ h _. let stats = handler_stats h in fmlookup stats SOL_SHA256 = Some 2 \<and> fmlookup stats SOL_KECCAK256 = Some 1)"

definition test_total_calls_accumulates :: "nat option \<Rightarrow> bool" where
  "test_total_calls_accumulates now \<longleftrightarrow>
     run_test 1 now (replicate 5 (SOL_LOG, [109, 115, 103], 0)) (\<lambda>_ h _. handler_total_calls h = 5)"

definition test_state_changing_syscall_not_eligible :: "nat option \<Rightarrow> bool" where
  "test_state_changing_syscall_not_eligible now \<longleftrightarrow> run_test 1 now [(SOL_PANIC, [], 0)] (\<lambda>as _ _. as = [False])"

definition test_readonly_syscall_is_eligible :: "nat option \<Rightarrow> bool" where
  "test_readonly_syscall_is_eligible now \<longleftrightarrow> run_test 1 now [(SOL_GET_CLOCK_SYSVAR, [], 0)] (\<lambda>as _ _. as = [True])"

definition test_handle_records_slot_in_event :: "nat option \<Rightarrow> bool" where
  "test_handle_records_slot_in_event now \<longleftrightarrow> run_test 42 now [(SOL_GET_CLOCK_SYSVAR, [], 0)] (\<lambda>_ _ rx.
     case rx of None \<Rightarrow> False | Some ev \<Rightarrow> ev_slot ev = 42)"

definition test_handle_computes_args_hash :: "nat option \<Rightarrow> bool" where
  "test_handle_computes_args_hash now \<longleftrightarrow> run_test 42 now [(SOL_SHA256, hello, 0)] (\<lambda>_ _ rx.
     case rx of None \<Rightarrow> False | Some ev \<Rightarrow> ev_args_hash ev \<noteq> 0)"

definition test_multiple_calls_produce_multiple_events :: "nat option \<Rightarrow> bool" where
  "test_multiple_calls_produce_multiple_events now \<longleftrightarrow>
     run_test 42 now [(SOL_LOG, [97], 0), (SOL_LOG, [98], 0), (SOL_LOG, [99], 0)]
       (\<lambda>_ h _. handler_total_calls h = 3 \<and> count_received 9 (te_sender (sh_emitter h)) = 3)"

definition test_depth_is_recorded :: "nat option \<Rightarrow> bool" where
  "test_depth_is_recorded now \<longleftrightarrow> run_test 42 now [(SOL_INVOKE_SIGNED, [], 3)] (\<lambda>_ _ rx.
     case rx of None \<Rightarrow> False | Some ev \<Rightarrow> ev_depth ev = 3)"

lemma replicate_numeral: "replicate (numeral k) x = x # replicate (pred_numeral k) x"
  by (simp add: numeral_eq_Suc)

lemma count_received_numeral:
  "count_received (numeral k) rx =
     (case ch_try_recv ref_channel_ops rx of
        (rx', None) \<Rightarrow> 0 | (rx', Some _) \<Rightarrow> Suc (count_received (pred_numeral k) rx'))"
  by (simp add: numeral_eq_Suc)

lemmas run_test_eval = run_test_def make_handler_def handle_def handle_event_def handler_new_def emitter_new_def
  emitter_emit_def ref_channel_ops_def ref_try_send_def ref_try_recv_def CHANNEL_CAPACITY_def bump_entry_def
  add_u64_def handler_stats_def handler_total_calls_def registry_is_optimization_eligible_def
  registry_get_safety_def registry_get_def registry_lookup registry_table_def syscall_ids

lemma handler_tests:
  "test_handle_emits_trace_event now" "test_stats_increments_per_syscall now" "test_total_calls_accumulates now"
  "test_handle_computes_args_hash now" "test_state_changing_syscall_not_eligible now" "test_readonly_syscall_is_eligible now"
  "test_handle_records_slot_in_event now" "test_multiple_calls_produce_multiple_events now" "test_depth_is_recorded now"
  unfolding test_handle_emits_trace_event_def test_stats_increments_per_syscall_def
      test_total_calls_accumulates_def test_handle_computes_args_hash_def test_state_changing_syscall_not_eligible_def test_readonly_syscall_is_eligible_def
      test_handle_records_slot_in_event_def test_multiple_calls_produce_multiple_events_def test_depth_is_recorded_def
  by (simp_all add: run_test_eval Let_def replicate_numeral count_received_numeral hello_def fnv_hash_def fnv_step_def
      FNV_OFFSET_BASIS_def FNV_PRIME_def)

end
