(* ===== verification/PipelineTests.thy ===== *)
theory PipelineTests
  imports ArrowSerializer RingBuffer
begin

text \<open>
  The tests of the pipeline crate (the modules \<open>tests\<close> of the files of \<open>pipeline/src\<close>) on the
  model.  A test is the conjunction of its assertions; a panic makes it fail.
\<close>

section \<open>The ring buffer\<close>

definition ring_event :: "u32 \<Rightarrow> trace_event" where
  "ring_event sid = \<lparr>ev_program_id = zero_pubkey, ev_syscall_id = sid, ev_args_hash = ucast sid,
     ev_timestamp_ns = 0, ev_slot = 1, ev_transaction_id = zero_tx_id, ev_depth = 0\<rparr>"

fun popped_id :: "ring_answer \<Rightarrow> syscall_id option" where
  "popped_id (Popped (Some e)) = Some (ev_syscall_id e)"
| "popped_id _ = None"

definition test_push_and_pop :: bool where
  "test_push_and_pop \<longleftrightarrow>
     (case ring_run [DoPush (ring_event 1), DoPush (ring_event 2), DoLen, DoPop, DoPop, DoPop] rb_new of
        Inr [a, b, n, x, y, z] \<Rightarrow> a = Pushed True \<and> b = Pushed True \<and> n = Len 2 \<and>
          popped_id x = Some 1 \<and> popped_id y = Some 2 \<and> z = Popped None
      | _ \<Rightarrow> False)"

definition test_full_returns_false :: bool where
  "test_full_returns_false \<longleftrightarrow>
     (case ring_run (map (\<lambda>i. DoPush (ring_event (of_nat i))) [0..<rb_capacity rb_new] @ [DoPush (ring_event 9999)]) rb_new of
        Inl _ \<Rightarrow> False
      | Inr answers \<Rightarrow> list_all (\<lambda>a. a = Pushed True) (butlast answers) \<and> last answers = Pushed False)"

definition test_empty_is_none :: bool where
  "test_empty_is_none \<longleftrightarrow> ring_run [DoPop, DoIsEmpty] rb_new = Inr [Popped None, IsEmpty True]"

definition test_ordering_preserved :: bool where
  "test_ordering_preserved \<longleftrightarrow>
     (case ring_run (map (\<lambda>i. DoPush (ring_event (of_nat i))) [0..<10] @ replicate 10 DoPop) rb_new of
        Inl _ \<Rightarrow> False
      | Inr answers \<Rightarrow> map popped_id (drop 10 answers) = map (\<lambda>i. Some (of_nat i)) [0..<10])"

lemma ring_run_new: "ring_run os rb_new = Inr (queue_run (RING_BUFFER_SIZE - 1) os [])"
  using ring_run_queue [OF rb_new_inv] by (simp add: rb_capacity_def rb_new_contents)

lemma queue_run_pushes:
  "length q + length es \<le> n \<Longrightarrow>
   queue_run n (map DoPush es @ os) q = replicate (length es) (Pushed True) @ queue_run n os (q @ es)"
  by (induction es arbitrary: q) simp_all

lemma queue_run_pops:
  "queue_run n (replicate (length q) DoPop) q = map (\<lambda>e. Popped (Some e)) q"
  by (induction q) simp_all

lemma ring_tests: "test_push_and_pop" "test_full_returns_false" "test_empty_is_none" "test_ordering_preserved"
proof -
  show "test_push_and_pop" "test_empty_is_none"
    by (simp_all add: test_push_and_pop_def test_empty_is_none_def ring_run_new RING_BUFFER_SIZE_def ring_event_def)
  let ?es = "map (\<lambda>i. ring_event (of_nat i)) [0..<RING_BUFFER_SIZE - 1]"
  have "queue_run (RING_BUFFER_SIZE - 1) (map DoPush ?es @ [DoPush (ring_event 9999)]) [] =
      replicate (RING_BUFFER_SIZE - 1) (Pushed True) @ [Pushed False]"
    by (subst queue_run_pushes) simp_all
  then show "test_full_returns_false"
    by (simp add: test_full_returns_false_def ring_run_new rb_capacity_def comp_def list_all_iff)
  let ?es = "map (\<lambda>i. ring_event (of_nat i)) [0..<10]"
  have "queue_run (RING_BUFFER_SIZE - 1) (map DoPush ?es @ replicate 10 DoPop) [] =
      replicate 10 (Pushed True) @ queue_run (RING_BUFFER_SIZE - 1) (replicate (length ?es) DoPop) ?es"
    by (subst queue_run_pushes) (simp_all add: RING_BUFFER_SIZE_def)
  then show "test_ordering_preserved"
    unfolding queue_run_pops
    by (simp add: test_ordering_preserved_def ring_run_new comp_def ring_event_def)
qed

section \<open>The window builder\<close>

definition window_event :: "u32 \<Rightarrow> transaction_id \<Rightarrow> trace_event" where
  "window_event sid tx = \<lparr>ev_program_id = zero_pubkey, ev_syscall_id = sid, ev_args_hash = 0,
     ev_timestamp_ns = ucast sid * 1000, ev_slot = 1, ev_transaction_id = tx, ev_depth = 0\<rparr>"

definition test_ingest_and_finalize :: bool where
  "test_ingest_and_finalize \<longleftrightarrow>
     (let wb = wb_new 64; tx = zero_tx_id;
          wb = wb_ingest wb (window_event 1 tx);
          wb = wb_ingest wb (window_event 2 tx)
      in case fst (wb_finalize wb tx) of
           None \<Rightarrow> False
         | Some w \<Rightarrow> length (ew_events w) = 2 \<and> window_syscall_ids w = [1, 2])"

definition test_finalize_unknown_tx_returns_none :: bool where
  "test_finalize_unknown_tx_returns_none \<longleftrightarrow>
     (let wb = wb_new 64; tx = zero_tx_id[0 := 99] in fst (wb_finalize wb tx) = None)"

definition test_max_window_size_respected :: bool where
  "test_max_window_size_respected \<longleftrightarrow>
     (let wb = wb_new 3; tx = zero_tx_id;
          wb = foldl (\<lambda>wb i. wb_ingest wb (window_event (of_nat i) tx)) wb [0..<10]
      in case fst (wb_finalize wb tx) of None \<Rightarrow> False | Some w \<Rightarrow> length (ew_events w) = 3)"

text \<open>The builder of the last test, which is drained in the map's iteration order.\<close>

definition two_transactions :: window_builder where
  "two_transactions =
     (let wb = wb_new 64; tx1 = zero_tx_id; tx2 = zero_tx_id[0 := 1];
          wb = wb_ingest wb (window_event 1 tx1)
      in wb_ingest wb (window_event 2 tx2))"

definition test_drain_all_clears_pending :: "(window_builder \<Rightarrow> transaction_id list) \<Rightarrow> bool" where
  "test_drain_all_clears_pending order \<longleftrightarrow>
     (let (windows, wb) = wb_drain_all (order two_transactions) two_transactions
      in length windows = 2 \<and> wb_pending_count wb = 0)"

lemma builder_tests: "test_ingest_and_finalize" "test_finalize_unknown_tx_returns_none" "test_max_window_size_respected"
  by (simp_all add: test_ingest_and_finalize_def test_finalize_unknown_tx_returns_none_def
      test_max_window_size_respected_def Let_def wb_finalize_result window_of_def wb_ingest_events
      wb_events_simps window_event_def window_syscall_ids_def wb_new_def wb_events_def wb_ingest_def upt_conv_Cons)

lemma drain_test:
  assumes "iter_order (wb_pending two_transactions) (order two_transactions)"
  shows "test_drain_all_clears_pending order"
proof -
  let ?tx1 = "zero_tx_id" and ?tx2 = "zero_tx_id[0 := 1]"
  have ne: "?tx2 \<noteq> ?tx1" by (simp add: zero_tx_id_unfold)
  have ev: "wb_events two_transactions tx = (if tx = ?tx1 then [window_event 1 ?tx1] else if tx = ?tx2 then [window_event 2 ?tx2] else [])" for tx
    using ne by (auto simp: two_transactions_def Let_def wb_ingest_events window_event_def wb_new_def wb_events_def wb_ingest_def)
  have keys: "set (order two_transactions) = {?tx1, ?tx2}" "distinct (order two_transactions)"
    using assms ne by (auto simp: iter_order_def two_transactions_def Let_def wb_ingest_def wb_new_def window_event_def)
  then have two: "length (order two_transactions) = 2" using ne by (metis card_2_iff distinct_card)
  have "List.map_filter (\<lambda>k. window_of k (wb_events two_transactions k)) (order two_transactions) =
      map (\<lambda>k. the (window_of k (wb_events two_transactions k))) (order two_transactions)"
    using keys(1) ev by (auto simp: List.map_filter_def window_of_def intro!: filter_True)
  then show ?thesis
    using drain_all_keys [OF assms] two
    by (simp add: test_drain_all_clears_pending_def split_def wb_pending_count_def hm_simps)
qed

section \<open>The serializer\<close>

definition sample_window_record :: execution_window where
  "sample_window_record = \<lparr>ew_transaction_id = zero_tx_id, ew_slot = 5,
     ew_events = [\<lparr>ev_program_id = zero_pubkey, ev_syscall_id = 1, ev_args_hash = 42, ev_timestamp_ns = 1000,
        ev_slot = 5, ev_transaction_id = zero_tx_id, ev_depth = 0\<rparr>],
     ew_start_ts = 1000, ew_end_ts = 1000\<rparr>"

definition test_serialize_roundtrip ::
  "(execution_window \<Rightarrow> rust_str option) \<Rightarrow> (rust_str \<Rightarrow> execution_window option) \<Rightarrow> bool" where
  "test_serialize_roundtrip to_vec from_slice \<longleftrightarrow>
     (case serialize_window to_vec sample_window_record of
        Inl _ \<Rightarrow> False
      | Inr bytes \<Rightarrow>
          (case from_slice bytes of
             None \<Rightarrow> False
           | Some w2 \<Rightarrow> ew_slot w2 = 5 \<and> ew_events w2 \<noteq> [] \<and> ev_syscall_id (ew_events w2 ! 0) = 1))"

lemma serializer_test:
  "codec_ok to_vec from_slice sample_window_record \<Longrightarrow> test_serialize_roundtrip to_vec from_slice"
  by (auto simp: test_serialize_roundtrip_def codec_ok_def serialize_window_def sample_window_record_def
      split: option.splits)

end
