(* ===== verification/OptimizerTests.thy ===== *)
theory OptimizerTests
  imports Batcher CacheHitRate DedupTable Prefetcher FloatErrors
begin

text \<open>
  The tests of the optimizer crate (the modules \<open>tests\<close> of the files of \<open>optimizer/src\<close>, and
  \<open>optimizer/tests\<close>) on the model, in the debug build that they run in.  The batcher is tested in
  every iteration order of its map, the cache on the reference LRU cache.
\<close>

section \<open>The batcher\<close>

definition batch_p :: "u32 \<Rightarrow> u64 \<Rightarrow> pending_syscall" where
  "batch_p sid h = \<lparr>ps_syscall_id = sid, ps_args_hash = h, ps_args = [], ps_sequence_index = 0\<rparr>"

definition test_batches_sysvar_reads :: "(groups \<Rightarrow> syscall_id list) \<Rightarrow> bool" where
  "test_batches_sysvar_reads order \<longleftrightarrow>
     (case batch_sysvar_reads order [batch_p 1 100, batch_p 1 200, batch_p 2 300] of Inl _ \<Rightarrow> False | Inr batches \<Rightarrow> length batches = 2)"

definition test_deduplicates_identical_hashes :: "(groups \<Rightarrow> syscall_id list) \<Rightarrow> bool" where
  "test_deduplicates_identical_hashes order \<longleftrightarrow>
     (case batch_sysvar_reads order [batch_p 1 100, batch_p 1 100, batch_p 1 100] of
        Inl _ \<Rightarrow> False
      | Inr batches \<Rightarrow> length batches = 1 \<and> length (bf_args_hashes (batches ! 0)) = 1)"

definition test_non_batchable_syscalls_excluded :: "(groups \<Rightarrow> syscall_id list) \<Rightarrow> bool" where
  "test_non_batchable_syscalls_excluded order \<longleftrightarrow>
     (case batch_sysvar_reads order [batch_p 20 0, batch_p 30 0, batch_p 60 0] of Inl _ \<Rightarrow> False | Inr batches \<Rightarrow> batches = [])"

definition test_can_batch_boundaries :: bool where
  "test_can_batch_boundaries \<longleftrightarrow> can_batch 1 \<and> can_batch 9 \<and> \<not> can_batch 10 \<and> \<not> can_batch 0"

definition pending_at :: "u32 \<Rightarrow> u64 \<Rightarrow> nat \<Rightarrow> pending_syscall" where
  "pending_at sid h i = \<lparr>ps_syscall_id = sid, ps_args_hash = h, ps_args = [], ps_sequence_index = i\<rparr>"

definition test_batcher_groups_by_syscall_id :: "(groups \<Rightarrow> syscall_id list) \<Rightarrow> bool" where
  "test_batcher_groups_by_syscall_id order \<longleftrightarrow>
     (case batch_sysvar_reads order [pending_at 1 0 0, pending_at 1 1 1, pending_at 2 0 2] of
        Inl _ \<Rightarrow> False
      | Inr batches \<Rightarrow> length batches = 2 \<and> (\<Sum>b\<leftarrow>batches. length (bf_args_hashes b)) = 3)"

lemma batch_of_ids:
  assumes "\<And>m. iter_order m (order m)" "batchable_ids pending = set ids" "sorted ids" "distinct ids"
  shows "batch_sysvar_reads order pending = Inr (map (\<lambda>sid.
     let hashes = first_occurrences (hashes_of pending sid)
     in \<lparr>bf_syscall_ids = replicate (length hashes) sid, bf_args_hashes = hashes\<rparr>) ids)"
  unfolding batch_result [OF assms(1)] assms(2) by (simp add: assms(3,4) sorted_list_of_set_sort_remdups
      distinct_remdups_id sorted_sort_id)

lemma batcher_tests:
  assumes "\<And>m. iter_order m (order m)"
  shows "test_batches_sysvar_reads order" "test_deduplicates_identical_hashes order"
    "test_non_batchable_syscalls_excluded order" "test_can_batch_boundaries" "test_batcher_groups_by_syscall_id order"
proof -
  note eval = can_batch_def batch_p_def pending_at_def batchable_ids_def hashes_of_def first_occurrences_def
  show "test_can_batch_boundaries" by (simp add: test_can_batch_boundaries_def can_batch_def)
  have "batchable_ids [batch_p 1 100, batch_p 1 200, batch_p 2 300] = set [1, 2]" by (auto simp: eval)
  from batch_of_ids [OF assms this] show "test_batches_sysvar_reads order"
    by (simp add: test_batches_sysvar_reads_def)
  have "batchable_ids [batch_p 1 100, batch_p 1 100, batch_p 1 100] = set [1]" by (auto simp: eval)
  from batch_of_ids [OF assms this] show "test_deduplicates_identical_hashes order"
    by (simp add: test_deduplicates_identical_hashes_def Let_def) (simp add: eval)
  have "batchable_ids [batch_p 20 0, batch_p 30 0, batch_p 60 0] = set []" by (auto simp: eval)
  from batch_of_ids [OF assms this] show "test_non_batchable_syscalls_excluded order"
    by (simp add: test_non_batchable_syscalls_excluded_def)
  have "batchable_ids [pending_at 1 0 0, pending_at 1 1 1, pending_at 2 0 2] = set [1, 2]" by (auto simp: eval)
  from batch_of_ids [OF assms this] show "test_batcher_groups_by_syscall_id order"
    by (simp add: test_batcher_groups_by_syscall_id_def Let_def) (simp add: eval)
qed

section \<open>The dedup table\<close>

definition test_miss_on_empty :: bool where
  "test_miss_on_empty \<longleftrightarrow> (let table = dedup_new in dedup_check table zero_tx_id 1 0 = None)"

definition test_hit_after_record :: bool where
  "test_hit_after_record \<longleftrightarrow>
     (let table = dedup_new; tx = zero_tx_id; table = dedup_record table tx 20 12345 [0xDE, 0xAD]
      in dedup_check table tx 20 12345 = Some [0xDE, 0xAD])"

definition test_dedup_count_increments :: bool where
  "test_dedup_count_increments \<longleftrightarrow>
     (let tx = zero_tx_id; table = dedup_record dedup_new tx 1 0 []
      in res_bind (dedup_check_and_count Debug table tx 1 0) (\<lambda>(_, table).
         res_bind (dedup_check_and_count Debug table tx 1 0) (\<lambda>(_, table). Inr (dedup_count table))) = Inr 2)"

definition test_clear_transaction_removes_entries :: bool where
  "test_clear_transaction_removes_entries \<longleftrightarrow>
     (let table = dedup_new; tx = zero_tx_id; tx2 = zero_tx_id[0 := 1];
          table = dedup_record table tx 1 0 [];
          table = dedup_record table tx2 2 0 [];
          table = dedup_clear_transaction table tx
      in dedup_check table tx 1 0 = None \<and> dedup_check table tx2 2 0 \<noteq> None)"

definition test_dedup_returns_cached_on_second_call :: bool where
  "test_dedup_returns_cached_on_second_call \<longleftrightarrow>
     (let tx = zero_tx_id; table = dedup_record dedup_new tx SOL_SHA256 100 [0xAB]
      in case dedup_check_and_count Debug table tx SOL_SHA256 100 of
           Inl _ \<Rightarrow> False
         | Inr (result, table) \<Rightarrow> result = Some [0xAB] \<and> dedup_count table = 1)"

lemma dedup_tests: "test_miss_on_empty" "test_hit_after_record" "test_dedup_count_increments"
  "test_clear_transaction_removes_entries" "test_dedup_returns_cached_on_second_call"
  by (simp_all add: test_miss_on_empty_def test_hit_after_record_def test_dedup_count_increments_def
      test_clear_transaction_removes_entries_def test_dedup_returns_cached_on_second_call_def dedup_new_def
      dedup_check_def dedup_record_def dedup_check_and_count_def dedup_clear_transaction_def dedup_count_def
      add_u64_def zero_tx_id_unfold Let_def)

section \<open>The cache\<close>

type_synonym ref_cache = "(lru_key, cached_result) ref_lru sysvar_cache"

definition make_cache :: ref_cache where
  "make_cache = cache_new ref_lru_ops 128 1 10"

definition test_basic_hit_miss :: bool where
  "test_basic_hit_miss \<longleftrightarrow>
     (let cache = make_cache; key = \<lparr>ck_syscall_id = SOL_SHA256, ck_args_hash = 42\<rparr>;
          (cache, a) = cache_get ref_lru_ops cache key;
          cache = cache_insert ref_lru_ops cache key \<lparr>cr_data = [1, 2], cr_epoch = 1, cr_cached_at_slot = 10\<rparr>;
          (cache, b) = cache_get ref_lru_ops cache key;
          (hits, misses) = cache_stats cache
      in a = None \<and> b \<noteq> None \<and> hits = 1 \<and> misses = 1)"

definition test_epoch_invalidation :: bool where
  "test_epoch_invalidation \<longleftrightarrow>
     (let cache = make_cache; key = \<lparr>ck_syscall_id = SOL_GET_CLOCK_SYSVAR, ck_args_hash = 1\<rparr>;
          cache = cache_insert ref_lru_ops cache key \<lparr>cr_data = [0], cr_epoch = 1, cr_cached_at_slot = 10\<rparr>;
          (cache, a) = cache_get ref_lru_ops cache key;
          cache = cache\<lparr>sc_current_epoch := 2\<rparr>;
          (cache, b) = cache_get ref_lru_ops cache key
      in a \<noteq> None \<and> b = None)"

definition test_permanent_entry_survives_epoch_change :: bool where
  "test_permanent_entry_survives_epoch_change \<longleftrightarrow>
     (let cache = make_cache; key = \<lparr>ck_syscall_id = SOL_SHA256, ck_args_hash = 99\<rparr>;
          cache = cache_insert ref_lru_ops cache key \<lparr>cr_data = [0xAB], cr_epoch = 1, cr_cached_at_slot = 10\<rparr>;
          cache = cache\<lparr>sc_current_epoch := 5\<rparr>;
          (cache, a) = cache_get ref_lru_ops cache key
      in a \<noteq> None)"

fun fp_abs :: "'p fp \<Rightarrow> 'p fp" where
  "fp_abs (Fin x) = Fin \<bar>x\<bar>"
| "fp_abs NInf = PInf"
| "fp_abs a = a"

definition test_cache_hit_rate_accuracy :: bool where
  "test_cache_hit_rate_accuracy \<longleftrightarrow>
     (let cache = cache_new ref_lru_ops 256 1 5; key = \<lparr>ck_syscall_id = SOL_SHA256, ck_args_hash = 1234\<rparr>;
          cache = cache_insert ref_lru_ops cache key \<lparr>cr_data = [0], cr_epoch = 1, cr_cached_at_slot = 5\<rparr>;
          (cache, _) = cache_get ref_lru_ops cache key;
          (cache, _) = cache_get ref_lru_ops cache \<lparr>ck_syscall_id = SOL_SHA256, ck_args_hash = 9999\<rparr>
      in case cache_hit_rate Debug (cache :: ref_cache) of
           Inl _ \<Rightarrow> False | Inr rate \<Rightarrow> fp_abs (rate - to_fp (1 / 2)) < to_fp (1 / 1000))"

lemmas cache_test_eval = make_cache_def ref_lru_ops_def cache_new_def cache_insert_def cache_get_def cache_stats_def
  invalidation_table_def without_def syscall_ids Let_def

lemma cache_tests: "test_basic_hit_miss" "test_epoch_invalidation" "test_permanent_entry_survives_epoch_change"
  by (simp_all add: test_basic_hit_miss_def test_epoch_invalidation_def
      test_permanent_entry_survives_epoch_change_def cache_test_eval)

lemma hit_rate_test: "test_cache_hit_rate_accuracy"
proof -
  have nums: "(fp_of_u64 1 :: f64) = Fin 1" "(fp_of_u64 2 :: f64) = Fin 2" "(to_fp (1 / 2) :: f64) = Fin (1 / 2)"
    "(to_fp 0 :: f64) = Fin 0"
    using to_fp_numeral_f64 [of "num.Bit0 num.One"] to_fp_dyadic_f64 [of 1 1] to_fp_int_f64 [of 0]
    by (simp_all add: fp_of_u64_def)
  have "near (0 + 1 / 2 ^ 53) (to_fp (1 / 1000)) (1 / 1000)" by (rule near_to_fp) simp_all
  then obtain r where r: "to_fp (1 / 1000) = (Fin r :: f64)" "\<bar>r - 1 / 1000\<bar> \<le> 0 + 1 / 2 ^ 53"
    unfolding near_def by blast
  have "1 / 2 ^ 53 < (1 / 1000 :: real)" by simp
  with r(2) have "0 < r" by linarith
  then show ?thesis
    by (simp add: test_cache_hit_rate_accuracy_def cache_test_eval cache_hit_rate_def add_u64_def nums r(1)
        divide_fp_def minus_fp_def less_fp_def)
qed

section \<open>The prefetcher\<close>

definition test_trigger_above_threshold :: bool where
  "test_trigger_above_threshold \<longleftrightarrow>
     (let pf = prefetcher_new (to_fp (8 / 10));
          pf = trigger pf [(1, 0xAABB, to_fp (9 / 10)), (2, 0xCCDD, to_fp (5 / 10)), (3, 0xEEFF, to_fp (85 / 100))]
      in buffer_len pf = 2)"

definition test_consume_hit :: bool where
  "test_consume_hit \<longleftrightarrow>
     (let pf = trigger (prefetcher_new (to_fp (5 / 10))) [(SOL_SHA256, 0xDEADBEEF, to_fp (9 / 10))];
          (pf, result) = consume pf SOL_SHA256 0xDEADBEEF;
          (hits, _) = prefetcher_stats pf
      in (case result of None \<Rightarrow> False | Some r \<Rightarrow> length r = 32) \<and> hits = 1)"

definition test_consume_miss_when_not_prefetched :: bool where
  "test_consume_miss_when_not_prefetched \<longleftrightarrow>
     (let pf = prefetcher_new (to_fp (5 / 10)) in snd (consume pf 99 0) = None)"

definition test_all_below_threshold_nothing_prefetched :: bool where
  "test_all_below_threshold_nothing_prefetched \<longleftrightarrow>
     (let pf = trigger (prefetcher_new (to_fp (99 / 100)))
            [(1, 0, to_fp (5 / 10)), (2, 0, to_fp (7 / 10)), (3, 0, to_fp (98 / 100))]
      in buffer_len pf = 0)"

definition test_duplicate_key_not_inserted_twice :: bool where
  "test_duplicate_key_not_inserted_twice \<longleftrightarrow>
     (let pf = prefetcher_new (to_fp (5 / 10));
          pf = trigger pf [(SOL_GET_CLOCK_SYSVAR, 0xABC, to_fp (9 / 10))];
          pf = trigger pf [(SOL_GET_CLOCK_SYSVAR, 0xABC, to_fp (9 / 10))]
      in buffer_len pf = 1)"

definition test_prefetcher_only_prefetches_above_threshold :: bool where
  "test_prefetcher_only_prefetches_above_threshold \<longleftrightarrow>
     (let pf = trigger (prefetcher_new (to_fp (8 / 10)))
            [(SOL_GET_CLOCK_SYSVAR, 0x1111, to_fp (95 / 100)), (SOL_GET_RENT_SYSVAR, 0x2222, to_fp (70 / 100)),
             (SOL_SHA256, 0x3333, to_fp (85 / 100))]
      in buffer_len pf = 2)"

text \<open>Two decimals with a thousandth (in binary) between them keep their order when rounded to \<open>f32\<close>.\<close>

lemma f32_order:
  assumes "0 \<le> x" "x \<le> of_int m / 2 ^ 10" "of_int n / 2 ^ 10 \<le> y" "y \<le> 1" "m < n" "0 \<le> m" "n \<le> 1024"
  shows "(to_fp x :: f32) < to_fp y \<and> \<not> (to_fp y :: f32) < to_fp x"
proof -
  have exact: "(to_fp (of_int k / 2 ^ 10) :: f32) = Fin (of_int k / 2 ^ 10)" if "0 \<le> k" "k \<le> 1024" for k :: int
    using that by (intro to_fp_dyadic) (simp_all add: abs_less_iff field_simps)
  have ends: "(to_fp 0 :: f32) = Fin 0" "(to_fp 1 :: f32) = Fin 1" using exact [of 0] exact [of 1024] by simp_all
  have m: "m \<le> 1024" and n: "0 \<le> n" using assms(5-7) by simp_all
  obtain r where r: "to_fp x = (Fin r :: f32)" "r \<le> of_int m / 2 ^ 10"
    using to_fp_between [OF assms(1,2) ends(1) exact [OF assms(6) m]] by blast
  obtain s where s: "to_fp y = (Fin s :: f32)" "of_int n / 2 ^ 10 \<le> s"
    using to_fp_between [OF assms(3,4) exact [OF n assms(7)] ends(2)] by blast
  have "of_int m / 2 ^ 10 < (of_int n / 2 ^ 10 :: real)" using assms(5) by (simp add: divide_strict_right_mono)
  then show ?thesis using r s by (auto simp: less_fp_def)
qed

lemmas prefetch_test_eval = prefetcher_new_def trigger_def buffer_len_def hm_simps consume_def prefetcher_stats_def
  simulate_fetch_def syscall_ids Let_def

lemma prefetcher_tests: "test_trigger_above_threshold" "test_consume_hit" "test_consume_miss_when_not_prefetched"
  "test_all_below_threshold_nothing_prefetched" "test_duplicate_key_not_inserted_twice"
  "test_prefetcher_only_prefetches_above_threshold"
proof -
  note below = f32_order [THEN conjunct1] and above = f32_order [THEN conjunct2]
  have "(to_fp (5 / 10) :: f32) < to_fp (8 / 10)" by (rule below [of _ 600 700]) simp_all
  moreover have "\<not> (to_fp (9 / 10) :: f32) < to_fp (8 / 10)" by (rule above [of _ 820 900]) simp_all
  moreover have "\<not> (to_fp (85 / 100) :: f32) < to_fp (8 / 10)" by (rule above [of _ 820 860]) simp_all
  ultimately show "test_trigger_above_threshold" by (simp add: test_trigger_above_threshold_def prefetch_test_eval)
  have five: "\<not> (to_fp (9 / 10) :: f32) < to_fp (5 / 10)" by (rule above [of _ 600 900]) simp_all
  then show "test_consume_hit" "test_duplicate_key_not_inserted_twice"
    by (simp_all add: test_consume_hit_def test_duplicate_key_not_inserted_twice_def prefetch_test_eval)
  show "test_consume_miss_when_not_prefetched"
    by (simp add: test_consume_miss_when_not_prefetched_def prefetch_test_eval)
  have "(to_fp (5 / 10) :: f32) < to_fp (99 / 100)" by (rule below [of _ 600 700]) simp_all
  moreover have "(to_fp (7 / 10) :: f32) < to_fp (99 / 100)" by (rule below [of _ 800 900]) simp_all
  moreover have "(to_fp (98 / 100) :: f32) < to_fp (99 / 100)" by (rule below [of _ 1005 1010]) simp_all
  ultimately show "test_all_below_threshold_nothing_prefetched"
    by (simp add: test_all_below_threshold_nothing_prefetched_def prefetch_test_eval)
  have "\<not> (to_fp (95 / 100) :: f32) < to_fp (8 / 10)" by (rule above [of _ 820 900]) simp_all
  moreover have "(to_fp (70 / 100) :: f32) < to_fp (8 / 10)" by (rule below [of _ 750 800]) simp_all
  moreover have "\<not> (to_fp (85 / 100) :: f32) < to_fp (8 / 10)" by (rule above [of _ 820 860]) simp_all
  ultimately show "test_prefetcher_only_prefetches_above_threshold"
    by (simp add: test_prefetcher_only_prefetches_above_threshold_def prefetch_test_eval)
qed

end
