(* ===== verification/SafetyTests.thy ===== *)
theory SafetyTests
  imports Validator
begin

text \<open>
  The tests of the safety crate (the modules \<open>tests\<close> of the files of \<open>safety/src\<close>) on the model.
\<close>

section \<open>The classifier\<close>

definition test_sysvar_reads_are_readonly :: bool where
  "test_sysvar_reads_are_readonly \<longleftrightarrow> (let c = classifier_new
     in classify c SOL_GET_CLOCK_SYSVAR = ReadOnly \<and> classify c SOL_GET_RENT_SYSVAR = ReadOnly)"

definition test_crypto_is_idempotent :: bool where
  "test_crypto_is_idempotent \<longleftrightarrow> (let c = classifier_new
     in classify c SOL_SHA256 = Idempotent \<and> is_optimization_eligible c SOL_SHA256)"

definition test_panic_is_state_changing :: bool where
  "test_panic_is_state_changing \<longleftrightarrow> (let c = classifier_new
     in classify c SOL_PANIC = StateChanging \<and> \<not> is_optimization_eligible c SOL_PANIC)"

definition test_invoke_signed_is_order_sensitive :: bool where
  "test_invoke_signed_is_order_sensitive \<longleftrightarrow> (let c = classifier_new
     in classify c SOL_INVOKE_SIGNED = OrderSensitive \<and> \<not> is_optimization_eligible c SOL_INVOKE_SIGNED)"

definition test_unknown_id_is_state_changing :: bool where
  "test_unknown_id_is_state_changing \<longleftrightarrow> (let c = classifier_new in classify c 9999 = StateChanging)"

definition test_can_reorder_both_readonly :: bool where
  "test_can_reorder_both_readonly \<longleftrightarrow> can_reorder SOL_GET_CLOCK_SYSVAR SOL_GET_RENT_SYSVAR"

definition test_cannot_reorder_if_one_is_idempotent :: bool where
  "test_cannot_reorder_if_one_is_idempotent \<longleftrightarrow> \<not> can_reorder SOL_GET_CLOCK_SYSVAR SOL_SHA256"

lemma classifier_tests: "test_sysvar_reads_are_readonly" "test_crypto_is_idempotent" "test_panic_is_state_changing"
  "test_invoke_signed_is_order_sensitive" "test_unknown_id_is_state_changing" "test_can_reorder_both_readonly"
  "test_cannot_reorder_if_one_is_idempotent"
  by (simp_all add: test_sysvar_reads_are_readonly_def test_crypto_is_idempotent_def test_panic_is_state_changing_def
      test_invoke_signed_is_order_sensitive_def test_unknown_id_is_state_changing_def test_can_reorder_both_readonly_def
      test_cannot_reorder_if_one_is_idempotent_def can_reorder_def is_optimization_eligible_def classify_table syscall_ids)

section \<open>The dependency checker\<close>

text \<open>The event \<open>ev\<close> of the tests of the checker and of the validator.\<close>

definition test_ev :: "u32 \<Rightarrow> trace_event" where
  "test_ev sid = \<lparr>ev_program_id = zero_pubkey, ev_syscall_id = sid, ev_args_hash = 0, ev_timestamp_ns = 0,
     ev_slot = 1, ev_transaction_id = zero_tx_id, ev_depth = 0\<rparr>"

definition test_no_deps_for_all_readonly :: bool where
  "test_no_deps_for_all_readonly \<longleftrightarrow>
     (let seq = [test_ev SOL_GET_CLOCK_SYSVAR, test_ev SOL_GET_RENT_SYSVAR]
      in \<not> has_dependencies seq \<and> is_safe_to_reorder seq)"

definition test_dep_detected_after_state_change :: bool where
  "test_dep_detected_after_state_change \<longleftrightarrow>
     (let seq = [test_ev SOL_SET_RETURN_DATA, test_ev SOL_GET_RETURN_DATA]
      in case check_sequence seq of
           [] \<Rightarrow> False | dep # _ \<Rightarrow> dd_from_index dep = 0 \<and> dd_to_index dep = 1)"

definition test_mixed_sequence_not_safe_to_reorder :: bool where
  "test_mixed_sequence_not_safe_to_reorder \<longleftrightarrow>
     (let seq = [test_ev SOL_GET_CLOCK_SYSVAR, test_ev SOL_SHA256] in \<not> is_safe_to_reorder seq)"

lemma checker_tests: "test_no_deps_for_all_readonly" "test_dep_detected_after_state_change"
  "test_mixed_sequence_not_safe_to_reorder"
  by (simp_all add: test_no_deps_for_all_readonly_def test_dep_detected_after_state_change_def
      test_mixed_sequence_not_safe_to_reorder_def is_safe_to_reorder_def has_dependencies_def check_sequence_def
      mutates_def reads_after_def dependency_def classify_table test_ev_def syscall_ids)

section \<open>The validator\<close>

definition validator :: safety_validator where
  "validator = validator_new True"

definition test_cache_approved_for_readonly :: bool where
  "test_cache_approved_for_readonly \<longleftrightarrow> (let v = validator in vr_approved (validate_cache v SOL_GET_CLOCK_SYSVAR))"

definition validator_ev :: "u32 \<Rightarrow> trace_event" where
  "validator_ev sid = \<lparr>ev_program_id = zero_pubkey, ev_syscall_id = sid, ev_args_hash = 0, ev_timestamp_ns = 0,
     ev_slot = 1, ev_transaction_id = zero_tx_id, ev_depth = 0\<rparr>"

definition test_cache_rejected_for_state_changing :: bool where
  "test_cache_rejected_for_state_changing \<longleftrightarrow> (let v = validator
     in \<not> vr_approved (validate_cache v SOL_PANIC) \<and> \<not> vr_approved (validate_cache v SOL_INVOKE_SIGNED))"

definition test_batch_approved_for_sysvar_reads :: bool where
  "test_batch_approved_for_sysvar_reads \<longleftrightarrow> (let v = validator
     in vr_approved (validate_batch v [SOL_GET_CLOCK_SYSVAR, SOL_GET_RENT_SYSVAR]))"

definition test_batch_rejected_if_any_ineligible :: bool where
  "test_batch_rejected_if_any_ineligible \<longleftrightarrow> (let v = validator
     in \<not> vr_approved (validate_batch v [SOL_GET_CLOCK_SYSVAR, SOL_PANIC]))"

definition test_reorder_approved_for_all_readonly :: bool where
  "test_reorder_approved_for_all_readonly \<longleftrightarrow>
     (let v = validator; seq = [validator_ev SOL_GET_CLOCK_SYSVAR, validator_ev SOL_GET_RENT_SYSVAR]
      in vr_approved (validate_reorder v seq))"

definition test_reorder_rejected_with_state_change :: bool where
  "test_reorder_rejected_with_state_change \<longleftrightarrow>
     (let v = validator; seq = [validator_ev SOL_SET_RETURN_DATA, validator_ev SOL_GET_RETURN_DATA]
      in \<not> vr_approved (validate_reorder v seq))"

definition test_dedup_approved_for_crypto :: bool where
  "test_dedup_approved_for_crypto \<longleftrightarrow> (let v = validator in vr_approved (validate_dedup v SOL_SHA256))"

definition test_dedup_rejected_for_state_changing :: bool where
  "test_dedup_rejected_for_state_changing \<longleftrightarrow> (let v = validator
     in \<not> vr_approved (validate_dedup v SOL_SET_RETURN_DATA))"

lemma validator_tests: "test_cache_approved_for_readonly" "test_cache_rejected_for_state_changing"
  "test_batch_approved_for_sysvar_reads" "test_batch_rejected_if_any_ineligible"
  "test_reorder_approved_for_all_readonly" "test_reorder_rejected_with_state_change"
  "test_dedup_approved_for_crypto" "test_dedup_rejected_for_state_changing"
  by (simp_all add: test_cache_approved_for_readonly_def test_cache_rejected_for_state_changing_def
      test_batch_approved_for_sysvar_reads_def test_batch_rejected_if_any_ineligible_def
      test_reorder_approved_for_all_readonly_def test_reorder_rejected_with_state_change_def
      test_dedup_approved_for_crypto_def test_dedup_rejected_for_state_changing_def validator_def Let_def
      validate_cache_approved_iff validate_batch_approved_iff validate_reorder_approved_iff validate_dedup_approved_iff
      is_optimization_eligible_def classify_table validator_ev_def syscall_ids)

end
