(* ===== verification/AnalysisTests.thy ===== *)
theory AnalysisTests
  imports NegativeScore AnomalyScorer Predictor
begin

text \<open>
  The tests of the anomaly crate (\<open>anomaly/src\<close>) and of \<open>ml/inference/src\<close> on the model, in the
  debug build that they run in; for every iteration order of the maps, and for every logarithm that
  is within 1/1024 of the real one.
\<close>

lemma literal:
  assumes "\<bar>x\<bar> < 2"
  shows "\<exists>r. to_fp x = (Fin r :: f64) \<and> \<bar>r - x\<bar> \<le> 1 / 10 ^ 9"
proof -
  have "near (0 + 1 / 2 ^ 53) (to_fp x) x" by (rule near_to_fp) (use assms in simp_all)
  then have "near (1 / 10 ^ 9) (to_fp x) x" by (rule near_mono) simp
  then show ?thesis by (simp add: near_def)
qed

section \<open>The scorer\<close>

definition test_zero_vector_scores_zero :: bool where
  "test_zero_vector_scores_zero \<longleftrightarrow>
     (let scorer = scorer_new ''anomaly.onnx'' (to_fp (5 / 100)) in fp_eq (scorer_score scorer (replicate 8 0)) 0)"

definition test_high_magnitude_vector_is_anomalous :: bool where
  "test_high_magnitude_vector_is_anomalous \<longleftrightarrow>
     (let scorer = scorer_new ''anomaly.onnx'' (to_fp (5 / 100)); fv = replicate 8 (to_fp 2)
      in scorer_is_anomalous scorer fv)"

definition test_normal_vector_not_anomalous :: bool where
  "test_normal_vector_not_anomalous \<longleftrightarrow>
     (let scorer = scorer_new ''anomaly.onnx'' (to_fp (5 / 100));
          fv = map to_fp [10 / 100, 5 / 100, 20 / 100, 10 / 100, 30 / 100, 10 / 100, 5 / 100, 2 / 100]
      in \<not> scorer_is_anomalous scorer fv)"

definition test_score_capped_at_one :: bool where
  "test_score_capped_at_one \<longleftrightarrow>
     (let scorer = scorer_new ''anomaly.onnx'' (to_fp (5 / 100)); score = scorer_score scorer (replicate 8 (to_fp 100))
      in score \<le> 1)"

definition test_empty_vector_scores_zero :: bool where
  "test_empty_vector_scores_zero \<longleftrightarrow>
     (let scorer = scorer_new ''model.onnx'' (to_fp (10 / 100)) in fp_eq (scorer_score scorer []) 0)"

lemma replicate_8: "replicate 8 x = [x, x, x, x, x, x, x, x]"
  by (simp add: numeral_eq_Suc)

lemma contamination_near: "\<exists>k. 1 - os_contamination (scorer_new m (to_fp (5 / 100))) = Fin k \<and> \<bar>k - 95 / 100\<bar> \<le> 1 / 10 ^ 8"
proof -
  obtain c where c: "to_fp (5 / 100) = (Fin c :: f64)" "\<bar>c - 5 / 100\<bar> \<le> 1 / 10 ^ 9" using literal [of "5 / 100"] by auto
  have "1 / 10 ^ 9 \<le> (1 / 100 :: real)" by simp
  with c(2) have b: "0 \<le> c" "c \<le> 1 / 2" by linarith+
  then have clamp: "os_contamination (scorer_new m (to_fp (5 / 100))) = Fin c"
    unfolding scorer_new_def c(1) by (simp add: fp_clamp_def to_fp_half zero_fp_def)
  have "\<bar>1 - c\<bar> < 2" using b by linarith
  then obtain k where k: "to_fp (1 - c) = (Fin k :: f64)" "\<bar>k - (1 - c)\<bar> \<le> 1 / 10 ^ 9" using literal by blast
  have "2 * (1 / 10 ^ 9) \<le> (1 / 10 ^ 8 :: real)" by simp
  with k(2) c(2) have "\<bar>k - 95 / 100\<bar> \<le> 1 / 10 ^ 8" by linarith
  then show ?thesis unfolding clamp using k(1) by (simp add: minus_fp_def one_fp_def)
qed

lemma scorer_tests: "test_zero_vector_scores_zero" "test_high_magnitude_vector_is_anomalous"
  "test_normal_vector_not_anomalous" "test_score_capped_at_one" "test_empty_vector_scores_zero"
proof -
  have ints: "(to_fp 0 :: f64) = Fin 0" "(to_fp 2 :: f64) = Fin 2" "(to_fp 3 :: f64) = Fin 3" "(to_fp 4 :: f64) = Fin 4"
    "(to_fp 8 :: f64) = Fin 8" "(to_fp 12 :: f64) = Fin 12" "(to_fp 16 :: f64) = Fin 16" "(to_fp 20 :: f64) = Fin 20"
    "(to_fp 24 :: f64) = Fin 24" "(to_fp 28 :: f64) = Fin 28" "(to_fp 32 :: f64) = Fin 32"
    using to_fp_int_f64 [of 0] by (simp_all add: to_fp_numeral_f64)
  obtain k where k: "1 - os_contamination (scorer_new ''anomaly.onnx'' (to_fp (5 / 100))) = Fin k"
    "\<bar>k - 95 / 100\<bar> \<le> 1 / 10 ^ 8" using contamination_near by blast
  have "1 / 10 ^ 8 \<le> (1 / 100 :: real)" by simp
  with k(2) have kb: "k < 1" "9 / 10 < k" by linarith+
  have "l2_norm (replicate 8 (0 :: f64)) = Fin 0"
    by (simp add: l2_norm_def fp_sum_def replicate_8 zero_fp_def plus_fp_def times_fp_def ints)
  then show "test_zero_vector_scores_zero"
    by (simp add: test_zero_vector_scores_zero_def scorer_score_def ints divide_fp_def fp_min_def one_fp_def
        zero_fp_def fp_eq_def)
  show "test_empty_vector_scores_zero"
    by (simp add: test_empty_vector_scores_zero_def scorer_score_def fp_eq_def zero_fp_def)
  have "x \<le> 1" if "fp_in x 0 1" for x :: f64
    using that by (auto simp: fp_in_def less_eq_fp_def one_fp_def fp_eq_def)
  then show "test_score_capped_at_one" using scorer_score_in by (simp add: test_score_capped_at_one_def)
  have "fp_sum (map (\<lambda>x. x * x) (replicate 8 (to_fp 2 :: f64))) = Fin 32"
    by (simp add: fp_sum_def replicate_8 zero_fp_def plus_fp_def times_fp_def ints)
  then have l2: "l2_norm (replicate 8 (to_fp 2 :: f64)) = to_fp (sqrt 32)" by (simp add: l2_norm_def)
  have "5 \<le> sqrt 32" "sqrt 32 \<le> 6" by (auto intro!: real_le_rsqrt real_le_lsqrt)
  then obtain r where r: "to_fp (sqrt 32) = (Fin r :: f64)" "5 \<le> r" "r \<le> 6"
    using to_fp_between [of 5 "sqrt 32" 6, where 'p = 53 and a' = 5 and b' = 6] by (auto simp: to_fp_numeral_f64)
  have "3 / 2 \<le> r / 3" "r / 3 \<le> 2" using r by simp_all
  then obtain s where s: "to_fp (r / 3) = (Fin s :: f64)" "3 / 2 \<le> s"
    using to_fp_between [of "3 / 2" "r / 3" 2, where 'p = 53 and a' = "3 / 2" and b' = 2]
      to_fp_dyadic_f64 [of 3 1] ints by auto
  then have "scorer_score s' (replicate 8 (to_fp 2)) = 1" for s'
    unfolding scorer_score_def l2 r(1) ints(3)
    by (simp add: divide_fp_def s(1) fp_min_def one_fp_def)
  then show "test_high_magnitude_vector_is_anomalous"
    unfolding test_high_magnitude_vector_is_anomalous_def scorer_is_anomalous_def Let_def k(1)
    using kb by (simp add: one_fp_def less_fp_def)
  let ?fv = "map to_fp [10 / 100, 5 / 100, 20 / 100, 10 / 100, 30 / 100, 10 / 100, 5 / 100, 2 / 100] :: f64 list"
  let ?sq = "[1 / 100, 25 / 10000, 4 / 100, 1 / 100, 9 / 100, 1 / 100, 25 / 10000, 4 / 10000] :: real list"
  have sq: "near (1 / 2 ^ 50) (to_fp x * to_fp x) (x * x)" if "0 \<le> x" "x \<le> 1" for x :: real
  proof -
    have "near (0 + 1 / 2 ^ 53) (to_fp x) x" by (rule near_to_fp) (use that in simp_all)
    then have x: "near (1 / 2 ^ 53) (to_fp x) x" by simp
    have "near (1 / 2 ^ 53 + 1 / 2 ^ 53 + 1 / 2 ^ 53 * (1 / 2 ^ 53) + 1 / 2 ^ 53) (to_fp x * to_fp x) (x * x)"
      by (rule near_mul [OF x x]) (use that in simp_all)
    then show ?thesis by (rule near_mono) simp
  qed
  have "list_all2 (near (1 / 2 ^ 50)) (map (\<lambda>x. x * x) ?fv) ?sq"
    using sq [of "10 / 100"] sq [of "5 / 100"] sq [of "20 / 100"] sq [of "30 / 100"] sq [of "2 / 100"] by simp
  then have "near (0 + real (length ?sq) * (1 / 2 ^ 50 + 1 / 2 ^ 53)) (foldl (+) 0 (map (\<lambda>x. x * x) ?fv)) (0 + sum_list ?sq)"
    by (rule near_sum) (simp_all add: zero_fp_def)
  then have "near (1 / 2 ^ 40) (fp_sum (map (\<lambda>x. x * x) ?fv)) (sum_list ?sq)"
    unfolding fp_sum_def by (simp add: near_mono)
  then obtain q where q: "l2_norm ?fv = Fin q" "4 / 10 - 1 / 2 ^ 53 \<le> q" "q \<le> 5 / 10 + 1 / 2 ^ 53"
    using near_sqrt [of "1 / 2 ^ 40" "fp_sum (map (\<lambda>x. x * x) ?fv)" "sum_list ?sq" "4 / 10" "5 / 10"]
    unfolding l2_norm_def by (auto simp: power2_eq_square)
  have "1 / 2 ^ 53 \<le> (1 / 10 :: real)" by simp
  with q have "q / 3 \<le> 2 / 10" "0 \<le> q / 3" "\<bar>q / 3\<bar> < 2" by linarith+
  then obtain u where u: "to_fp (q / 3) = (Fin u :: f64)" "\<bar>u - q / 3\<bar> \<le> 1 / 10 ^ 9" using literal by blast
  have "1 / 10 ^ 9 \<le> (1 / 10 :: real)" by simp
  with u(2) \<open>q / 3 \<le> 2 / 10\<close> have "u \<le> 3 / 10" by linarith
  moreover have "scorer_score s' ?fv = Fin u" for s'
    unfolding scorer_score_def q(1) ints(3) using \<open>u \<le> 3 / 10\<close>
    by (simp add: divide_fp_def u(1) fp_min_def one_fp_def)
  ultimately show "test_normal_vector_not_anomalous"
    unfolding test_normal_vector_not_anomalous_def scorer_is_anomalous_def Let_def k(1)
    using kb by (simp add: less_fp_def)
qed

section \<open>The policy\<close>

definition test_no_event_below_thresholds :: "nat option \<Rightarrow> bool" where
  "test_no_event_below_thresholds clock \<longleftrightarrow>
     (let policy = policy_new Log (to_fp (5 / 2)) (to_fp (7 / 10))
      in evaluate clock policy zero_pubkey (to_fp 1) (to_fp (3 / 10)) = None)"

definition test_event_triggered_on_high_kl :: "nat option \<Rightarrow> bool" where
  "test_event_triggered_on_high_kl clock \<longleftrightarrow>
     (let policy = policy_new Log (to_fp (5 / 2)) (to_fp (7 / 10));
          ev = evaluate clock policy zero_pubkey (to_fp 5) (to_fp (3 / 10))
      in case ev of None \<Rightarrow> False | Some e \<Rightarrow> ae_action_taken e = Log)"

definition test_event_triggered_on_high_isolation :: "nat option \<Rightarrow> bool" where
  "test_event_triggered_on_high_isolation clock \<longleftrightarrow>
     (let policy = policy_new Throttle (to_fp (5 / 2)) (to_fp (7 / 10));
          ev = evaluate clock policy zero_pubkey (to_fp (1 / 2)) (to_fp (9 / 10))
      in case ev of None \<Rightarrow> False | Some e \<Rightarrow> ae_action_taken e = Throttle)"

definition test_risk_score_capped_at_one :: "nat option \<Rightarrow> bool" where
  "test_risk_score_capped_at_one clock \<longleftrightarrow>
     (let policy = policy_new Halt (to_fp 1) (to_fp (1 / 2))
      in case evaluate clock policy zero_pubkey (to_fp 100) (to_fp 1) of
           None \<Rightarrow> False | Some ev \<Rightarrow> ae_risk_score ev \<le> 1)"

lemma policy_tests: "test_no_event_below_thresholds clock" "test_event_triggered_on_high_kl clock"
  "test_event_triggered_on_high_isolation clock" "test_risk_score_capped_at_one clock"
proof -
  have nums: "(to_fp 1 :: f64) = Fin 1" "(to_fp (5 / 2) :: f64) = Fin (5 / 2)" "(to_fp 5 :: f64) = Fin 5"
    "(to_fp 100 :: f64) = Fin 100"
    using to_fp_dyadic_f64 [of 5 1] by (simp_all add: to_fp_numeral_f64)
  have small: "1 / 10 ^ 9 \<le> (1 / 100 :: real)" by simp
  obtain a where a: "to_fp (3 / 10) = (Fin a :: f64)" "\<bar>a - 3 / 10\<bar> \<le> 1 / 10 ^ 9" using literal [of "3 / 10"] by auto
  obtain b where b: "to_fp (7 / 10) = (Fin b :: f64)" "\<bar>b - 7 / 10\<bar> \<le> 1 / 10 ^ 9" using literal [of "7 / 10"] by auto
  obtain c where c: "to_fp (9 / 10) = (Fin c :: f64)" "\<bar>c - 9 / 10\<bar> \<le> 1 / 10 ^ 9" using literal [of "9 / 10"] by auto
  have order: "\<not> b < a" "b < c" using a(2) b(2) c(2) small by linarith+
  show "test_no_event_below_thresholds clock" "test_event_triggered_on_high_kl clock"
    "test_event_triggered_on_high_isolation clock"
    using order by (simp_all add: test_no_event_below_thresholds_def test_event_triggered_on_high_kl_def
        test_event_triggered_on_high_isolation_def evaluate_def policy_new_def nums a(1) b(1) c(1) less_fp_def)
  have "x \<le> 1" if "x \<noteq> NaN \<and> \<not> 1 < x" for x :: f64
    using that by (cases x) (auto simp: less_eq_fp_def less_fp_def one_fp_def fp_eq_def)
  then show "test_risk_score_capped_at_one clock"
    using min_one_bounded
    by (simp add: test_risk_score_capped_at_one_def evaluate_def policy_new_def nums less_fp_def)
qed

section \<open>The baseline\<close>

definition make_test_events :: "u32 list \<Rightarrow> trace_event list" where
  "make_test_events ids = map (\<lambda>(i, sid). \<lparr>ev_program_id = zero_pubkey, ev_syscall_id = sid, ev_args_hash = 0,
     ev_timestamp_ns = of_nat i * 1000, ev_slot = 1, ev_transaction_id = zero_tx_id, ev_depth = 0\<rparr>)
     (List.enumerate 0 ids)"

definition baseline_test ::
  "((syscall_id, u64) fmap \<Rightarrow> syscall_id list) \<Rightarrow> u32 list \<Rightarrow> (program_baseline \<Rightarrow> bool) \<Rightarrow> bool" where
  "baseline_test order ids check \<longleftrightarrow>
     (case update Debug order (baseline_new zero_pubkey) (make_test_events ids) of
        Inl _ \<Rightarrow> False | Inr baseline \<Rightarrow> check baseline)"

definition test_update_sets_frequencies :: "((syscall_id, u64) fmap \<Rightarrow> syscall_id list) \<Rightarrow> bool" where
  "test_update_sets_frequencies order \<longleftrightarrow> baseline_test order [1, 1, 20] (\<lambda>baseline.
     0 < pb_total_observations baseline \<and> fmlookup (pb_syscall_frequencies baseline) 1 \<noteq> None \<and>
     fmlookup (pb_syscall_frequencies baseline) 20 \<noteq> None)"

definition test_crypto_ratio_increases_with_crypto_calls :: "((syscall_id, u64) fmap \<Rightarrow> syscall_id list) \<Rightarrow> bool" where
  "test_crypto_ratio_increases_with_crypto_calls order \<longleftrightarrow>
     baseline_test order [SOL_SHA256, SOL_SHA256, SOL_SHA256, SOL_LOG] (\<lambda>baseline. 0 < pb_crypto_ratio baseline)"

definition test_kl_divergence_zero_for_same_distribution ::
  "(f64 \<Rightarrow> f64) \<Rightarrow> ((syscall_id, u64) fmap \<Rightarrow> syscall_id list) \<Rightarrow> ((syscall_id, f64) fmap \<Rightarrow> syscall_id list) \<Rightarrow> bool" where
  "test_kl_divergence_zero_for_same_distribution lnf order orderf \<longleftrightarrow> baseline_test order [1, 2, 1, 2] (\<lambda>baseline.
     let observed = pb_syscall_frequencies baseline; kl = kl_divergence lnf orderf baseline observed
     in kl < to_fp (1 / 100))"

definition test_feature_vector_has_correct_length ::
  "((syscall_id, u64) fmap \<Rightarrow> syscall_id list) \<Rightarrow> ((syscall_id, f64) fmap \<Rightarrow> syscall_id list) \<Rightarrow> bool" where
  "test_feature_vector_has_correct_length order orderf \<longleftrightarrow> baseline_test order [1, 20, 30] (\<lambda>baseline.
     case feature_vector orderf baseline of Inl _ \<Rightarrow> False | Inr fv \<Rightarrow> length fv = 8)"

lemma baseline_testI:
  assumes "\<And>m. iter_order m (order m)" "length ids < 1000"
    and "\<And>b. update_all Debug order (baseline_new zero_pubkey) [make_test_events ids] = Inr b \<Longrightarrow> check b"
  shows "baseline_test order ids check"
proof -
  have "unat (ev_timestamp_ns e) < 2 ^ 63" if e: "e \<in> set (make_test_events ids)" for e
  proof -
    obtain x where x: "x \<in> set (List.enumerate 0 ids)" "ev_timestamp_ns e = of_nat (fst x) * 1000"
      using e unfolding make_test_events_def by force
    then obtain i where i: "ev_timestamp_ns e = of_nat i * 1000" "i < length ids"
      by (auto simp: in_set_enumerate_eq)
    then have "i * 1000 < 2 ^ 63" using assms(2) by simp
    moreover have "ev_timestamp_ns e = of_nat (i * 1000)" using i(1) by simp
    moreover from calculation(1) have "unat (of_nat (i * 1000) :: u64) = i * 1000" by (intro unat_of_nat_u64) simp
    ultimately show ?thesis by (simp only:)
  qed
  then have "\<exists>b. update_all Debug order (baseline_new zero_pubkey) [make_test_events ids] = Inr b"
    using update_all_total [of Debug "[make_test_events ids]" "baseline_new zero_pubkey" order] assms(1,2)
    by (simp add: baseline_new_def make_test_events_def)
  then obtain b where b: "update_all Debug order (baseline_new zero_pubkey) [make_test_events ids] = Inr b" by blast
  then have "update Debug order (baseline_new zero_pubkey) (make_test_events ids) = Inr b"
    by (auto simp: res_bind_Inr_iff)
  then show ?thesis using assms(3) [OF b] by (simp add: baseline_test_def)
qed

lemma test_events_ids: "map ev_syscall_id (make_test_events ids) = ids"
  by (simp add: make_test_events_def comp_def split_def)

lemma test_events_length [simp]: "length (make_test_events ids) = length ids"
  by (simp add: make_test_events_def)

lemma test_events_Nil [simp]: "make_test_events ids = [] \<longleftrightarrow> ids = []"
  by (metis length_0_conv test_events_length)

lemma one_update:
  assumes "update_all Debug order (baseline_new zero_pubkey) [make_test_events ids] = Inr b"
    and "\<And>m. iter_order m (order m)" "ids \<noteq> []" "length ids < 1000"
  shows "fmlookup (pb_syscall_frequencies b) sid = (if sid \<in> set ids
      then Some (blend 0 (float_share (\<lambda>e. ev_syscall_id e = sid) (make_test_events ids))) else None)"
    and "pb_crypto_ratio b = blend 0 (float_share is_crypto (make_test_events ids))"
    and "pb_total_observations b = of_nat (length ids)"
proof -
  let ?es = "make_test_events ids"
  have len: "length ?es = length ids" by simp
  have small: "\<forall>w \<in> set [?es]. length w < 2 ^ 64" using assms(4) len by simp
  have ids: "ev_syscall_id ` set ?es = set ids" by (metis test_events_ids set_map)
  note avg = update_all_lookup [OF assms(1,2) small]
  note ok = update_all_ok [OF assms(1) baseline_new_ok assms(2) small]
  have dom: "sid \<in> set ids \<longleftrightarrow> fmlookup (pb_syscall_frequencies b) sid \<noteq> None"
    using ok ids by (simp add: baseline_new_def flip: fmlookup_dom_iff)
  have "old_frequency (pb_syscall_frequencies b) sid = blend 0 (float_share (\<lambda>e. ev_syscall_id e = sid) ?es)"
    if "sid \<in> set ids"
    using avg [of sid] that ids by (simp add: baseline_new_def old_frequency_def)
  then show "fmlookup (pb_syscall_frequencies b) sid = (if sid \<in> set ids
      then Some (blend 0 (float_share (\<lambda>e. ev_syscall_id e = sid) ?es)) else None)"
    using dom by (auto simp: old_frequency_def)
  show "pb_crypto_ratio b = blend 0 (float_share is_crypto ?es)"
    using avg assms(3) len by (auto simp: baseline_new_def)
  show "pb_total_observations b = of_nat (length ids)"
    using ok len by (simp add: baseline_new_def)
qed

lemma blend_share_near:
  assumes "ids \<noteq> []" "length ids < 1000"
  shows "near (1 / 2 ^ 47) (blend 0 (float_share P (make_test_events ids)))
    (1 / 10 * share P (make_test_events ids))"
proof -
  have "near (1 / 2 ^ 53) (float_share P (make_test_events ids)) (share P (make_test_events ids))"
    using assms by (intro share_near) simp_all
  from blend_near [OF _ this, of 0 0] share_in show ?thesis by (simp add: exact_blend_def zero_fp_def)
qed

lemma baseline_tests:
  assumes "\<And>m. iter_order m (order m)"
  shows "test_update_sets_frequencies order" "test_crypto_ratio_increases_with_crypto_calls order"
    "test_feature_vector_has_correct_length order orderf"
proof -
  show "test_update_sets_frequencies order"
    unfolding test_update_sets_frequencies_def
    by (rule baseline_testI [OF assms])
      (use one_update [where order = order and ids = "[1, 1, 20]", OF _ assms] in auto)
  show "test_crypto_ratio_increases_with_crypto_calls order"
    unfolding test_crypto_ratio_increases_with_crypto_calls_def
  proof (rule baseline_testI [OF assms])
    let ?ids = "[SOL_SHA256, SOL_SHA256, SOL_SHA256, SOL_LOG]"
    fix b assume b: "update_all Debug order (baseline_new zero_pubkey) [make_test_events ?ids] = Inr b"
    have sh: "share is_crypto (make_test_events ?ids) = 3 / 4"
      by (simp add: share_def make_test_events_def CRYPTO_IDS_def syscall_ids)
    have "near (1 / 2 ^ 47) (pb_crypto_ratio b) (1 / 10 * (3 / 4))"
      using one_update(2) [OF b assms] blend_share_near [of ?ids is_crypto, unfolded sh] by simp
    then have "near (1 / 2 ^ 47) (pb_crypto_ratio b) (3 / 40)" by simp
    then obtain r where r: "pb_crypto_ratio b = Fin r" "\<bar>r - 3 / 40\<bar> \<le> 1 / 2 ^ 47" unfolding near_def by blast
    have "1 / 2 ^ 47 \<le> (1 / 100 :: real)" by simp
    with r(2) have "0 < r" by linarith
    then show "0 < pb_crypto_ratio b" by (simp add: r(1) zero_fp_def less_fp_def)
  qed simp
  show "test_feature_vector_has_correct_length order orderf"
    unfolding test_feature_vector_has_correct_length_def
  proof (rule baseline_testI [OF assms])
    fix b assume b: "update_all Debug order (baseline_new zero_pubkey) [make_test_events [1, 20, 30]] = Inr b"
    have "baseline_ok b" using update_all_ok [OF b baseline_new_ok assms] by (simp add: make_test_events_def)
    then obtain fv where fv: "feature_vector orderf b = Inr fv" using feature_vector_ok by blast
    then have "length fv = 8" by (auto simp: feature_vector_def Let_def res_bind_Inr_iff)
    then show "case feature_vector orderf b of Inl _ \<Rightarrow> False | Inr fv \<Rightarrow> length fv = 8" by (simp add: fv)
  qed simp
qed

text \<open>A frequency against itself: the quotient is one, and its logarithm almost zero.\<close>

lemma self_term:
  assumes "ln_near lnf" "near (1 / 2 ^ 47) f (1 / 20)"
  shows "near (1 / 10000) (f * lnf (f / fp_max f epsilon)) 0 \<and> 0 < f"
proof -
  obtain r where r: "f = Fin r" "\<bar>r - 1 / 20\<bar> \<le> 1 / 2 ^ 47" using assms(2) unfolding near_def by blast
  have "1 / 2 ^ 47 \<le> (1 / 100 :: real)" by simp
  with r(2) have b: "1 / 100 \<le> r" "r \<le> 6 / 100" by linarith+
  have one: "Fin r / fp_max (Fin r) epsilon = Fin 1" using b by (simp add: max_epsilon divide_fp_def)
  have "near (1 / 1024) (lnf (Fin 1)) 0" using assms(1) unfolding ln_near_def by (metis ln_one zero_less_one)
  then obtain l where l: "lnf (Fin 1) = Fin l" "\<bar>l\<bar> \<le> 1 / 1024" unfolding near_def by auto
  have "\<bar>r * l\<bar> \<le> 6 / 100 * (1 / 1024)" unfolding abs_mult using b l(2) by (intro mult_mono) simp_all
  then have "\<bar>r * l - 0\<bar> \<le> 6 / 100 * (1 / 1024)" "\<bar>r * l\<bar> < 2" by simp_all
  from near_to_fp [OF this] have "near (1 / 10000) (to_fp (r * l)) 0" by (rule near_mono) simp
  then have "near (1 / 10000) (Fin r * Fin l) 0" by (simp only: times_fp_def fp_mul.simps)
  then show ?thesis using b unfolding r(1) one l(1) by (simp add: zero_fp_def less_fp_def)
qed

lemma kl_test:
  assumes "\<And>m. iter_order m (order m)" "\<And>m. iter_order m (orderf m)" "ln_near lnf"
  shows "test_kl_divergence_zero_for_same_distribution lnf order orderf"
  unfolding test_kl_divergence_zero_for_same_distribution_def
proof (rule baseline_testI [OF assms(1)])
  let ?ids = "[1, 2, 1, 2] :: u32 list"
  fix b assume b: "update_all Debug order (baseline_new zero_pubkey) [make_test_events ?ids] = Inr b"
  let ?fs = "pb_syscall_frequencies b" and ?f = "\<lambda>sid. blend 0 (float_share (\<lambda>e. ev_syscall_id e = sid) (make_test_events ?ids))"
  have look: "fmlookup ?fs sid = (if sid \<in> {1, 2} then Some (?f sid) else None)" for sid
    using one_update(1) [OF b assms(1), of sid] by auto
  have sh: "share (\<lambda>e. ev_syscall_id e = sid) (make_test_events ?ids) = 1 / 2" if "sid \<in> {1, 2}" for sid
    using that by (auto simp: share_def make_test_events_def)
  have near: "near (1 / 2 ^ 47) (?f sid) (1 / 20)" if "sid \<in> {1, 2}" for sid
    using blend_share_near [of ?ids "\<lambda>e. ev_syscall_id e = sid", unfolded sh [OF that]] by simp
  let ?t = "\<lambda>sid. ?f sid * lnf (?f sid / fp_max (?f sid) epsilon)"
  have ks: "set (orderf ?fs) = {1, 2}"
    using iter_order_mem [OF assms(2), of _ ?fs] look by (auto split: if_splits)
  have "distinct (orderf ?fs)" using assms(2) [of ?fs] by (simp add: iter_order_def)
  then have "length (orderf ?fs) = card {1, 2 :: u32}" unfolding ks [symmetric] by (simp add: distinct_card)
  then have len: "length (orderf ?fs) = 2" by simp
  have step: "kl_term lnf b ?fs a sid = a + ?t sid" if "sid \<in> set (orderf ?fs)" for a sid
    using that self_term [OF assms(3) near [of sid]] unfolding ks by (auto simp: kl_term_def look Let_def)
  have "kl_divergence lnf orderf b ?fs = foldl (\<lambda>a sid. a + ?t sid) 0 (orderf ?fs)"
    unfolding kl_divergence_def by (rule foldl_cong) (simp_all add: step)
  also have "\<dots> = foldl (+) 0 (map ?t (orderf ?fs))" by (simp add: foldl_map)
  finally have kl: "kl_divergence lnf orderf b ?fs = foldl (+) 0 (map ?t (orderf ?fs))" .
  have "list_all2 (near (1 / 10000)) (map ?t (orderf ?fs)) (replicate 2 0)"
    using self_term [OF assms(3) near] ks len nth_mem [of _ "orderf ?fs"] by (simp add: list_all2_conv_all_nth)
  then have "near (0 + real (length (replicate 2 (0 :: real))) * (1 / 10000 + 1 / 2 ^ 53))
      (foldl (+) 0 (map ?t (orderf ?fs))) (0 + sum_list (replicate 2 0))"
    by (rule near_sum) (simp_all add: zero_fp_def numeral_2_eq_2)
  then have "near (1 / 1000) (kl_divergence lnf orderf b ?fs) 0"
    unfolding kl by (simp add: near_mono numeral_2_eq_2)
  then obtain k where k: "kl_divergence lnf orderf b ?fs = Fin k" "\<bar>k - 0\<bar> \<le> 1 / 1000" unfolding near_def by blast
  obtain c where c: "to_fp (1 / 100) = (Fin c :: f64)" "\<bar>c - 1 / 100\<bar> \<le> 1 / 10 ^ 9" using literal [of "1 / 100"] by auto
  have "1 / 10 ^ 9 \<le> (1 / 1000 :: real)" by simp
  with k(2) c(2) have "k < c" by linarith
  then show "let observed = ?fs; kl = kl_divergence lnf orderf b observed in kl < to_fp (1 / 100)"
    by (simp add: k(1) c(1) less_fp_def)
qed simp

section \<open>The detector\<close>

definition detector_events :: "u32 list \<Rightarrow> trace_event list" where
  "detector_events ids = map (\<lambda>(i, sid). \<lparr>ev_program_id = zero_pubkey, ev_syscall_id = sid, ev_args_hash = 0,
     ev_timestamp_ns = of_nat i * 100, ev_slot = 1, ev_transaction_id = zero_tx_id, ev_depth = 0\<rparr>)
     (List.enumerate 0 ids)"

definition test_no_anomaly_without_baseline ::
  "(f64 \<Rightarrow> f64) \<Rightarrow> ((syscall_id, f64) fmap \<Rightarrow> syscall_id list) \<Rightarrow> nat option \<Rightarrow> bool" where
  "test_no_anomaly_without_baseline lnf orderf clock \<longleftrightarrow>
     (let detector = detector_new default_policy (to_fp (5 / 100)); events = detector_events [SOL_SHA256, SOL_LOG]
      in case check_anomaly lnf Debug orderf clock detector zero_pubkey events of
           Inl _ \<Rightarrow> False | Inr (result, _) \<Rightarrow> result = None)"

definition test_score_zero_without_baseline ::
  "(f64 \<Rightarrow> f64) \<Rightarrow> ((syscall_id, f64) fmap \<Rightarrow> syscall_id list) \<Rightarrow> bool" where
  "test_score_zero_without_baseline lnf orderf \<longleftrightarrow>
     (let detector = detector_new default_policy (to_fp (5 / 100))
      in case score_program lnf Debug orderf detector zero_pubkey (detector_events [1]) of
           Inl _ \<Rightarrow> False | Inr score \<Rightarrow> fp_eq score 0)"

definition test_ingest_window_builds_baseline :: "((syscall_id, u64) fmap \<Rightarrow> syscall_id list) \<Rightarrow> bool" where
  "test_ingest_window_builds_baseline order \<longleftrightarrow>
     (let detector = detector_new default_policy (to_fp (5 / 100)); events = detector_events [1, 1, 20, 20, 2]
      in case ingest_window Debug order detector zero_pubkey events of
           Inl _ \<Rightarrow> False | Inr d \<Rightarrow> store_get (ad_baseline_store d) zero_pubkey \<noteq> None)"

lemma detector_tests: "test_no_anomaly_without_baseline lnf orderf clock" "test_score_zero_without_baseline lnf orderf"
  by (simp_all add: test_no_anomaly_without_baseline_def test_score_zero_without_baseline_def check_anomaly_def
      score_program_def detector_new_def store_new_def store_get_def fp_eq_def zero_fp_def)

lemma ingest_test: "test_ingest_window_builds_baseline order"
proof -
  let ?es = "detector_events [1, 1, 20, 20, 2]"
  obtain b where "update Debug order (baseline_new zero_pubkey) ?es = Inr b"
    using update_total [of Debug ?es "baseline_new zero_pubkey" order] by (auto simp: detector_events_def baseline_new_def)
  then show ?thesis
    by (simp add: test_ingest_window_builds_baseline_def ingest_window_def store_update_program_def detector_new_def
        store_new_def store_get_def)
qed

section \<open>The predictor\<close>

definition test_predict_next_returns_top_k :: "(f32 \<Rightarrow> nat \<Rightarrow> f32) \<Rightarrow> bool" where
  "test_predict_next_returns_top_k powif \<longleftrightarrow>
     (let predictor = predictor_new ''model.onnx''; result = predict_next powif predictor [SOL_GET_CLOCK_SYSVAR] zero_pubkey 3
      in length result = 3)"

definition test_probabilities_are_valid :: "(f32 \<Rightarrow> nat \<Rightarrow> f32) \<Rightarrow> bool" where
  "test_probabilities_are_valid powif \<longleftrightarrow>
     (let predictor = predictor_new ''model.onnx''; result = predict_next powif predictor [SOL_SHA256] zero_pubkey 5
      in list_all (\<lambda>(_, prob). 0 \<le> prob \<and> prob \<le> 1) result)"

definition test_reorder_safe_for_low_ids :: bool where
  "test_reorder_safe_for_low_ids \<longleftrightarrow> (let predictor = predictor_new ''model.onnx'' in reorder_safe predictor [1, 2, 3, 20, 21])"

definition test_reorder_not_safe_with_high_id :: bool where
  "test_reorder_not_safe_with_high_id \<longleftrightarrow>
     (let predictor = predictor_new ''model.onnx'' in \<not> reorder_safe predictor [1, 2, SOL_INVOKE_SIGNED])"

definition test_empty_history_returns_defaults :: "(f32 \<Rightarrow> nat \<Rightarrow> f32) \<Rightarrow> bool" where
  "test_empty_history_returns_defaults powif \<longleftrightarrow>
     (let predictor = predictor_new ''model.onnx''; result = predict_next powif predictor [] zero_pubkey 5 in result \<noteq> [])"

lemma f32_unit:
  assumes "0 \<le> x" "x \<le> 1"
  shows "0 \<le> (to_fp x :: f32) \<and> (to_fp x :: f32) \<le> 1"
proof -
  have "(to_fp 0 :: f32) = Fin 0" "(to_fp 1 :: f32) = Fin 1"
    using to_fp_dyadic [of 0 0, where 'p = 24] to_fp_dyadic [of 1 0, where 'p = 24] by simp_all
  then obtain r where "to_fp x = (Fin r :: f32)" "0 \<le> r" "r \<le> 1" using to_fp_between [OF assms] by blast
  then show ?thesis by (auto simp: less_eq_fp_def zero_fp_def one_fp_def fp_eq_def)
qed

lemma predictor_tests: "test_predict_next_returns_top_k powif" "test_probabilities_are_valid powif"
  "test_reorder_safe_for_low_ids" "test_reorder_not_safe_with_high_id" "test_empty_history_returns_defaults powif"
  by (simp_all add: test_predict_next_returns_top_k_def test_probabilities_are_valid_def
      test_reorder_safe_for_low_ids_def test_reorder_not_safe_with_high_id_def test_empty_history_returns_defaults_def
      predict_next_def predictor_new_def build_transition_table_def row_def reorder_safe_def default_distribution_def
      default_ids_def syscall_ids f32_unit)

end
