(* ===== verification/Spec2Isabelle.thy ===== *)
theory Spec2Isabelle
  imports RingConcurrent HandlerConcurrent SafetyProofs WindowBuilder CacheHitRate
    Batcher DedupTable NegativeScore AnomalyScorer PrefetcherConcurrent Predictor ArrowSerializer
    WorkloadReplay RuntimeMain Benchmarks RuntimeTests PipelineTests OptimizerTests SafetyTests AnalysisTests
begin

text \<open>
  The verification development of SyscallMind, an optimisation layer for the syscalls of Solana BPF
  programs.  It models the Rust crates of the repository and the three binaries; each theory names
  the source file it translates.

  \<^bold>\<open>The program.\<close>  The runtime (\<open>runtime\<close>) handles a syscall by building a trace event, sending it over
  a bounded channel and counting the call; the pipeline (\<open>pipeline\<close>) moves events through a
  lock-free ring buffer, groups them into windows by transaction and writes the windows as lines of
  JSON; the optimizer (\<open>optimizer\<close>) caches, deduplicates, batches and prefetches results; the
  safety layer (\<open>safety\<close>) classifies syscalls, searches data dependencies and approves or rejects
  an optimisation; the anomaly layer (\<open>anomaly\<close>, \<open>ml/inference\<close>) keeps a baseline per program and
  scores windows against it; the predictor (\<open>ml/inference\<close>) predicts the next syscalls.  The
  binaries (\<open>src/bin\<close>) simulate the runtime, generate a workload and replay one.

  \<^bold>\<open>Theories.\<close>
  \<^item> \<open>Prelude\<close>: machine integers, checked arithmetic, failures as values, hash maps as finite maps
    with their iteration order as an argument, the shared lemmas on counts and lists.
    \<open>Floats\<close>: binary floating point with round to nearest even (\<open>f64\<close>, \<open>f32\<close>), infinities and NaN,
    and the interval lemmas about it; \<open>FloatErrors\<close>: bounds on the rounding errors.
    \<open>RustText\<close>: \<open>str::lines\<close> and \<open>str::trim\<close>.
  \<^item> \<open>Common\<close> (\<open>common/src/lib.rs\<close>), \<open>Registry\<close>, \<open>TraceEmitter\<close>, \<open>Handler\<close>,
    \<open>HandlerConcurrent\<close> (\<open>runtime/src\<close>): the event types, the hash of the arguments, the
    registry, and \<open>handle\<close> run by one thread and interleaved over many at its atomic accesses.
    The lemmas give exact counts, a trace in call order with the drops counted, and no panic.
  \<^item> \<open>RingBuffer\<close>, \<open>RingConcurrent\<close>, \<open>WindowBuilder\<close>, \<open>ArrowSerializer\<close> (\<open>pipeline/src\<close>): the ring
    buffer refines a bounded queue, and with one producer and one consumer whose loads may be stale
    it loses and reorders nothing; the builder refines a log per transaction; written windows are
    read back.
  \<^item> \<open>Classifier\<close>, \<open>DependencyChecker\<close>, \<open>Validator\<close> (\<open>safety/src\<close>): the two classifications of
    the program compared, the exact set of dependencies found (reads after writes of one program
    only), what the gate approves and why that preserves results.
  \<^item> \<open>LruInterface\<close>, \<open>SysvarCache\<close>, \<open>CacheHitRate\<close>, \<open>DedupTable\<close>, \<open>Batcher\<close>, \<open>Prefetcher\<close>,
    \<open>PrefetcherConcurrent\<close> (\<open>optimizer/src\<close>): soundness and retention of the cache on any LRU cache
    that keeps the laws of the locale \<open>lru_cache\<close>, its exact answers when nothing is evicted and when
    its sweeps make no difference, the answers of the other three as functions of
    their history; the prefetcher shared by many threads, whose check and insertion are two critical
    sections, is linearizable.
  \<^item> \<open>SafetyProofs\<close>: the arguments of \<open>docs/safety_proofs.md\<close> on the components together: how old a
    cached result can be, that deduplication changes no result for a dependency-free transaction of one
    program, and that it can for several.  The executor \<open>exec_dedup\<close> follows that document, as no code
    of the repository combines the gate with the table.
  \<^item> \<open>Baseline\<close>, \<open>AnomalyPolicy\<close>, \<open>AnomalyDetector\<close> (\<open>anomaly/src\<close>), \<open>AnomalyScorer\<close>,
    \<open>Predictor\<close> (\<open>ml/inference/src\<close>): all quantities stay in their ranges through rounding, no sort
    meets a NaN, the log is exact; the trait of the predictors is the locale \<open>syscall_predictor\<close>,
    interpreted on both implementations.  \<open>BaselineAverage\<close>: the held frequencies follow the moving
    averages over the reals within \<open>2 ^ - 47\<close>; \<open>NegativeScore\<close>: the score can be negative.
  \<^item> \<open>RuntimeMain\<close>, \<open>WorkloadGenerator\<close>, \<open>WorkloadMain\<close>, \<open>ReplayHarness\<close>, \<open>ReplayLines\<close>,
    \<open>MockSnapshot\<close>, \<open>ReplayMain\<close>, \<open>WorkloadReplay\<close> (\<open>src/bin\<close>): the three programs with their files,
    error paths and printed lines.  The lemmas give the exact output of the generator and of the
    replay, on success and after an error; the last theory runs one after the other, and what the
    second writes reads back as what the first generated.
  \<^item> \<open>Benchmarks\<close> (\<open>benches\<close>): what an iteration of each benchmark computes, and that it takes the
    path the benchmark is named after.
  \<^item> \<open>RuntimeTests\<close>, \<open>PipelineTests\<close>, \<open>OptimizerTests\<close>, \<open>SafetyTests\<close>, \<open>AnalysisTests\<close>: every unit and
    integration test of the repository as a statement about the model, and that it holds; they
    compare the model with what the authors expect of the code.
  \<^item> This theory: the predictor and the batcher against the safety gate.

  \<^bold>\<open>Conventions.\<close>  A struct is a record with prefixed fields, an operation a function that returns the
  updated record; integers have their width, and the operators that panic in a debug build and wrap
  in a release build take the build profile.  A run of a component is a list of operations of a
  datatype local to its theory, from a new state; the specifications are functions of that list.
  Code outside the repository is an argument with its documented behaviour as a locale or as named
  hypotheses: the channel (\<open>trace_channel\<close>), the LRU cache (\<open>lru_cache\<close>), the JSON codec, the
  random draws, the clock, the logarithm and \<open>powi\<close>.

  \<^bold>\<open>Bounds and fuel.\<close>  The counters wrap at \<open>2 ^ 64\<close>; statements about exact counts carry the bound on
  the number of operations or are modulo \<open>2 ^ 64\<close>.  The receiving loop of the runtime binary takes
  fuel; more than the capacity of the channel is enough, as the handler is dropped before the loop
  has to end.  The workload generator does not overflow up to \<open>10 ^ 12\<close> transactions.  All other
  loops are structural recursions on lists.

  \<^bold>\<open>Not modelled.\<close>  Log lines, the parsing of the command lines and the layout of the printed lines;
  the file system beyond contents by path, whether a file can be read, made or opened, and what is
  in a file after a panic; the JSON text itself; the derives of serde; the measured times; the
  training scripts in Python, the configuration files (no Rust code reads them) and the shell
  scripts.  The predictor is modelled for one thread; its lock is taken once per operation.  In the
  interleaved models a relaxed increment is atomic and a critical section is one step; a reader of
  the counters beside running threads is not modelled.
\<close>

section \<open>The components and the safety gate\<close>

lemma registered_iff:
  "registry_get registry_new sid \<noteq> None \<longleftrightarrow>
     sid \<in> {1, 2, 3, 4, 5, 6, 10, 11, 12, 13, 20, 21, 22, 23, 30, 40, 41, 50, 51, 52, 53, 54, 60, 61}"
  unfolding registry_get_def registry_lookup registry_table_def syscall_ids by simp

text \<open>The registered numbers up to 29 are the read-only sysvars, logging and cryptography.\<close>

lemma registered_small:
  assumes "registry_get registry_new sid \<noteq> None" "sid \<le> 29"
  shows "sid \<in> {1, 2, 3, 4, 5, 6, 10, 11, 12, 13, 20, 21, 22, 23}"
  using assms unfolding registered_iff by auto

text \<open>
  C27.  The predictor's heuristic against the safety gate.  A sequence of registered syscalls that
  \<open>reorder_safe\<close> accepts has no data dependency, but the heuristic is not the gate: on a
  single syscall it accepts what the gate rejects exactly for the numbers up to 29 that are not the
  six sysvar reads (logging, cryptography, unregistered numbers), and the gate approves what it
  rejects exactly for \<open>SOL_GET_RETURN_DATA\<close>; so an approved sequence without that syscall passes
  both.
\<close>

theorem predictor_vs_gate:
  "(reorder_safe tp (map ev_syscall_id seq) \<longrightarrow>
      list_all (\<lambda>e. registry_get registry_new (ev_syscall_id e) \<noteq> None) seq \<longrightarrow> \<not> has_dependencies seq) \<and>
   (reorder_safe tp [ev_syscall_id e] \<and> \<not> vr_approved (validate_reorder v [e]) \<longleftrightarrow>
      ev_syscall_id e \<le> 29 \<and> ev_syscall_id e \<notin> {1, 2, 3, 4, 5, 6}) \<and>
   (\<not> reorder_safe tp [ev_syscall_id e] \<and> vr_approved (validate_reorder v [e]) \<longleftrightarrow>
      ev_syscall_id e = SOL_GET_RETURN_DATA) \<and>
   (vr_approved (validate_reorder v seq) \<longrightarrow> SOL_GET_RETURN_DATA \<notin> ev_syscall_id ` set seq \<longrightarrow>
      reorder_safe tp (map ev_syscall_id seq))"
proof -
  have ro: "classify classifier_new sid = ReadOnly \<longleftrightarrow> sid \<in> {1, 2, 3, 4, 5, 6, 41}" for sid
    by (simp add: classify_table)
  have small: "sid \<le> 29" if "sid \<in> {1, 2, 3, 4, 5, 6}" for sid :: u32 using that by auto
  have opt: "classify classifier_new sid \<in> {ReadOnly, Idempotent}"
    if "registry_get registry_new sid \<noteq> None" "sid \<le> 29" for sid
    using registered_small [OF that] by (auto simp: classify_table)
  have "\<not> depends seq i j"
    if "reorder_safe tp (map ev_syscall_id seq)"
      "list_all (\<lambda>e. registry_get registry_new (ev_syscall_id e) \<noteq> None) seq" for i j
    using that opt [of "ev_syscall_id (seq ! i)"] 
    by (auto simp: depends_def reorder_safe_def list_all_iff)
  then have a: "reorder_safe tp (map ev_syscall_id seq) \<longrightarrow>
      list_all (\<lambda>e. registry_get registry_new (ev_syscall_id e) \<noteq> None) seq \<longrightarrow> \<not> has_dependencies seq"
    by (auto simp: has_dependencies_iff)
  have b: "reorder_safe tp [ev_syscall_id e] \<and> \<not> vr_approved (validate_reorder v [e]) \<longleftrightarrow>
      ev_syscall_id e \<le> 29 \<and> ev_syscall_id e \<notin> {1, 2, 3, 4, 5, 6}"
    by (auto simp: reorder_safe_def validate_reorder_approved_iff ro)
  have c: "\<not> reorder_safe tp [ev_syscall_id e] \<and> vr_approved (validate_reorder v [e]) \<longleftrightarrow>
      ev_syscall_id e = SOL_GET_RETURN_DATA"
    by (auto simp: reorder_safe_def validate_reorder_approved_iff ro syscall_ids)
  have d: "vr_approved (validate_reorder v seq) \<longrightarrow> SOL_GET_RETURN_DATA \<notin> ev_syscall_id ` set seq \<longrightarrow>
      reorder_safe tp (map ev_syscall_id seq)"
    using small by (fastforce simp: reorder_safe_def validate_reorder_approved_iff ro syscall_ids list_all_iff)
  from a b c d show ?thesis by blast
qed

theorem predictor_vs_gate_witness:
  "\<not> has_dependencies [sample_read SOL_GET_RENT_SYSVAR, sample_read SOL_SHA256] \<and>
   reorder_safe (predictor_new ''m'') [SOL_SHA256] \<and>
   \<not> vr_approved (validate_reorder (validator_new True) [sample_read SOL_SHA256])"
  using predictor_vs_gate [of "predictor_new ''m''" "[sample_read SOL_GET_RENT_SYSVAR, sample_read SOL_SHA256]"
      "sample_read SOL_SHA256" "validator_new True"] registered_iff [of 2] registered_iff [of 20]
  by (simp add: sample_read_def reorder_safe_def syscall_ids)

lemma can_batch_ids: "can_batch sid \<longleftrightarrow> sid \<in> {1, 2, 3, 4, 5, 6, 7, 8, 9}"
proof -
  have "sid \<in> {1, 2, 3, 4, 5, 6, 7, 8, 9}" if "1 \<le> sid" "sid \<le> 9"
  proof -
    have "unat sid \<in> {1..9}" using that by (auto simp: word_le_nat_alt)
    then have "unat sid \<in> {1, 2, 3, 4, 5, 6, 7, 8, 9}" by auto
    then show ?thesis by (auto simp: word_unat_eq_iff)
  qed
  then show ?thesis by (auto simp: can_batch_def)
qed

text \<open>
  C23.  The batcher against the safety gate: every batch it forms holds a single syscall, and the gate
  approves the batch exactly when that syscall is one of the six sysvar reads, which are the
  registered ones among the numbers the batcher accepts; so as long as only registered syscalls are
  pending every batch is approved.
\<close>

theorem batches_vs_gate:
  assumes order: "\<And>m. iter_order m (order m)"
  shows "\<exists>batches. batch_sysvar_reads order pending = Inr batches \<and>
    (\<forall>b \<in> set batches. \<exists>sid. set (bf_syscall_ids b) = {sid} \<and> can_batch sid \<and>
       (vr_approved (validate_batch (validator_new e) (bf_syscall_ids b)) \<longleftrightarrow> sid \<le> 6) \<and>
       (registry_get registry_new sid \<noteq> None \<longleftrightarrow> sid \<le> 6)) \<and>
    (list_all (\<lambda>p. registry_get registry_new (ps_syscall_id p) \<noteq> None) pending \<longrightarrow>
       (\<forall>b \<in> set batches. vr_approved (validate_batch (validator_new e) (bf_syscall_ids b))))"
proof -
  define batch where "batch sid = (let hashes = first_occurrences (hashes_of pending sid)
      in \<lparr>bf_syscall_ids = replicate (length hashes) sid, bf_args_hashes = hashes\<rparr>)" for sid
  have ids: "set (bf_syscall_ids (batch sid)) = {sid}" if "sid \<in> batchable_ids pending" for sid
  proof -
    have "hashes_of pending sid \<noteq> []"
      using that by (auto simp: batchable_ids_def hashes_of_def filter_empty_conv)
    then have "first_occurrences (hashes_of pending sid) \<noteq> []"
      by (metis set_empty set_first_occurrences)
    then show ?thesis by (simp add: batch_def Let_def)
  qed
  have approved: "vr_approved (validate_batch (validator_new e) (bf_syscall_ids (batch sid))) \<longleftrightarrow> sid \<le> 6"
    and known: "registry_get registry_new sid \<noteq> None \<longleftrightarrow> sid \<le> 6" and can: "can_batch sid"
    if "sid \<in> batchable_ids pending" for sid
    using ids [OF that] batchable_can_batch [OF that] unfolding can_batch_ids registered_iff
    by (auto simp: validate_batch_approved_iff eligible_iff classify_table can_batch_ids)
  let ?batches = "map batch (sorted_list_of_set (batchable_ids pending))"
  have run: "batch_sysvar_reads order pending = Inr ?batches"
    using batch_result [OF order] by (simp add: batch_def)
  have set: "set ?batches = batch ` batchable_ids pending"
    by (simp add: batchable_ids_def)
  have each: "\<forall>b \<in> set ?batches. \<exists>sid. set (bf_syscall_ids b) = {sid} \<and> can_batch sid \<and>
       (vr_approved (validate_batch (validator_new e) (bf_syscall_ids b)) \<longleftrightarrow> sid \<le> 6) \<and>
       (registry_get registry_new sid \<noteq> None \<longleftrightarrow> sid \<le> 6)"
    unfolding set using ids approved known can by fast
  have all: "vr_approved (validate_batch (validator_new e) (bf_syscall_ids b))"
    if pending: "list_all (\<lambda>p. registry_get registry_new (ps_syscall_id p) \<noteq> None) pending"
      and b: "b \<in> set ?batches" for b
  proof -
    obtain sid where sid: "sid \<in> batchable_ids pending" "b = batch sid" using b unfolding set by blast
    have "registry_get registry_new sid \<noteq> None"
      using pending sid(1) by (auto simp: list_all_iff batchable_ids_def)
    then show ?thesis using approved [OF sid(1)] known [OF sid(1)] sid(2) by simp
  qed
  from run each all show ?thesis by blast
qed

theorem batches_vs_gate_witness:
  "\<exists>batches. batch_sysvar_reads (\<lambda>m. sorted_list_of_fset (fmdom m)) [sample_pending 7 0, sample_pending 1 5] =
     Inr batches \<and> list_all (\<lambda>b. \<exists>sid. set (bf_syscall_ids b) = {sid} \<and> can_batch sid \<and>
       (vr_approved (validate_batch (validator_new True) (bf_syscall_ids b)) \<longleftrightarrow> sid \<le> 6)) batches"
proof -
  obtain batches where b: "batch_sysvar_reads (\<lambda>m. sorted_list_of_fset (fmdom m)) [sample_pending 7 0, sample_pending 1 5] =
      Inr batches"
    "\<forall>b \<in> set batches. \<exists>sid. set (bf_syscall_ids b) = {sid} \<and> can_batch sid \<and>
       (vr_approved (validate_batch (validator_new True) (bf_syscall_ids b)) \<longleftrightarrow> sid \<le> 6) \<and>
       (registry_get registry_new sid \<noteq> None \<longleftrightarrow> sid \<le> 6)"
    using batches_vs_gate [of "\<lambda>m. sorted_list_of_fset (fmdom m)" "[sample_pending 7 0, sample_pending 1 5]" True,
      OF sorted_fmdom_order] by blast
  then show ?thesis unfolding list_all_iff by blast
qed

end
